(* ===== verification/Prelude.thy ===== *)
theory Prelude
  imports Main "HOL-Library.Word" "HOL-Library.Sublist"
begin

text \<open>
  What every component of the model shares: the ways a C++ operation can fail, as the
  values of one datatype; the result type of an operation that may fail and its
  sequencing; characters as 8-bit words; and the generic view of a program as a transition
  system with an invariant, which the strategies and the whole protocol instantiate.
\<close>

section \<open>Failures and results\<close>

text \<open>
  An operation of the program ends in one of three ways: normally, by terminating the
  process (an uncaught exception of the standard library, or a call of \<open>exit\<close>), or by
  doing something the C++ standard leaves undefined. The last two are values of
  \<open>fault\<close>; a result is \<open>Inl\<close> of a fault or \<open>Inr\<close> of the value.
\<close>

datatype fault =
    Length_Error        \<comment> \<open>\<open>std::length_error\<close> from a string constructor\<close>
  | Out_Of_Range        \<comment> \<open>\<open>std::out_of_range\<close>\<close>
  | Invalid_Argument    \<comment> \<open>\<open>std::invalid_argument\<close>\<close>
  | Exit_Failure        \<comment> \<open>\<open>exit(EXIT_FAILURE)\<close>\<close>
  | Bad_Index           \<comment> \<open>an array, string or vector accessed outside its bounds\<close>
  | Uninitialised       \<comment> \<open>an indeterminate value is used\<close>
  | Use_After_Free      \<comment> \<open>a pointer to a deleted object is dereferenced\<close>
  | Empty_Container     \<comment> \<open>\<open>front\<close>, \<open>pop\<close>, \<open>pop_back\<close> or \<open>*begin()\<close> of an empty container\<close>
  | Invalid_Iterator    \<comment> \<open>an iterator is used after its container changed under it\<close>
  | Division_By_Zero    \<comment> \<open>the remainder by zero\<close>
  | Bad_Array_Length    \<comment> \<open>\<open>std::bad_array_new_length\<close> from \<open>new char[n]\<close>\<close>
  | Self_Deadlock       \<comment> \<open>a thread locks a mutex it already holds\<close>
  | Null_Pointer        \<comment> \<open>a null pointer is dereferenced\<close>
  | Out_Of_Fuel         \<comment> \<open>a loop bound of the model was too small (proved not to happen)\<close>

type_synonym 'a res = "fault + 'a"

fun rbind :: "'a res \<Rightarrow> ('a \<Rightarrow> 'b res) \<Rightarrow> 'b res" where
  "rbind (Inl e) f = Inl e"
| "rbind (Inr x) f = f x"

lemma rbind_Inr_iff: "rbind m f = Inr y \<longleftrightarrow> (\<exists>x. m = Inr x \<and> f x = Inr y)"
  by (cases m) auto

lemma rbind_Inl_iff: "rbind m f = Inl e \<longleftrightarrow> m = Inl e \<or> (\<exists>x. m = Inr x \<and> f x = Inl e)"
  by (cases m) auto

lemma rbind_InrE:
  assumes "rbind m f = Inr y"
  obtains x where "m = Inr x" and "f x = Inr y"
  using assms by (auto simp: rbind_Inr_iff)

lemma rbind_assoc: "rbind (rbind m f) g = rbind m (\<lambda>x. rbind (f x) g)"
  by (cases m) auto

text \<open>For recursive calls under \<open>rbind\<close>: the continuation only runs on a value.\<close>

lemma rbind_cong [fundef_cong]:
  "m = m' \<Longrightarrow> (\<And>x. m' = Inr x \<Longrightarrow> f x = f' x) \<Longrightarrow> rbind m f = rbind m' f'"
  by (cases m) auto

text \<open>A result that is a value, for statements that an operation does not fail.\<close>

definition succeeds :: "'a res \<Rightarrow> bool" where
  "succeeds m \<longleftrightarrow> (\<exists>x. m = Inr x)"

lemma succeeds_Inr [simp]: "succeeds (Inr x)" and succeeds_Inl [simp]: "\<not> succeeds (Inl e)"
  by (auto simp: succeeds_def)

text \<open>
  \<open>yields Q m\<close>: what \<open>m\<close> returns, if it returns, satisfies \<open>Q\<close>; with the rules that follow an
  operation along its branches.
\<close>

named_theorems yields_intros

definition yields :: "('a \<Rightarrow> bool) \<Rightarrow> 'a res \<Rightarrow> bool" where
  "yields Q m \<longleftrightarrow> (\<forall>x. m = Inr x \<longrightarrow> Q x)"

lemma yieldsD: "yields Q m \<Longrightarrow> m = Inr x \<Longrightarrow> Q x"
  by (simp add: yields_def)

lemma yields_Inr [yields_intros]: "Q x \<Longrightarrow> yields Q (Inr x)"
  by (simp add: yields_def)

lemma yields_Inl [yields_intros]: "yields Q (Inl e)"
  by (simp add: yields_def)

lemma yields_rbind [yields_intros]: "(\<And>x. yields Q (f x)) \<Longrightarrow> yields Q (rbind m f)"
  by (cases m) (simp_all add: yields_def)

lemma yields_bind: "(\<And>x. m = Inr x \<Longrightarrow> yields Q (f x)) \<Longrightarrow> yields Q (rbind m f)"
  by (cases m) (simp_all add: yields_def)

lemma yields_if [yields_intros]:
  "(b \<Longrightarrow> yields Q m) \<Longrightarrow> (\<not> b \<Longrightarrow> yields Q m') \<Longrightarrow> yields Q (if b then m else m')"
  by simp

lemma yields_Let [yields_intros]: "(\<And>x. x = v \<Longrightarrow> yields Q (f x)) \<Longrightarrow> yields Q (Let v f)"
  by simp

lemma yields_prod [yields_intros]:
  "(\<And>x y. z = (x, y) \<Longrightarrow> yields Q (f x y)) \<Longrightarrow> yields Q (case z of (x, y) \<Rightarrow> f x y)"
  by (cases z) simp

section \<open>Characters and C integers\<close>

type_synonym byte = "8 word"

text \<open>
  \<open>static_cast<size_t>\<close> of a signed C integer, and the usual arithmetic conversion of an
  \<open>int\<close> that meets a \<open>size_t\<close>: the value modulo \<open>2 ^ 64\<close>.
\<close>

definition to_size_t :: "int \<Rightarrow> nat" where
  "to_size_t i = unat (word_of_int i :: 64 word)"

lemma to_size_t_nonneg [simp]:
  assumes "0 \<le> i" "i < 2 ^ 64"
  shows "to_size_t i = nat i"
  using assms by (simp add: to_size_t_def unat_eq_nat_uint uint_word_of_int_eq take_bit_eq_mod)

lemma to_size_t_neg:
  assumes "i < 0" "- (2 ^ 63) \<le> i"
  shows "to_size_t i = nat (2 ^ 64 + i)"
proof -
  have "i mod 2 ^ 64 = (2 ^ 64 + i) mod 2 ^ 64" by simp
  also have "\<dots> = 2 ^ 64 + i" using assms by (intro mod_pos_pos_trivial) auto
  finally show ?thesis
    by (simp add: to_size_t_def unat_eq_nat_uint uint_word_of_int_eq take_bit_eq_mod)
qed

lemma unat_bound: "unat (w :: 'a :: len word) < 2 ^ LENGTH('a)"
  by (rule unsigned_less)

lemma unat_ucast_up:
  fixes w :: "'a :: len word"
  assumes "LENGTH('a) \<le> LENGTH('b :: len)"
  shows "unat (ucast w :: 'b word) = unat w"
proof -
  have "unat w < 2 ^ LENGTH('b)"
    using unat_bound [of w] assms by (meson less_le_trans one_le_numeral power_increasing)
  then show ?thesis by (simp only: unsigned_ucast_eq) (simp add: take_bit_nat_eq_self)
qed

lemma unat_of_nat_32: "k < 2 ^ 32 \<Longrightarrow> unat (of_nat k :: 32 word) = k"
  by (simp add: unat_of_nat)

lemma of_nat_32_inj: "i < 2 ^ 32 \<Longrightarrow> j < 2 ^ 32 \<Longrightarrow> (of_nat i :: 32 word) = of_nat j \<longleftrightarrow> i = j"
  by (metis unat_of_nat_32)

text \<open>The division by two of a signed C integer, which truncates towards zero.\<close>

definition half :: "int \<Rightarrow> int" where
  "half n = sgn n * (\<bar>n\<bar> div 2)"

lemma half_nonneg: "0 \<le> n \<Longrightarrow> half n = n div 2"
  by (cases "n = 0") (auto simp: half_def)

section \<open>Transition systems and their invariants\<close>

inductive reachable :: "('s \<Rightarrow> bool) \<Rightarrow> ('s \<Rightarrow> 's \<Rightarrow> bool) \<Rightarrow> 's \<Rightarrow> bool"
  for start :: "'s \<Rightarrow> bool" and step :: "'s \<Rightarrow> 's \<Rightarrow> bool" where
  reachable_start: "start s \<Longrightarrow> reachable start step s"
| reachable_step: "reachable start step s \<Longrightarrow> step s t \<Longrightarrow> reachable start step t"

lemma reachable_steps:
  assumes "reachable start step s" "step\<^sup>*\<^sup>* s t"
  shows "reachable start step t"
  using assms(2,1) by (induction rule: rtranclp_induct) (auto intro: reachable_step)

text \<open>
  The contract of a program seen as a transition system: an invariant that holds in the
  start states and that every step keeps holds in every reachable state.
\<close>

locale inv_system =
  fixes start :: "'s \<Rightarrow> bool"
    and step :: "'s \<Rightarrow> 's \<Rightarrow> bool"
    and inv :: "'s \<Rightarrow> bool"
  assumes inv_start: "start s \<Longrightarrow> inv s"
    and inv_step: "inv s \<Longrightarrow> step s t \<Longrightarrow> inv t"
begin

lemma inv_reachable: "reachable start step s \<Longrightarrow> inv s"
  by (induction rule: reachable.induct) (auto intro: inv_start inv_step)

end

section \<open>Facts on lists the components share\<close>

lemma sorted_wrt_less_map_distinct:
  "sorted_wrt (\<lambda>a b. (f a :: 'k :: linorder) < f b) xs \<Longrightarrow> distinct xs"
  by (induction xs) auto

lemma take_Suc_drop_split:
  "k < length xs \<Longrightarrow> drop k xs = xs ! k # drop (Suc k) xs"
  by (simp add: Cons_nth_drop_Suc)

end
