(* ===== verification/Packets.thy ===== *)
theory Packets
  imports Prelude
begin

text \<open>
  The wire formats: \<open>shared/data_packet\<close>, \<open>shared/ack_packet\<close> and the checksums of
  \<open>shared/packet_util\<close>.
\<close>

unbundle bit_operations_syntax

section \<open>Constants and records\<close>

definition HEADER_SIZE :: nat where "HEADER_SIZE = 8"
definition MAX_DATA_SIZE :: nat where "MAX_DATA_SIZE = 500"
definition MAX_PKT_SIZE :: nat where "MAX_PKT_SIZE = 508"
definition ACK_PKT_LEN :: nat where "ACK_PKT_LEN = 8"

text \<open>Time points of \<open>std::chrono::steady_clock\<close> are counts of nanoseconds.\<close>

definition PACKET_TIME_OUT :: nat where "PACKET_TIME_OUT = 1000000000"

record ack_packet =
  ack_cksum :: "16 word"
  ack_len :: "16 word"
  ackno :: "32 word"

record data_packet =
  cksum :: "16 word"
  len :: "16 word"
  seqno :: "32 word"
  acked :: bool
  time_stamp :: nat
  data :: "byte list"

section \<open>Checksums\<close>

definition wrap_extra_bits :: "32 word \<Rightarrow> 32 word" where
  "wrap_extra_bits check_sum =
     (if check_sum AND 0x10000 \<noteq> 0 then (check_sum AND 0xFFFF) + 1 else check_sum)"

text \<open>The loop over the payload: a (signed) character is widened to 32 bits and masked.\<close>

fun sum_data :: "32 word \<Rightarrow> byte list \<Rightarrow> 32 word" where
  "sum_data check_sum [] = check_sum"
| "sum_data check_sum (i # is) =
     sum_data (wrap_extra_bits (check_sum + ((scast i :: 32 word) AND 0xFF))) is"

definition header_sum :: "16 word \<Rightarrow> 32 word \<Rightarrow> 32 word" where
  "header_sum l n =
     (let check_sum = wrap_extra_bits (ucast l);
          check_sum = wrap_extra_bits (check_sum + (n AND 0xFFFF))
      in wrap_extra_bits (check_sum + (drop_bit 16 n AND 0xFFFF)))"

definition calculate_checksum :: "data_packet \<Rightarrow> 16 word res" where
  "calculate_checksum packet =
     (let check_sum = sum_data (header_sum (len packet) (seqno packet)) (data packet)
      in if check_sum > 0xFFFF then Inl Exit_Failure else Inr (ucast check_sum))"

definition calculate_ack_checksum :: "ack_packet \<Rightarrow> 16 word res" where
  "calculate_ack_checksum packet =
     (let check_sum = header_sum (ack_len packet) (ackno packet)
      in if check_sum > 0xFFFF then Inl Exit_Failure else Inr (ucast check_sum))"


text \<open>
  What the folding of the carry computes, on natural numbers: the one's complement sum.
\<close>

definition ones_add :: "nat \<Rightarrow> nat \<Rightarrow> nat" where
  "ones_add c x = (if c + x < 65536 then c + x else c + x - 65535)"

lemma ones_add_le: "c \<le> 65535 \<Longrightarrow> x \<le> 65535 \<Longrightarrow> ones_add c x \<le> 65535"
  unfolding ones_add_def by (cases "c + x < 65536") auto

lemma ones_add_mod: "ones_add c x mod 65535 = (c + x) mod 65535"
  by (simp add: ones_add_def le_mod_geq)

lemma ones_add_eq_0: "c \<le> 65535 \<Longrightarrow> ones_add c x = 0 \<longleftrightarrow> c = 0 \<and> x = 0"
  by (auto simp: ones_add_def)

lemma bit16_unat:
  fixes c :: "32 word"
  assumes "unat c < 0x20000"
  shows "c AND 0x10000 \<noteq> 0 \<longleftrightarrow> 0x10000 \<le> unat c"
proof -
  have "c AND 2 ^ 16 = 0 \<longleftrightarrow> \<not> bit c 16"
    by (rule and_exp_eq_0_iff_not_bit)
  moreover have "bit c 16 = bit (unat c) 16"
    by (simp add: bit_unsigned_iff)
  moreover have "bit (unat c) 16 \<longleftrightarrow> 0x10000 \<le> unat c"
  proof -
    have "unat c div 0x10000 < 2" using assms by (simp add: div_less_iff_less_mult)
    then have "odd (unat c div 0x10000) \<longleftrightarrow> unat c div 0x10000 \<noteq> 0"
      by (cases "unat c div 0x10000") auto
    then show ?thesis by (simp add: bit_iff_odd div_eq_0_iff) linarith
  qed
  ultimately show ?thesis by simp
qed

lemma unat_and_FFFF: "unat (c AND 0xFFFF :: 32 word) = unat c mod 65536"
proof -
  have "c AND 0xFFFF = take_bit 16 c"
    by (simp add: take_bit_eq_mask mask_eq_exp_minus_1)
  moreover have "unat (take_bit 16 c) = unat c mod 65536"
    by (simp only: unsigned_take_bit_eq) (simp add: take_bit_eq_mod)
  ultimately show ?thesis by simp
qed

lemma unat_wrap_extra_bits:
  assumes "unat c < 0x20000"
  shows "unat (wrap_extra_bits c) = (if unat c < 65536 then unat c else unat c - 65535)"
proof (cases "unat c < 65536")
  case True
  then show ?thesis using bit16_unat [OF assms] by (simp add: wrap_extra_bits_def)
next
  case False
  then have "unat c mod 65536 = unat c - 65536" using assms by (simp add: le_mod_geq)
  then have "unat (c AND 0xFFFF) = unat c - 65536" by (simp add: unat_and_FFFF)
  moreover have "unat ((c AND 0xFFFF) + 1) = unat (c AND 0xFFFF) + 1"
    using calculation assms by (subst unat_add_lem [THEN iffD1]) auto
  ultimately show ?thesis
    using False bit16_unat [OF assms] by (simp add: wrap_extra_bits_def)
qed

lemma unat_wrap_add:
  assumes "unat c \<le> 65535" "unat x \<le> 65535"
  shows "unat (wrap_extra_bits (c + x)) = ones_add (unat c) (unat x)"
proof -
  have "unat (c + x) = unat c + unat x"
    using assms by (subst unat_add_lem [THEN iffD1]) auto
  then show ?thesis
    using assms unat_wrap_extra_bits [of "c + x"] by (auto simp: ones_add_def)
qed

lemma unat_char_mask: "unat ((scast (i :: byte) :: 32 word) AND 0xFF) = unat i"
proof -
  have "(scast i :: 32 word) AND 0xFF = take_bit 8 (scast i)"
    by (simp add: take_bit_eq_mask mask_eq_exp_minus_1)
  also have "\<dots> = ucast i"
  proof (rule bit_word_eqI)
    fix n :: nat
    show "bit (take_bit 8 (scast i :: 32 word)) n = bit (ucast i :: 32 word) n" if "n < LENGTH(32)"
    proof (cases "n < 8")
      case True
      then have "min 7 n = n" by simp
      with True that show ?thesis by (simp add: bit_simps)
    next
      case False
      then have "\<not> bit i n" by (auto dest: bit_imp_le_length)
      with False show ?thesis by (simp add: bit_simps)
    qed
  qed
  finally show ?thesis by (simp add: unat_ucast_up)
qed


section \<open>What the checksums compute\<close>

definition header_sum_nat :: "nat \<Rightarrow> nat \<Rightarrow> nat" where
  "header_sum_nat l n = ones_add (ones_add l (n mod 65536)) (n div 65536)"

lemma unat_hi_half: "unat (drop_bit 16 n AND 0xFFFF :: 32 word) = unat n div 65536"
proof -
  have "unat (drop_bit 16 n :: 32 word) = unat n div 65536"
    using unat_bound [of n]
    by (simp only: unsigned_drop_bit_eq) (simp add: drop_bit_eq_div take_bit_nat_eq_self)
  moreover have "unat n div 65536 < 65536"
    using unat_bound [of n] by (simp add: div_less_iff_less_mult)
  ultimately show ?thesis by (simp add: unat_and_FFFF)
qed

lemma hi_half_le: "unat (n :: 32 word) div 65536 \<le> 65535"
  using unat_bound [of n] by (simp add: less_Suc_eq_le [symmetric] div_less_iff_less_mult)

lemma len_le: "unat (l :: 16 word) \<le> 65535"
  using unat_bound [of l] by simp

lemma unat_header_sum: "unat (header_sum l n) = header_sum_nat (unat l) (unat n)"
proof -
  let ?c0 = "ucast l :: 32 word"
  let ?c1 = "wrap_extra_bits (?c0 + (n AND 0xFFFF))"
  have l: "unat ?c0 = unat l" by (simp add: unat_ucast_up)
  then have w: "unat (wrap_extra_bits ?c0) = unat l"
    using unat_wrap_extra_bits [of ?c0] len_le [of l] by simp
  then have w': "wrap_extra_bits ?c0 = ?c0"
    using l by (metis unsigned_word_eqI)
  have c1: "unat ?c1 = ones_add (unat l) (unat n mod 65536)"
    using unat_wrap_add [of ?c0 "n AND 0xFFFF"] l len_le [of l]
    by (simp add: unat_and_FFFF less_Suc_eq_le [symmetric])
  have "unat ?c1 \<le> 65535"
    unfolding c1 using len_le [of l] by (intro ones_add_le) (auto simp: less_Suc_eq_le [symmetric])
  then have "unat (wrap_extra_bits (?c1 + (drop_bit 16 n AND 0xFFFF)))
      = ones_add (unat ?c1) (unat n div 65536)"
    using unat_wrap_add [of ?c1 "drop_bit 16 n AND 0xFFFF"] hi_half_le [of n]
    by (simp add: unat_hi_half)
  then show ?thesis
    by (simp add: header_sum_def header_sum_nat_def Let_def w' c1)
qed

lemma header_sum_nat_le: "l \<le> 65535 \<Longrightarrow> n < 2 ^ 32 \<Longrightarrow> header_sum_nat l n \<le> 65535"
  unfolding header_sum_nat_def
  by (intro ones_add_le)
     (auto simp: less_Suc_eq_le [symmetric] div_less_iff_less_mult)

lemma header_sum_nat_mod:
  "header_sum_nat l n mod 65535 = (l + n mod 65536 + n div 65536) mod 65535"
  unfolding header_sum_nat_def
  by (metis ones_add_mod mod_add_left_eq)

lemma header_sum_nat_eq_0:
  "l \<le> 65535 \<Longrightarrow> header_sum_nat l n = 0 \<longleftrightarrow> l = 0 \<and> n mod 65536 = 0 \<and> n div 65536 = 0"
  unfolding header_sum_nat_def
  by (subst ones_add_eq_0, rule ones_add_le) (auto simp: ones_add_eq_0 less_Suc_eq_le [symmetric])

lemma header_sum_le: "unat (header_sum l n) \<le> 65535"
  using header_sum_nat_le [OF len_le, of "unat n" l] unat_bound [of n]
  by (simp add: unat_header_sum)

lemma unat_char_le: "unat (i :: byte) \<le> 255"
  using unat_bound [of i] by simp

lemma unat_sum_data:
  "unat c \<le> 65535 \<Longrightarrow>
   unat (sum_data c is) = fold (\<lambda>i s. ones_add s (unat i)) is (unat c) \<and>
   unat (sum_data c is) \<le> 65535"
proof (induction "is" arbitrary: c)
  case Nil
  then show ?case by simp
next
  case (Cons i "is")
  let ?c' = "wrap_extra_bits (c + ((scast i :: 32 word) AND 0xFF))"
  have "unat ?c' = ones_add (unat c) (unat i)"
    using unat_wrap_add [of c "(scast i :: 32 word) AND 0xFF"] Cons.prems unat_char_le [of i]
    by (simp add: unat_char_mask)
  moreover have "ones_add (unat c) (unat i) \<le> 65535"
    using Cons.prems unat_char_le [of i] by (intro ones_add_le) auto
  ultimately show ?case using Cons.IH [of ?c'] by simp
qed

lemma fold_ones_add_mod:
  "fold (\<lambda>i s. ones_add s (f i)) is c mod 65535 = (c + (\<Sum>i\<leftarrow>is. f i)) mod 65535"
proof (induction "is" arbitrary: c)
  case (Cons i "is")
  have "fold (\<lambda>i s. ones_add s (f i)) is (ones_add c (f i)) mod 65535
      = (ones_add c (f i) mod 65535 + (\<Sum>i\<leftarrow>is. f i)) mod 65535"
    by (simp add: Cons.IH mod_add_left_eq)
  then show ?case by (simp add: ones_add_mod mod_add_left_eq add.assoc)
qed simp

lemma fold_ones_add_eq_0:
  assumes "\<And>i. f i \<le> 65535"
  shows "c \<le> 65535 \<Longrightarrow>
    fold (\<lambda>i s. ones_add s (f i)) is c = 0 \<longleftrightarrow> c = 0 \<and> (\<Sum>i\<leftarrow>is. f i) = 0"
proof (induction "is" arbitrary: c)
  case (Cons i "is")
  then show ?case using assms ones_add_le [of c "f i"] by (auto simp: ones_add_eq_0)
qed simp


text \<open>
  The sum a checksum is taken of, as a natural number: two non-empty headers have the same
  checksum exactly when these sums agree modulo 65535.
\<close>

definition content_sum :: "16 word \<Rightarrow> 32 word \<Rightarrow> byte list \<Rightarrow> nat" where
  "content_sum l n d =
     unat l + unat n mod 65536 + unat n div 65536 + (\<Sum>i\<leftarrow>d. unat i)"

definition checksum_of :: "16 word \<Rightarrow> 32 word \<Rightarrow> byte list \<Rightarrow> 16 word" where
  "checksum_of l n d = ucast (sum_data (header_sum l n) d)"

lemma sum_data_le: "unat (sum_data (header_sum l n) d) \<le> 65535"
  using unat_sum_data [OF header_sum_le] by blast

lemma not_over_FFFF: "unat c \<le> 65535 \<Longrightarrow> \<not> (c :: 32 word) > 0xFFFF"
  by (simp add: word_less_nat_alt)

lemma calculate_checksum_eq:
  "calculate_checksum p = Inr (checksum_of (len p) (seqno p) (data p))"
  using not_over_FFFF [OF sum_data_le, of "len p" "seqno p" "data p"]
  by (simp add: calculate_checksum_def checksum_of_def Let_def)

lemma calculate_ack_checksum_eq:
  "calculate_ack_checksum p = Inr (checksum_of (ack_len p) (ackno p) [])"
  using not_over_FFFF [OF sum_data_le, of "ack_len p" "ackno p" "[]"]
  by (simp add: calculate_ack_checksum_def checksum_of_def Let_def)

lemma unat_checksum_of: "unat (checksum_of l n d) = unat (sum_data (header_sum l n) d)"
proof -
  have "unat (checksum_of l n d) = take_bit 16 (unat (sum_data (header_sum l n) d))"
    by (simp only: checksum_of_def unsigned_ucast_eq) simp
  then show ?thesis
    using sum_data_le [of l n d] by (simp add: take_bit_nat_eq_self)
qed

lemma checksum_of_fold:
  "unat (checksum_of l n d) = fold (\<lambda>i s. ones_add s (unat i)) d (header_sum_nat (unat l) (unat n))"
  using unat_sum_data [OF header_sum_le, of l n d]
  by (simp add: unat_checksum_of unat_header_sum)

lemma checksum_of_mod: "unat (checksum_of l n d) mod 65535 = content_sum l n d mod 65535"
proof -
  have "unat (checksum_of l n d) mod 65535
      = (header_sum_nat (unat l) (unat n) mod 65535 + (\<Sum>i\<leftarrow>d. unat i)) mod 65535"
    by (simp add: checksum_of_fold fold_ones_add_mod mod_add_left_eq)
  then show ?thesis
    by (simp add: header_sum_nat_mod content_sum_def mod_add_left_eq)
qed

lemma checksum_of_eq_0: "checksum_of l n d = 0 \<longleftrightarrow> content_sum l n d = 0"
proof -
  have "header_sum_nat (unat l) (unat n) \<le> 65535"
    using header_sum_nat_le [OF len_le, of "unat n" l] unat_bound [of n] by simp
  moreover have "unat (i :: byte) \<le> 65535" for i
    using unat_char_le [of i] by simp
  ultimately have "unat (checksum_of l n d) = 0
      \<longleftrightarrow> header_sum_nat (unat l) (unat n) = 0 \<and> (\<Sum>i\<leftarrow>d. unat i) = 0"
    by (simp only: checksum_of_fold fold_ones_add_eq_0)
  then show ?thesis
    using len_le [of l] by (auto simp: header_sum_nat_eq_0 content_sum_def unat_eq_zero)
qed

lemma mod_top_cases:
  fixes a b m :: nat
  assumes "a \<le> m" "b \<le> m" "a mod m = b mod m" "a = 0 \<longleftrightarrow> b = 0"
  shows "a = b"
proof (cases "a = m \<or> b = m")
  case True
  then have "a mod m = 0" and "b mod m = 0" using assms(3) by auto
  then show ?thesis using assms by (metis le_neq_implies_less mod_less)
next
  case False
  then show ?thesis using assms by simp
qed

lemma checksum_of_eq_iff:
  "checksum_of l n d = checksum_of l' n' d' \<longleftrightarrow>
     content_sum l n d mod 65535 = content_sum l' n' d' mod 65535 \<and>
     (content_sum l n d = 0 \<longleftrightarrow> content_sum l' n' d' = 0)"
  (is "?lhs \<longleftrightarrow> ?rhs")
proof
  assume ?lhs
  then show ?rhs by (metis checksum_of_mod checksum_of_eq_0)
next
  assume r: ?rhs
  have "unat (checksum_of l n d) = unat (checksum_of l' n' d')"
    using r
    by (intro mod_top_cases [OF len_le len_le])
       (simp_all add: checksum_of_mod checksum_of_eq_0 unat_eq_zero)
  then show ?lhs by (rule unsigned_word_eqI)
qed

lemma content_sum_pos: "l \<noteq> 0 \<Longrightarrow> content_sum l n d \<noteq> 0"
  by (auto simp: content_sum_def unat_eq_zero)

section \<open>Construction\<close>

text \<open>The checksum field is written last; its initial value is never read.\<close>

definition new_data_packet :: "byte list \<Rightarrow> 32 word \<Rightarrow> data_packet res" where
  "new_data_packet d n =
     (let p = \<lparr>cksum = 0, len = of_nat (length d + HEADER_SIZE), seqno = n,
               acked = False, time_stamp = 0, data = d\<rparr>
      in rbind (calculate_checksum p) (\<lambda>c. Inr (p\<lparr>cksum := c\<rparr>)))"

definition new_ack_packet :: "32 word \<Rightarrow> ack_packet res" where
  "new_ack_packet n =
     (let p = \<lparr>ack_cksum = 0, ack_len = of_nat ACK_PKT_LEN, ackno = n\<rparr>
      in rbind (calculate_ack_checksum p) (\<lambda>c. Inr (p\<lparr>ack_cksum := c\<rparr>)))"

definition default_ack_packet :: "ack_packet res" where
  "default_ack_packet =
     (let p = \<lparr>ack_cksum = 0, ack_len = of_nat ACK_PKT_LEN, ackno = 0\<rparr>
      in rbind (calculate_ack_checksum p) (\<lambda>c. Inr (p\<lparr>ack_cksum := c\<rparr>)))"

definition set_ack :: "bool \<Rightarrow> data_packet \<Rightarrow> data_packet" where
  "set_ack b p = p\<lparr>acked := b\<rparr>"

definition set_time_stamp :: "nat \<Rightarrow> data_packet \<Rightarrow> data_packet" where
  "set_time_stamp t p = p\<lparr>time_stamp := t\<rparr>"

text \<open>The value every successful construction has.\<close>

definition mk_packet :: "byte list \<Rightarrow> 32 word \<Rightarrow> data_packet" where
  "mk_packet d n =
     (let l = of_nat (length d + 8)
      in \<lparr>cksum = checksum_of l n d, len = l, seqno = n, acked = False, time_stamp = 0, data = d\<rparr>)"

definition mk_ack :: "32 word \<Rightarrow> ack_packet" where
  "mk_ack n = \<lparr>ack_cksum = checksum_of 8 n [], ack_len = 8, ackno = n\<rparr>"

lemma new_data_packet_eq [simp]: "new_data_packet d n = Inr (mk_packet d n)"
  by (simp add: new_data_packet_def mk_packet_def calculate_checksum_eq HEADER_SIZE_def Let_def)

lemma new_ack_packet_eq [simp]: "new_ack_packet n = Inr (mk_ack n)"
  by (simp add: new_ack_packet_def mk_ack_def calculate_ack_checksum_eq ACK_PKT_LEN_def Let_def)

lemma default_ack_packet_eq [simp]: "default_ack_packet = Inr (mk_ack 0)"
  by (simp add: default_ack_packet_def mk_ack_def calculate_ack_checksum_eq ACK_PKT_LEN_def Let_def)

lemma mk_packet_simps [simp]:
  "seqno (mk_packet d n) = n" "data (mk_packet d n) = d" "acked (mk_packet d n) = False"
  "len (mk_packet d n) = of_nat (length d + 8)" "time_stamp (mk_packet d n) = 0"
  "cksum (mk_packet d n) = checksum_of (of_nat (length d + 8)) n d"
  by (simp_all add: mk_packet_def Let_def)

lemma mk_ack_simps [simp]:
  "ackno (mk_ack n) = n" "ack_len (mk_ack n) = 8" "ack_cksum (mk_ack n) = checksum_of 8 n []"
  by (simp_all add: mk_ack_def)


section \<open>Packing: a local array written byte by byte\<close>

text \<open>
  \<open>char buf[len]\<close> starts indeterminate; a write outside it is undefined, and so is the
  string built from it while a byte is still indeterminate.
\<close>

type_synonym array = "byte option list"

definition new_array :: "nat \<Rightarrow> array" where
  "new_array n = replicate n None"

definition array_put :: "nat \<Rightarrow> byte \<Rightarrow> array \<Rightarrow> array res" where
  "array_put i b xs = (if i < length xs then Inr (xs[i := Some b]) else Inl Bad_Index)"

definition array_string :: "array \<Rightarrow> byte list res" where
  "array_string xs = (if None \<in> set xs then Inl Uninitialised else Inr (map the xs))"

fun array_copy :: "nat \<Rightarrow> byte list \<Rightarrow> array \<Rightarrow> array res" where
  "array_copy j [] xs = Inr xs"
| "array_copy j (b # bs) xs = rbind (array_put j b xs) (array_copy (Suc j) bs)"

text \<open>The first eight bytes of both formats: a 32-bit number, the length, the checksum.\<close>

definition put_header :: "32 word \<Rightarrow> 16 word \<Rightarrow> 16 word \<Rightarrow> array \<Rightarrow> array res" where
  "put_header n l c buf =
     rbind (array_put 0 (ucast (n AND 0xFF)) buf) (\<lambda>buf.
     rbind (array_put 1 (ucast (drop_bit 8 n AND 0xFF)) buf) (\<lambda>buf.
     rbind (array_put 2 (ucast (drop_bit 16 n AND 0xFF)) buf) (\<lambda>buf.
     rbind (array_put 3 (ucast (drop_bit 24 n AND 0xFF)) buf) (\<lambda>buf.
     rbind (array_put 4 (ucast (l AND 0xFF)) buf) (\<lambda>buf.
     rbind (array_put 5 (ucast (drop_bit 8 l AND 0xFF)) buf) (\<lambda>buf.
     rbind (array_put 6 (ucast (c AND 0xFF)) buf) (\<lambda>buf.
     array_put 7 (ucast (drop_bit 8 c AND 0xFF)) buf)))))))"

definition pack :: "data_packet \<Rightarrow> byte list res" where
  "pack p =
     rbind (put_header (seqno p) (len p) (cksum p) (new_array (unat (len p)))) (\<lambda>buf.
     rbind (array_copy 8 (data p) buf) array_string)"

definition pack_ack :: "ack_packet \<Rightarrow> byte list res" where
  "pack_ack p =
     rbind (put_header (ackno p) (ack_len p) (ack_cksum p) (new_array (unat (ack_len p))))
       array_string"

section \<open>Unpacking: a string read byte by byte\<close>

text \<open>
  \<open>operator[]\<close> of a string gives the terminating null at its length and is undefined
  beyond; \<open>substr\<close> throws when it starts beyond the end and stops at the end.
\<close>

definition str_at :: "byte list \<Rightarrow> nat \<Rightarrow> byte res" where
  "str_at buf i =
     (if i < length buf then Inr (buf ! i) else if i = length buf then Inr 0 else Inl Bad_Index)"

definition substr :: "byte list \<Rightarrow> nat \<Rightarrow> nat \<Rightarrow> byte list res" where
  "substr buf pos n = (if pos > length buf then Inl Out_Of_Range else Inr (take n (drop pos buf)))"

definition read_u32 :: "byte list \<Rightarrow> nat \<Rightarrow> 32 word res" where
  "read_u32 buf i =
     rbind (str_at buf i) (\<lambda>b0.
     rbind (str_at buf (i + 1)) (\<lambda>b1.
     rbind (str_at buf (i + 2)) (\<lambda>b2.
     rbind (str_at buf (i + 3)) (\<lambda>b3.
       let u0 = (scast b0 :: 32 word) AND 0xFF;
           u1 = (scast b1 :: 32 word) AND 0xFF;
           u2 = (scast b2 :: 32 word) AND 0xFF;
           u3 = (scast b3 :: 32 word) AND 0xFF
       in Inr (u0 OR push_bit 8 u1 OR push_bit 16 u2 OR push_bit 24 u3)))))"

definition read_u16 :: "byte list \<Rightarrow> nat \<Rightarrow> 16 word res" where
  "read_u16 buf i =
     rbind (str_at buf i) (\<lambda>b0.
     rbind (str_at buf (i + 1)) (\<lambda>b1.
       let x0 = (scast b0 :: 16 word) AND 0xFF;
           x1 = (scast b1 :: 16 word) AND 0xFF
       in Inr (x0 OR push_bit 8 x1)))"

definition unpack :: "byte list \<Rightarrow> data_packet \<Rightarrow> data_packet res" where
  "unpack buf p =
     rbind (read_u32 buf 0) (\<lambda>n.
     rbind (read_u16 buf 4) (\<lambda>l.
     rbind (read_u16 buf 6) (\<lambda>c.
     rbind (substr buf 8 (to_size_t (int (unat l) - int HEADER_SIZE))) (\<lambda>d.
       Inr (p\<lparr>seqno := n, len := l, cksum := c, data := d\<rparr>)))))"

definition unpack_ack :: "byte list \<Rightarrow> ack_packet \<Rightarrow> ack_packet res" where
  "unpack_ack buf p =
     rbind (read_u32 buf 0) (\<lambda>n.
     rbind (read_u16 buf 4) (\<lambda>l.
     rbind (read_u16 buf 6) (\<lambda>c.
       Inr (p\<lparr>ackno := n, ack_len := l, ack_cksum := c\<rparr>))))"

text \<open>
  The constructors from a receive buffer: \<open>std::string(buffer, n)\<close> copies \<open>n\<close>
  characters. A negative \<open>buf_len\<close> (what \<open>recvfrom\<close> returns on an error) is
  converted to a length no string can have.
\<close>

definition string_of_buffer :: "byte list \<Rightarrow> nat \<Rightarrow> byte list res" where
  "string_of_buffer buffer n =
     (if n \<ge> 2 ^ 63 then Inl Length_Error
      else if n > length buffer then Inl Bad_Index
      else Inr (take n buffer))"

definition blank_data_packet :: data_packet where
  "blank_data_packet =
     \<lparr>cksum = 0, len = 0, seqno = 0, acked = False, time_stamp = 0, data = []\<rparr>"

definition data_packet_of_buffer :: "byte list \<Rightarrow> int \<Rightarrow> data_packet res" where
  "data_packet_of_buffer buffer buf_len =
     rbind (string_of_buffer buffer (to_size_t buf_len)) (\<lambda>buf. unpack buf blank_data_packet)"

definition ack_packet_of_buffer :: "byte list \<Rightarrow> ack_packet res" where
  "ack_packet_of_buffer buffer =
     rbind (string_of_buffer buffer ACK_PKT_LEN)
       (\<lambda>buf. unpack_ack buf \<lparr>ack_cksum = 0, ack_len = 0, ackno = 0\<rparr>)"


section \<open>The wire image\<close>

definition header_bytes :: "32 word \<Rightarrow> 16 word \<Rightarrow> 16 word \<Rightarrow> byte list" where
  "header_bytes n l c =
     [ucast n, ucast (drop_bit 8 n), ucast (drop_bit 16 n), ucast (drop_bit 24 n),
      ucast l, ucast (drop_bit 8 l), ucast c, ucast (drop_bit 8 c)]"

lemma ucast_and_FF:
  fixes w :: "'a :: len word"
  assumes "8 \<le> LENGTH('a)"
  shows "(ucast (w AND 0xFF) :: byte) = ucast w"
proof -
  have "w AND 0xFF = take_bit 8 w" by (simp add: take_bit_eq_mask mask_eq_exp_minus_1)
  then show ?thesis
    by (intro bit_word_eqI) (use assms in \<open>auto simp: bit_simps\<close>)
qed

lemma put_header_eq:
  assumes "8 \<le> k"
  shows "put_header n l c (new_array k) =
    Inr (map Some (header_bytes n l c) @ replicate (k - 8) None)"
proof -
  obtain m where k: "k = 8 + m" using assms by (metis le_Suc_ex)
  have r: "replicate k None = [None,None,None,None,None,None,None,None] @ replicate m (None :: byte option)"
    by (simp add: k numeral_eq_Suc)
  show ?thesis
    unfolding put_header_def new_array_def r
    by (simp add: array_put_def header_bytes_def ucast_and_FF k numeral_eq_Suc)
qed

lemma put_header_short: "k < 8 \<Longrightarrow> put_header n l c (new_array k) = Inl Bad_Index"
  by (auto simp: put_header_def array_put_def new_array_def)

lemma array_copy_eq:
  "j + length bs \<le> length xs \<Longrightarrow>
   array_copy j bs xs = Inr (take j xs @ map Some bs @ drop (j + length bs) xs)"
proof (induction bs arbitrary: j xs)
  case Nil
  then show ?case by simp
next
  case (Cons b bs)
  then have "array_copy (Suc j) bs (xs[j := Some b])
      = Inr (take (Suc j) (xs[j := Some b]) @ map Some bs @ drop (Suc j + length bs) (xs[j := Some b]))"
    by (intro Cons.IH) simp
  with Cons.prems show ?case
    by (simp add: array_put_def take_Suc_conv_app_nth drop_update_cancel)
qed

lemma array_string_Some [simp]: "array_string (map Some bs) = Inr bs"
  by (auto simp: array_string_def comp_def)

lemma length_header_bytes [simp]: "length (header_bytes n l c) = 8"
  by (simp add: header_bytes_def)

lemma pack_eq:
  assumes "unat (len p) = 8 + length (data p)"
  shows "pack p = Inr (header_bytes (seqno p) (len p) (cksum p) @ data p)"
proof -
  let ?h = "map Some (header_bytes (seqno p) (len p) (cksum p))"
  have "array_copy 8 (data p) (?h @ replicate (length (data p)) None) = Inr (?h @ map Some (data p))"
    by (subst array_copy_eq) simp_all
  moreover have "?h @ map Some (data p) = map Some (header_bytes (seqno p) (len p) (cksum p) @ data p)"
    by simp
  ultimately show ?thesis
    unfolding pack_def by (simp add: put_header_eq assms del: map_append)
qed

lemma pack_ack_eq:
  "ack_len p = 8 \<Longrightarrow> pack_ack p = Inr (header_bytes (ackno p) (ack_len p) (ack_cksum p))"
  by (simp add: pack_ack_def put_header_eq)

lemma char32: "(scast (b :: byte) :: 32 word) AND 0xFF = ucast b"
proof -
  have "unat ((scast b :: 32 word) AND 0xFF) = unat (ucast b :: 32 word)"
    by (simp add: unat_char_mask unat_ucast_up)
  then show ?thesis by (rule unsigned_word_eqI)
qed

lemma char16: "(scast (b :: byte) :: 16 word) AND 0xFF = ucast b"
proof -
  have "(scast b :: 16 word) AND 0xFF = ucast ((scast b :: 32 word) AND 0xFF)"
    by (rule bit_word_eqI) (auto simp: bit_simps min_def)
  also have "\<dots> = ucast (ucast b :: 32 word)" by (simp add: char32)
  also have "\<dots> = ucast b" by (rule bit_word_eqI) (auto simp: bit_simps)
  finally show ?thesis .
qed

lemma bytes_u32:
  "(ucast (ucast n :: byte) :: 32 word) OR push_bit 8 (ucast (ucast (drop_bit 8 n) :: byte)) OR
   push_bit 16 (ucast (ucast (drop_bit 16 n) :: byte)) OR
   push_bit 24 (ucast (ucast (drop_bit 24 n) :: byte)) = n"
proof (rule bit_word_eqI)
  fix i :: nat
  assume "i < LENGTH(32)"
  then consider "i < 8" | "8 \<le> i" "i < 16" | "16 \<le> i" "i < 24" | "24 \<le> i" "i < 32"
    by fastforce
  then show "bit ((ucast (ucast n :: byte) :: 32 word) OR push_bit 8 (ucast (ucast (drop_bit 8 n) :: byte)) OR
   push_bit 16 (ucast (ucast (drop_bit 16 n) :: byte)) OR
   push_bit 24 (ucast (ucast (drop_bit 24 n) :: byte))) i = bit n i"
    by cases (auto simp: bit_simps)
qed

lemma bytes_u16:
  "(ucast (ucast l :: byte) :: 16 word) OR push_bit 8 (ucast (ucast (drop_bit 8 l) :: byte)) = l"
proof (rule bit_word_eqI)
  fix i :: nat
  assume "i < LENGTH(16)"
  then consider "i < 8" | "8 \<le> i" "i < 16" by fastforce
  then show "bit ((ucast (ucast l :: byte) :: 16 word) OR push_bit 8 (ucast (ucast (drop_bit 8 l) :: byte))) i = bit l i"
    by cases (auto simp: bit_simps)
qed

lemma read_header:
  "read_u32 (header_bytes n l c @ rest) 0 = Inr n"
  "read_u16 (header_bytes n l c @ rest) 4 = Inr l"
  "read_u16 (header_bytes n l c @ rest) 6 = Inr c"
  by (simp_all add: read_u32_def read_u16_def str_at_def header_bytes_def char32 char16
      bytes_u32 bytes_u16 Let_def)

lemma unpack_header:
  "unpack (header_bytes n l c @ rest) p =
     Inr (p\<lparr>seqno := n, len := l, cksum := c,
            data := take (to_size_t (int (unat l) - 8)) rest\<rparr>)"
  by (simp add: unpack_def read_header substr_def HEADER_SIZE_def)

lemma unpack_ack_header:
  "unpack_ack (header_bytes n l c @ rest) p = Inr (p\<lparr>ackno := n, ack_len := l, ack_cksum := c\<rparr>)"
  by (simp add: unpack_ack_def read_header)

text \<open>A constructed packet and its datagram, for a payload that fits a 16-bit length.\<close>

definition wire :: "byte list \<Rightarrow> 32 word \<Rightarrow> byte list" where
  "wire d n = header_bytes n (of_nat (length d + 8)) (checksum_of (of_nat (length d + 8)) n d) @ d"

definition ack_wire :: "32 word \<Rightarrow> byte list" where
  "ack_wire n = header_bytes n 8 (checksum_of 8 n [])"

lemma length_wire [simp]: "length (wire d n) = 8 + length d"
  by (simp add: wire_def)

lemma length_ack_wire [simp]: "length (ack_wire n) = 8"
  by (simp add: ack_wire_def)

lemma unat_len_word: "length d \<le> 65527 \<Longrightarrow> unat (of_nat (length d + 8) :: 16 word) = length d + 8"
  by (simp add: unat_of_nat del: of_nat_add)

lemma pack_mk_packet: "length d \<le> 65527 \<Longrightarrow> pack (mk_packet d n) = Inr (wire d n)"
  using unat_len_word [of d] by (subst pack_eq) (simp_all add: wire_def)

lemma pack_flags: "pack (p\<lparr>acked := a, time_stamp := t\<rparr>) = pack p"
  by (simp add: pack_def)

lemma pack_mk_ack [simp]: "pack_ack (mk_ack n) = Inr (ack_wire n)"
  by (simp add: pack_ack_eq ack_wire_def)

lemma data_packet_eqI:
  "cksum p = cksum q \<Longrightarrow> len p = len q \<Longrightarrow> seqno p = seqno q \<Longrightarrow> acked p = acked q \<Longrightarrow>
   time_stamp p = time_stamp q \<Longrightarrow> data p = data q \<Longrightarrow> p = (q :: data_packet)"
  by simp

lemma unpack_wire:
  assumes "length d \<le> 65527"
  shows "unpack (wire d n) blank_data_packet = Inr (mk_packet d n)"
proof -
  have "to_size_t (int (unat (of_nat (length d + 8) :: 16 word)) - 8) = length d"
    using assms unat_len_word [of d] by simp
  then show ?thesis
    by (simp add: wire_def unpack_header blank_data_packet_def mk_packet_def Let_def del: of_nat_add)
qed

lemma string_of_buffer_all: "length buf < 2 ^ 63 \<Longrightarrow> string_of_buffer buf (length buf) = Inr buf"
  by (simp add: string_of_buffer_def)

lemma data_packet_of_all:
  assumes "length buf < 2 ^ 63"
  shows "data_packet_of_buffer buf (int (length buf)) = unpack buf blank_data_packet"
proof -
  have "to_size_t (int (length buf)) = length buf"
    using assms by (subst to_size_t_nonneg) auto
  then show ?thesis
    using assms by (simp add: data_packet_of_buffer_def string_of_buffer_all)
qed

lemma data_packet_of_wire:
  assumes "length d \<le> 65527"
  shows "data_packet_of_buffer (wire d n) (int (length (wire d n))) = Inr (mk_packet d n)"
  using assms by (subst data_packet_of_all) (simp_all add: unpack_wire)

lemma ack_packet_of_wire [simp]: "ack_packet_of_buffer (ack_wire n @ rest) = Inr (mk_ack n)"
proof -
  have "string_of_buffer (ack_wire n @ rest) ACK_PKT_LEN = Inr (ack_wire n)"
    by (simp add: string_of_buffer_def ACK_PKT_LEN_def)
  moreover have "unpack_ack (ack_wire n) p = Inr (p\<lparr>ackno := n, ack_len := 8, ack_cksum := checksum_of 8 n []\<rparr>)" for p
    using unpack_ack_header [of n 8 "checksum_of 8 n []" "[]" p] by (simp add: ack_wire_def)
  ultimately show ?thesis
    by (simp add: ack_packet_of_buffer_def mk_ack_def)
qed

text \<open>
  The interface both formats offer: a well-formed packet packs, and its datagram unpacks
  to the packet again. Different packets then have different datagrams.
\<close>

locale wire_format =
  fixes enc :: "'p \<Rightarrow> byte list res"
    and dec :: "byte list \<Rightarrow> 'p res"
    and wf :: "'p \<Rightarrow> bool"
  assumes enc_ok: "wf p \<Longrightarrow> succeeds (enc p)"
    and dec_enc: "wf p \<Longrightarrow> enc p = Inr bs \<Longrightarrow> dec bs = Inr p"
begin

lemma round_trip: "wf p \<Longrightarrow> rbind (enc p) dec = Inr p"
  using enc_ok [of p] dec_enc [of p] by (auto simp: succeeds_def)

lemma enc_inj: "wf p \<Longrightarrow> wf q \<Longrightarrow> enc p = enc q \<Longrightarrow> p = q"
  by (metis round_trip sum.inject(2))

end

definition wf_data_packet :: "data_packet \<Rightarrow> bool" where
  "wf_data_packet p \<longleftrightarrow>
     unat (len p) = 8 + length (data p) \<and> \<not> acked p \<and> time_stamp p = 0"

definition wf_ack_packet :: "ack_packet \<Rightarrow> bool" where
  "wf_ack_packet p \<longleftrightarrow> ack_len p = 8"

lemma wf_mk_packet: "length d \<le> 65527 \<Longrightarrow> wf_data_packet (mk_packet d n)"
  using unat_len_word [of d] by (simp add: wf_data_packet_def)

interpretation data_wire: wire_format pack "\<lambda>bs. data_packet_of_buffer bs (int (length bs))" wf_data_packet
proof
  fix p bs
  assume wf: "wf_data_packet p"
  then have pk: "pack p = Inr (header_bytes (seqno p) (len p) (cksum p) @ data p)"
    by (simp add: wf_data_packet_def pack_eq)
  then show "succeeds (pack p)" by simp
  assume "pack p = Inr bs"
  with pk have bs: "bs = header_bytes (seqno p) (len p) (cksum p) @ data p" by simp
  have "length bs < 2 ^ 63" and sz: "to_size_t (int (unat (len p)) - 8) = length (data p)"
    using wf bs len_le [of "len p"] by (auto simp: wf_data_packet_def)
  then have "data_packet_of_buffer bs (int (length bs)) = unpack bs blank_data_packet"
    by (intro data_packet_of_all)
  then show "data_packet_of_buffer bs (int (length bs)) = Inr p"
    using wf sz by (simp add: bs unpack_header blank_data_packet_def wf_data_packet_def
        del: of_nat_unat)
qed

interpretation ack_wire: wire_format pack_ack ack_packet_of_buffer wf_ack_packet
proof
  fix p bs
  assume wf: "wf_ack_packet p"
  then have pk: "pack_ack p = Inr (header_bytes (ackno p) (ack_len p) (ack_cksum p))"
    by (simp add: wf_ack_packet_def pack_ack_eq)
  then show "succeeds (pack_ack p)" by simp
  assume "pack_ack p = Inr bs"
  with pk have bs: "bs = header_bytes (ackno p) (ack_len p) (ack_cksum p) @ []" by simp
  then show "ack_packet_of_buffer bs = Inr p"
    by (simp only: ack_packet_of_buffer_def bs)
       (simp add: string_of_buffer_def ACK_PKT_LEN_def unpack_ack_header [where rest = "[]", simplified])
qed

section \<open>The packets of a file\<close>

text \<open>A file whose packets can all be numbered, cut into payloads.\<close>

definition payloads_ok :: "byte list list \<Rightarrow> bool" where
  "payloads_ok ds \<longleftrightarrow> length ds < 2 ^ 32 - 1 \<and> (\<forall>d \<in> set ds. d \<noteq> [] \<and> length d \<le> 500)"

definition data_wire_of :: "byte list list \<Rightarrow> nat \<Rightarrow> byte list" where
  "data_wire_of ds i = wire (ds ! (i - 1)) (of_nat i)"

section \<open>Datagrams of any length\<close>

lemma unpack_short:
  assumes "length buf < 8"
  shows "unpack buf p = Inl (if length buf < 7 then Bad_Index else Out_Of_Range)"
  using assms by (auto simp: unpack_def read_u32_def read_u16_def str_at_def substr_def Let_def
      rbind_Inl_iff)

lemma take_payload_nat:
  assumes "length buf < 2 ^ 63" "k < 65536"
  shows "take (to_size_t (int k - 8)) (drop 8 buf) =
    (if 8 \<le> k then take (k - 8) (drop 8 buf) else drop 8 buf)"
proof (cases "8 \<le> k")
  case True
  then have "to_size_t (int k - 8) = k - 8"
    using assms(2) by (subst to_size_t_nonneg) auto
  with True show ?thesis by simp
next
  case False
  then have "length buf \<le> to_size_t (int k - 8)"
    using assms by (subst to_size_t_neg) auto
  with False show ?thesis by simp
qed

lemmas take_payload = take_payload_nat [of _ "unat (l :: 16 word)" for l]

lemma unpack_long:
  assumes "8 \<le> length buf" "length buf < 2 ^ 63"
  shows "\<exists>q. unpack buf p = Inr q \<and> acked q = acked p \<and>
    data q = (if 8 \<le> unat (len q) then take (unat (len q) - 8) (drop 8 buf) else drop 8 buf)"
proof -
  have "\<exists>n. read_u32 buf 0 = Inr n" "\<exists>l. read_u16 buf 4 = Inr l" "\<exists>c. read_u16 buf 6 = Inr c"
    using assms by (simp_all add: read_u32_def read_u16_def str_at_def Let_def)
  then obtain n l c where "read_u32 buf 0 = Inr n" "read_u16 buf 4 = Inr l" "read_u16 buf 6 = Inr c"
    by blast
  then show ?thesis
    using take_payload [of buf l] unat_bound [of l] assms
    by (simp add: unpack_def substr_def HEADER_SIZE_def)
qed

end
