(* ===== verification/Cxx_Set.thy ===== *)
theory Cxx_Set
  imports Packets
begin

text \<open>
  \<open>std::set\<close> with a comparator: a list of elements in strictly increasing order of a key.
  Two elements with equal keys are equivalent, so the second is not inserted, and erasing
  by value erases whichever equivalent element is there. The comparators of
  \<open>shared/data_packet.h\<close> are the instances: \<open>seq_num_comparator\<close> (the client's window),
  \<open>ptr_seq_num_comparator\<close> (the server's auxiliary window) and \<open>time_comparator\<close>
  (the server's unacknowledged packets), the last two through a store of packets.
\<close>

section \<open>Operations\<close>

fun set_insert :: "('a \<Rightarrow> 'a \<Rightarrow> bool) \<Rightarrow> 'a \<Rightarrow> 'a list \<Rightarrow> 'a list" where
  "set_insert lt x [] = [x]"
| "set_insert lt x (y # ys) =
     (if lt x y then x # y # ys
      else if lt y x then y # set_insert lt x ys
      else y # ys)"

fun set_erase :: "('a \<Rightarrow> 'a \<Rightarrow> bool) \<Rightarrow> 'a \<Rightarrow> 'a list \<Rightarrow> 'a list" where
  "set_erase lt x [] = []"
| "set_erase lt x (y # ys) =
     (if lt y x then y # set_erase lt x ys
      else if lt x y then y # ys
      else ys)"

fun set_find :: "('a \<Rightarrow> 'a \<Rightarrow> bool) \<Rightarrow> 'a \<Rightarrow> 'a list \<Rightarrow> 'a option" where
  "set_find lt x [] = None"
| "set_find lt x (y # ys) =
     (if lt y x then set_find lt x ys
      else if lt x y then None
      else Some y)"

text \<open>Every comparator of the program compares a key of its arguments.\<close>

definition by_key :: "('a \<Rightarrow> 'k :: linorder) \<Rightarrow> 'a \<Rightarrow> 'a \<Rightarrow> bool" where
  "by_key key x y \<longleftrightarrow> key x < key y"

definition sorted_by :: "('a \<Rightarrow> 'k :: linorder) \<Rightarrow> 'a list \<Rightarrow> bool" where
  "sorted_by key xs \<longleftrightarrow> sorted_wrt (\<lambda>x y. key x < key y) xs"

section \<open>The contract of an ordered set\<close>

locale ordered_set =
  fixes key :: "'a \<Rightarrow> 'k :: linorder"
    and ok :: "'s \<Rightarrow> bool"
    and elems :: "'s \<Rightarrow> 'a set"
    and ins :: "'a \<Rightarrow> 's \<Rightarrow> 's"
    and del :: "'a \<Rightarrow> 's \<Rightarrow> 's"
    and lookup :: "'a \<Rightarrow> 's \<Rightarrow> 'a option"
  assumes ok_ins: "ok s \<Longrightarrow> ok (ins x s)"
    and ok_del: "ok s \<Longrightarrow> ok (del x s)"
    and elems_ins: "ok s \<Longrightarrow>
      elems (ins x s) = (if key x \<in> key ` elems s then elems s else insert x (elems s))"
    and elems_del: "ok s \<Longrightarrow> elems (del x s) = {y \<in> elems s. key y \<noteq> key x}"
    and lookup_None: "ok s \<Longrightarrow> lookup x s = None \<longleftrightarrow> key x \<notin> key ` elems s"
    and key_inj: "ok s \<Longrightarrow> inj_on key (elems s)"
begin

lemma ins_subset: "ok s \<Longrightarrow> elems (ins x s) \<subseteq> insert x (elems s)"
  by (auto simp: elems_ins)

lemma ins_superset: "ok s \<Longrightarrow> elems s \<subseteq> elems (ins x s)"
  by (auto simp: elems_ins)

lemma ins_fresh: "ok s \<Longrightarrow> key x \<notin> key ` elems s \<Longrightarrow> elems (ins x s) = insert x (elems s)"
  by (simp add: elems_ins)

lemma del_subset: "ok s \<Longrightarrow> elems (del x s) \<subseteq> elems s"
  by (auto simp: elems_del)

lemma del_self: "ok s \<Longrightarrow> x \<notin> elems (del x s)"
  by (simp add: elems_del)

text \<open>Erasing an element that is in the set erases it and nothing else.\<close>

lemma del_member: "ok s \<Longrightarrow> x \<in> elems s \<Longrightarrow> elems (del x s) = elems s - {x}"
  using key_inj [of s] by (auto simp: elems_del inj_on_def)

lemma ins_member: "ok s \<Longrightarrow> x \<in> elems s \<Longrightarrow> elems (ins x s) = elems s"
  by (simp add: elems_ins)

end

lemma set_set_insert:
  "sorted_by key xs \<Longrightarrow>
   set (set_insert (by_key key) x xs) = (if key x \<in> key ` set xs then set xs else insert x (set xs))"
  by (induction xs) (auto simp: sorted_by_def by_key_def)

lemma sorted_set_insert: "sorted_by key xs \<Longrightarrow> sorted_by key (set_insert (by_key key) x xs)"
  by (induction xs) (auto simp: sorted_by_def by_key_def set_set_insert)

lemma set_set_erase:
  "sorted_by key xs \<Longrightarrow> set (set_erase (by_key key) x xs) = {y \<in> set xs. key y \<noteq> key x}"
  by (induction xs) (force simp: sorted_by_def by_key_def)+

lemma sorted_set_erase: "sorted_by key xs \<Longrightarrow> sorted_by key (set_erase (by_key key) x xs)"
  by (induction xs) (auto simp: sorted_by_def by_key_def set_set_erase)

lemma set_find_None:
  "sorted_by key xs \<Longrightarrow> set_find (by_key key) x xs = None \<longleftrightarrow> key x \<notin> key ` set xs"
  by (induction xs) (force simp: sorted_by_def by_key_def)+

lemma sorted_by_inj: "sorted_by key xs \<Longrightarrow> inj_on key (set xs)"
  by (induction xs) (auto simp: sorted_by_def by_key_def)

interpretation cxx_set: ordered_set key "sorted_by key" set "set_insert (by_key key)"
    "set_erase (by_key key)" "set_find (by_key key)" for key :: "'a \<Rightarrow> 'k :: linorder"
  by unfold_locales
     (simp_all add: sorted_set_insert sorted_set_erase set_set_insert set_set_erase
        set_find_None sorted_by_inj)

section \<open>More on sorted lists\<close>

lemma sorted_by_Nil [simp]: "sorted_by key []"
  by (simp add: sorted_by_def by_key_def)

lemma sorted_by_Cons:
  "sorted_by key (x # xs) \<longleftrightarrow> (\<forall>y \<in> set xs. key x < key y) \<and> sorted_by key xs"
  by (simp add: sorted_by_def by_key_def)

lemma sorted_by_cong:
  "(\<And>x. x \<in> set xs \<Longrightarrow> key x = key' x) \<Longrightarrow> sorted_by key xs = sorted_by key' xs"
  by (induction xs) (auto simp: sorted_by_def)

lemma sorted_by_distinct: "sorted_by key xs \<Longrightarrow> distinct xs"
  by (induction xs) (auto simp: sorted_by_Cons)

lemma set_insert_cong:
  "(\<And>y. y \<in> insert x (set xs) \<Longrightarrow> key y = key' y) \<Longrightarrow> set_insert (by_key key) x xs = set_insert (by_key key') x xs"
  by (induction xs) (auto simp: by_key_def)

lemma set_erase_cong:
  "(\<And>y. y \<in> insert x (set xs) \<Longrightarrow> key y = key' y) \<Longrightarrow> set_erase (by_key key) x xs = set_erase (by_key key') x xs"
  by (induction xs) (auto simp: by_key_def)

lemma set_insert_first:
  "\<forall>y \<in> set xs. key x < key y \<Longrightarrow> set_insert (by_key key) x xs = x # xs"
  by (cases xs) (auto simp: by_key_def)

lemma set_insert_last:
  "\<forall>y \<in> set xs. key y < key x \<Longrightarrow> set_insert (by_key key) x xs = xs @ [x]"
  by (induction xs) (auto simp: by_key_def)

text \<open>Inserting between two blocks, and erasing one element after the other.\<close>

lemma set_insert_middle:
  "\<forall>y \<in> set xs. key y < key x \<Longrightarrow> \<forall>y \<in> set ys. key x < key y \<Longrightarrow>
   set_insert (by_key key) x (xs @ ys) = xs @ x # ys"
proof (induction xs)
  case Nil
  then show ?case by (simp add: set_insert_first)
qed (auto simp: by_key_def)

definition erase_all :: "('a \<Rightarrow> 'k :: linorder) \<Rightarrow> 'a list \<Rightarrow> 'a list \<Rightarrow> 'a list" where
  "erase_all key us as = foldl (\<lambda>u a. set_erase (by_key key) a u) us as"

lemma erase_all_simps [simp]:
  "erase_all key us [] = us"
  "erase_all key us (a # as) = erase_all key (set_erase (by_key key) a us) as"
  by (simp_all add: erase_all_def)

lemma erase_all_ok:
  "sorted_by key us \<Longrightarrow>
   sorted_by key (erase_all key us as) \<and>
   set (erase_all key us as) = {y \<in> set us. key y \<notin> key ` set as}"
  by (induction as arbitrary: us) (auto simp: cxx_set.ok_del cxx_set.elems_del)

text \<open>The packets' own order, \<open>operator<\<close> of \<open>data_packet\<close>: by sequence number.\<close>

definition packet_less :: "data_packet \<Rightarrow> data_packet \<Rightarrow> bool" where
  "packet_less left right \<longleftrightarrow> seqno left < seqno right"

definition seq_num_comparator :: "data_packet \<Rightarrow> data_packet \<Rightarrow> bool" where
  "seq_num_comparator lhs rhs \<longleftrightarrow> seqno lhs < seqno rhs"

definition ptr_seq_num_comparator :: "(nat \<rightharpoonup> data_packet) \<Rightarrow> nat \<Rightarrow> nat \<Rightarrow> bool" where
  "ptr_seq_num_comparator h lhs rhs \<longleftrightarrow> seqno (the (h lhs)) < seqno (the (h rhs))"

definition time_comparator :: "(nat \<rightharpoonup> data_packet) \<Rightarrow> nat \<Rightarrow> nat \<Rightarrow> bool" where
  "time_comparator h lhs rhs \<longleftrightarrow> time_stamp (the (h lhs)) < time_stamp (the (h rhs))"

lemma comparators_by_key:
  "seq_num_comparator = by_key seqno"
  "ptr_seq_num_comparator h = by_key (\<lambda>a. seqno (the (h a)))"
  "time_comparator h = by_key (\<lambda>a. time_stamp (the (h a)))"
  by (auto simp: fun_eq_iff by_key_def seq_num_comparator_def ptr_seq_num_comparator_def
      time_comparator_def)

text \<open>Packets are preordered by it: packets with one sequence number are equivalent.\<close>

instantiation data_packet_ext :: (type) preorder
begin

definition less_data_packet_ext :: "'a data_packet_scheme \<Rightarrow> 'a data_packet_scheme \<Rightarrow> bool" where
  "less_data_packet_ext p q \<longleftrightarrow> seqno p < seqno q"

definition less_eq_data_packet_ext :: "'a data_packet_scheme \<Rightarrow> 'a data_packet_scheme \<Rightarrow> bool" where
  "less_eq_data_packet_ext p q \<longleftrightarrow> seqno p \<le> seqno q"

instance
  by standard (auto simp: less_data_packet_ext_def less_eq_data_packet_ext_def)

end

lemma packet_less_is_less: "packet_less p q \<longleftrightarrow> p < q"
  by (simp add: packet_less_def less_data_packet_ext_def)

end
