(* ===== verification/Packet_Builder.thy ===== *)
theory Packet_Builder
  imports Cxx_Set
begin

text \<open>
  The heap of packets the server's strategies share, and
  \<open>server/filereader/packet_builder\<close>, which cuts a file into packets.
\<close>

section \<open>The store of packets\<close>

text \<open>
  Packets are created with \<open>new\<close>, mutated through pointers that several containers and
  threads hold, and deleted. A pointer is a number; a deleted packet is a hole in the store,
  and addresses are not reused, so every access after a deletion is visible as a fault.
\<close>

type_synonym ptr = nat

record store =
  cells :: "ptr \<rightharpoonup> data_packet"
  next_addr :: ptr

definition empty_store :: store where
  "empty_store = \<lparr>cells = Map.empty, next_addr = 0\<rparr>"

definition alloc :: "data_packet \<Rightarrow> store \<Rightarrow> ptr \<times> store" where
  "alloc p st =
     (next_addr st, st\<lparr>cells := (cells st)(next_addr st \<mapsto> p), next_addr := Suc (next_addr st)\<rparr>)"

definition deref :: "ptr \<Rightarrow> store \<Rightarrow> data_packet res" where
  "deref a st = (case cells st a of None \<Rightarrow> Inl Use_After_Free | Some p \<Rightarrow> Inr p)"

definition update :: "ptr \<Rightarrow> (data_packet \<Rightarrow> data_packet) \<Rightarrow> store \<Rightarrow> store res" where
  "update a f st = rbind (deref a st) (\<lambda>p. Inr (st\<lparr>cells := (cells st)(a \<mapsto> f p)\<rparr>))"

definition free :: "ptr \<Rightarrow> store \<Rightarrow> store res" where
  "free a st = rbind (deref a st) (\<lambda>p. Inr (st\<lparr>cells := (cells st)(a := None)\<rparr>))"

definition store_ok :: "store \<Rightarrow> bool" where
  "store_ok st \<longleftrightarrow> (\<forall>a \<in> dom (cells st). a < next_addr st)"

section \<open>The builder\<close>

text \<open>
  \<open>unread\<close> is the rest of the file from the position of the stream \<open>fp\<close>. The bytes of
  \<open>buffer\<close> are local to one call: every call that reads them has filled them first.
\<close>

record packet_builder =
  unread :: "byte list"
  fp_open :: bool
  buffer_live :: bool
  queue_size :: int
  data_not_read :: int
  packets_read_queue :: "ptr list"

type_synonym path = "byte list"

definition has_next :: "packet_builder \<Rightarrow> bool" where
  "has_next b \<longleftrightarrow> data_not_read b > 0 \<or> packets_read_queue b \<noteq> []"

text \<open>
  The working directory is a parameter. \<open>getcwd\<close> fails when it does not fit 200
  characters with its null, and then the array it should fill is indeterminate.
\<close>

definition get_absolute_path :: "path \<Rightarrow> path \<Rightarrow> path res" where
  "get_absolute_path cwd relative_path =
     (if length cwd \<ge> 200 then Inl Uninitialised else Inr (cwd @ [47] @ relative_path))"

definition c_str :: "byte list \<Rightarrow> byte list" where
  "c_str s = takeWhile (\<lambda>c. c \<noteq> 0) s"

text \<open>
  The constructor. The file system is a parameter: the contents of the regular files that
  can be read.
\<close>

definition new_packet_builder ::
    "path \<Rightarrow> (path \<rightharpoonup> byte list) \<Rightarrow> path \<Rightarrow> int \<Rightarrow> packet_builder res" where
  "new_packet_builder cwd fs relative_path n =
     rbind (get_absolute_path cwd relative_path) (\<lambda>absolute_path.
       case fs (c_str absolute_path) of
         None \<Rightarrow> Inl Exit_Failure
       | Some contents \<Rightarrow>
           if 500 * n < 0 then Inl Bad_Array_Length
           else Inr \<lparr>unread = contents, fp_open = True, buffer_live = True, queue_size = n,
                     data_not_read = int (length contents), packets_read_queue = []\<rparr>)"

text \<open>The loop that cuts the bytes read into packets of at most \<open>MAX_DATA_SIZE\<close> bytes.\<close>

function fill_queue ::
    "byte list \<Rightarrow> nat \<Rightarrow> nat \<Rightarrow> 32 word \<Rightarrow> store \<Rightarrow> ptr list \<Rightarrow> (32 word \<times> store \<times> ptr list) res" where
  "fill_queue buffer read_length packet_start_index next_seq_num st queue =
     (if read_length = 0 then Inr (next_seq_num, st, queue)
      else
        let n = min read_length MAX_DATA_SIZE
        in if packet_start_index + n > length buffer then Inl Bad_Index
           else
             let packet_data = take n (drop packet_start_index buffer)
             in rbind (new_data_packet packet_data next_seq_num) (\<lambda>p.
                  let (a, st') = alloc p st
                  in fill_queue buffer (read_length - n) (packet_start_index + n)
                       (next_seq_num + 1) st' (queue @ [a])))"
  by pat_completeness auto
termination
  by (relation "measure (\<lambda>(buffer, read_length, _). read_length)")
     (auto simp: MAX_DATA_SIZE_def)

declare fill_queue.simps [simp del]

definition read_packets ::
    "32 word \<Rightarrow> store \<Rightarrow> packet_builder \<Rightarrow> (32 word \<times> store \<times> packet_builder) res" where
  "read_packets next_seq_num st b =
     (if data_not_read b > 0 \<and> packets_read_queue b = [] then
        if \<not> fp_open b \<or> \<not> buffer_live b then Inl Use_After_Free
        else
          let buffer = take (to_size_t (int MAX_DATA_SIZE * queue_size b)) (unread b);
              read_length = length buffer;
              b = b\<lparr>unread := drop read_length (unread b),
                    data_not_read := data_not_read b - int read_length\<rparr>
          in if read_length = 2 ^ 64 - 1 then Inl Exit_Failure
             else rbind (fill_queue buffer read_length 0 next_seq_num st (packets_read_queue b))
                    (\<lambda>(n, st, q). Inr (n, st, b\<lparr>packets_read_queue := q\<rparr>))
      else Inr (next_seq_num, st, b))"

definition get_next_packet ::
    "32 word \<Rightarrow> store \<Rightarrow> packet_builder \<Rightarrow> (ptr \<times> 32 word \<times> store \<times> packet_builder) res" where
  "get_next_packet next_seq_num st b =
     rbind (read_packets next_seq_num st b) (\<lambda>(n, st, b).
       case packets_read_queue b of
         [] \<Rightarrow> Inl Empty_Container
       | a # q \<Rightarrow>
           let b = b\<lparr>packets_read_queue := q\<rparr>;
               b = (if \<not> has_next b then b\<lparr>fp_open := False, buffer_live := False\<rparr> else b)
           in Inr (a, n, st, b))"

section \<open>Chunks of a file\<close>

fun chunks :: "byte list \<Rightarrow> byte list list" where
  "chunks bs = (if bs = [] then [] else take 500 bs # chunks (drop 500 bs))"

declare chunks.simps [simp del]

lemma chunks_Nil [simp]: "chunks [] = []"
  by (simp add: chunks.simps)

lemma chunks_eq_Nil [simp]: "chunks bs = [] \<longleftrightarrow> bs = []"
  by (subst chunks.simps) simp

lemma chunks_step: "bs \<noteq> [] \<Longrightarrow> chunks bs = take 500 bs # chunks (drop 500 bs)"
  by (subst chunks.simps) simp

lemma concat_chunks: "concat (chunks bs) = bs"
proof (induction bs rule: chunks.induct)
  case (1 bs)
  then show ?case by (cases "bs = []") (simp_all add: chunks_step)
qed

lemma chunks_bounds: "d \<in> set (chunks bs) \<Longrightarrow> d \<noteq> [] \<and> length d \<le> 500"
proof (induction bs rule: chunks.induct)
  case (1 bs)
  then show ?case by (cases "bs = []") (auto simp: chunks_step)
qed

lemma chunks_take_drop: "500 dvd n \<Longrightarrow> chunks bs = chunks (take n bs) @ chunks (drop n bs)"
proof (induction bs arbitrary: n rule: chunks.induct)
  case (1 bs)
  show ?case
  proof (cases "bs = [] \<or> n = 0")
    case True
    then show ?thesis by auto
  next
    case False
    then have n: "500 \<le> n" "500 dvd n - 500" using "1.prems" by (auto dest: dvd_imp_le)
    from False have "chunks bs = take 500 bs # chunks (drop 500 bs)" by (simp add: chunks_step)
    also have "chunks (drop 500 bs)
        = chunks (take (n - 500) (drop 500 bs)) @ chunks (drop (n - 500) (drop 500 bs))"
      using False n by (intro "1.IH") auto
    also have "take 500 bs # \<dots> = chunks (take n bs) @ chunks (drop n bs)"
      using False n by (subst (3) chunks_step) (auto simp: min_def drop_take)
    finally show ?thesis .
  qed
qed

lemma ceil_div_500: "0 < n \<Longrightarrow> Suc ((n - 500 + 499) div 500) = (n + 499) div (500 :: nat)"
proof (cases "n \<le> 500")
  case True
  moreover assume "0 < n"
  ultimately have "(n + 499) div 500 = 1" by (intro div_nat_eqI) auto
  with True show ?thesis by simp
next
  case False
  then obtain m where "n = m + 500" by (metis add.commute le_Suc_ex nat_le_linear)
  moreover have "(m + 500 + 499) div 500 = Suc ((m + 499) div 500)"
    using div_add_self2 [of 500 "m + 499"] by (simp add: add.commute add.left_commute)
  ultimately show ?thesis by simp
qed

lemma length_chunks: "length (chunks bs) = (length bs + 499) div 500"
proof (induction bs rule: chunks.induct)
  case (1 bs)
  show ?case
  proof (cases "bs = []")
    case True
    then show ?thesis by simp
  next
    case False
    have "length (chunks bs) = Suc ((length bs - 500 + 499) div 500)"
      by (simp only: chunks_step [OF False] length_Cons length_drop "1.IH" [OF False])
    also have "\<dots> = (length bs + 499) div 500"
      by (rule ceil_div_500) (use False in simp)
    finally show ?thesis .
  qed
qed

section \<open>Runs of packets in the store\<close>

text \<open>
  \<open>run st i as ds\<close>: the pointers \<open>as\<close> are live and hold the packets with the
  consecutive sequence numbers from \<open>i\<close> and the payloads \<open>ds\<close>, whatever their flags and
  time stamps are.
\<close>

definition holds :: "store \<Rightarrow> ptr \<Rightarrow> nat \<Rightarrow> byte list \<Rightarrow> bool" where
  "holds st a i d \<longleftrightarrow>
     (\<exists>f t. cells st a = Some ((mk_packet d (of_nat i))\<lparr>acked := f, time_stamp := t\<rparr>))"

fun run :: "store \<Rightarrow> nat \<Rightarrow> ptr list \<Rightarrow> byte list list \<Rightarrow> bool" where
  "run st i [] [] = True"
| "run st i (a # as) (d # ds) = (holds st a i d \<and> run st (Suc i) as ds)"
| "run st i _ _ = False"

lemma run_length: "run st i as ds \<Longrightarrow> length as = length ds"
  by (induction st i as ds rule: run.induct) auto

lemma run_Cons: "run st i (a # as) ds \<longleftrightarrow> (\<exists>d ds'. ds = d # ds' \<and> holds st a i d \<and> run st (Suc i) as ds')"
  by (cases ds) auto

lemma run_Nil [simp]: "run st i [] ds \<longleftrightarrow> ds = []"
  by (cases ds) auto

lemma run_append:
  "run st i (as @ bs) ds \<longleftrightarrow>
     (\<exists>ds1 ds2. ds = ds1 @ ds2 \<and> run st i as ds1 \<and> run st (i + length as) bs ds2)"
proof (induction as arbitrary: i ds)
  case (Cons a as)
  show ?case
  proof (cases ds)
    case (Cons d ds')
    then show ?thesis using Cons.IH [of "Suc i" ds'] by (auto simp: run_Cons Cons_eq_append_conv)
  qed auto
qed simp

lemma run_appendI:
  "run st i as ds1 \<Longrightarrow> run st (i + length as) bs ds2 \<Longrightarrow> run st i (as @ bs) (ds1 @ ds2)"
  by (auto simp: run_append)

lemma run_cong:
  "run st i as ds \<Longrightarrow> (\<And>a. a \<in> set as \<Longrightarrow> cells st' a = cells st a) \<Longrightarrow> run st' i as ds"
  by (induction st i as ds rule: run.induct) (auto simp: holds_def)

lemma run_live: "run st i as ds \<Longrightarrow> a \<in> set as \<Longrightarrow> cells st a \<noteq> None"
  by (induction st i as ds rule: run.induct) (auto simp: holds_def)

lemma run_nth:
  "run st i as ds \<Longrightarrow> j < length as \<Longrightarrow> holds st (as ! j) (i + j) (ds ! j)"
proof (induction st i as ds arbitrary: j rule: run.induct)
  case (2 st i a as d ds)
  then show ?case by (cases j) auto
qed auto

text \<open>A mutation of flags and time stamps, which is all the strategies do, keeps a run.\<close>

definition flag_update :: "(data_packet \<Rightarrow> data_packet) \<Rightarrow> bool" where
  "flag_update f \<longleftrightarrow> (\<forall>p. \<exists>b t. f p = p\<lparr>acked := b, time_stamp := t\<rparr>)"

lemma flag_update_set_ack [simp]: "flag_update (set_ack b)"
  unfolding flag_update_def set_ack_def
  by (metis data_packet.surjective data_packet.update_convs(4) data_packet.update_convs(5))

lemma flag_update_set_time_stamp [simp]: "flag_update (set_time_stamp t)"
  unfolding flag_update_def set_time_stamp_def
  by (metis data_packet.surjective data_packet.update_convs(4) data_packet.update_convs(5))

lemma holds_update:
  assumes "flag_update f" "cells st a = Some p" "holds st b i d"
  shows "holds (st\<lparr>cells := (cells st)(a \<mapsto> f p)\<rparr>) b i d"
proof (cases "a = b")
  case True
  with assms obtain g t where "p = (mk_packet d (of_nat i))\<lparr>acked := g, time_stamp := t\<rparr>"
    by (auto simp: holds_def)
  moreover obtain g' t' where "f p = p\<lparr>acked := g', time_stamp := t'\<rparr>"
    using assms(1) unfolding flag_update_def by blast
  ultimately show ?thesis using True by (auto simp: holds_def)
next
  case False
  with assms show ?thesis by (auto simp: holds_def)
qed

lemma run_update:
  "flag_update f \<Longrightarrow> cells st a = Some p \<Longrightarrow> run st i as ds \<Longrightarrow>
   run (st\<lparr>cells := (cells st)(a \<mapsto> f p)\<rparr>) i as ds"
  by (induction st i as ds rule: run.induct) (auto intro: holds_update)


section \<open>Correctness of the builder\<close>

text \<open>Allocation leaves the packets that were there as they are.\<close>

definition grows :: "store \<Rightarrow> store \<Rightarrow> bool" where
  "grows st st' \<longleftrightarrow> next_addr st \<le> next_addr st' \<and> (\<forall>a < next_addr st. cells st' a = cells st a)"

lemma grows_refl [simp]: "grows st st"
  by (simp add: grows_def)

lemma grows_trans: "grows st st' \<Longrightarrow> grows st' st'' \<Longrightarrow> grows st st''"
  by (auto simp: grows_def)

lemma store_ok_less: "store_ok st \<Longrightarrow> cells st a \<noteq> None \<Longrightarrow> a < next_addr st"
  by (auto simp: store_ok_def)

lemma run_less: "store_ok st \<Longrightarrow> run st i as ds \<Longrightarrow> a \<in> set as \<Longrightarrow> a < next_addr st"
  by (rule store_ok_less) (auto dest: run_live)

lemma run_grows: "store_ok st \<Longrightarrow> grows st st' \<Longrightarrow> run st i as ds \<Longrightarrow> run st' i as ds"
  by (rule run_cong, assumption) (auto simp: grows_def dest: run_less)

lemma alloc_ok:
  assumes "store_ok st" "alloc p st = (a, st')"
  shows "store_ok st'" "grows st st'" "a = next_addr st" "cells st' a = Some p"
    "next_addr st' = Suc a"
  using assms by (auto simp: alloc_def store_ok_def grows_def less_Suc_eq split: if_splits)

definition unacked_in :: "store \<Rightarrow> ptr list \<Rightarrow> bool" where
  "unacked_in st as \<longleftrightarrow> (\<forall>a \<in> set as. \<forall>p. cells st a = Some p \<longrightarrow> \<not> acked p)"

lemma holds_mk_packet: "cells st a = Some (mk_packet d (of_nat i)) \<Longrightarrow> holds st a i d"
  by (auto simp: holds_def intro!: exI [of _ False] exI [of _ 0] data_packet_eqI)

lemma fill_queue_ok:
  "start + n \<le> length buffer \<Longrightarrow> store_ok st \<Longrightarrow> run st i q ds \<Longrightarrow> unacked_in st q \<Longrightarrow>
   distinct q \<Longrightarrow> seq = of_nat (i + length q) \<Longrightarrow>
   \<exists>st' q'. fill_queue buffer n start seq st q = Inr (of_nat (i + length q'), st', q') \<and>
     run st' i q' (ds @ chunks (take n (drop start buffer))) \<and> store_ok st' \<and> grows st st' \<and>
     unacked_in st' q' \<and> distinct q' \<and> set q' \<subseteq> set q \<union> {next_addr st..}"
proof (induction buffer n start seq st q arbitrary: ds rule: fill_queue.induct)
  case (1 buffer n start seq st q)
  show ?case
  proof (cases "n = 0")
    case True
    with "1.prems" show ?thesis by (subst fill_queue.simps) auto
  next
    case False
    let ?n = "min n MAX_DATA_SIZE"
    let ?d = "take ?n (drop start buffer)"
    obtain a st1 where al: "alloc (mk_packet ?d seq) st = (a, st1)" by (cases "alloc (mk_packet ?d seq) st")
    note a = alloc_ok [OF "1.prems"(2) al]
    have old: "cells st1 b = cells st b" if "b \<in> set q" for b
      using that a(2) run_less [OF "1.prems"(2,3)] by (auto simp: grows_def)
    have "holds st1 a (i + length q) ?d"
      using a(4) "1.prems"(6) by (auto intro: holds_mk_packet)
    then have r1: "run st1 i (q @ [a]) (ds @ [?d])"
      using run_cong [OF "1.prems"(3) old] run_length [OF "1.prems"(3)]
      by (auto intro!: run_appendI)
    have u1: "unacked_in st1 (q @ [a])" and d1: "distinct (q @ [a])"
      using "1.prems"(4,5) old a run_less [OF "1.prems"(2,3)] by (auto simp: unacked_in_def)
    have len: "start + ?n \<le> length buffer" using "1.prems"(1) by auto
    have unf: "fill_queue buffer n start seq st q
        = fill_queue buffer (n - ?n) (start + ?n) (seq + 1) st1 (q @ [a])"
      using False len al by (subst fill_queue.simps) (simp add: Let_def)
    have "\<exists>st' q'. fill_queue buffer (n - ?n) (start + ?n) (seq + 1) st1 (q @ [a])
          = Inr (of_nat (i + length q'), st', q') \<and>
        run st' i q' ((ds @ [?d]) @ chunks (take (n - ?n) (drop (start + ?n) buffer))) \<and>
        store_ok st' \<and> grows st1 st' \<and> unacked_in st' q' \<and> distinct q' \<and>
        set q' \<subseteq> set (q @ [a]) \<union> {next_addr st1..}"
      by (rule "1.IH" [OF False refl _ refl new_data_packet_eq refl al [symmetric]]) (use False len r1 u1 d1 a "1.prems" in auto)
    then obtain st' q' where
      f: "fill_queue buffer n start seq st q = Inr (of_nat (i + length q'), st', q')" and
      r: "run st' i q' ((ds @ [?d]) @ chunks (take (n - ?n) (drop (start + ?n) buffer)))" and
      rest: "store_ok st'" "grows st1 st'" "unacked_in st' q'" "distinct q'"
        "set q' \<subseteq> set (q @ [a]) \<union> {next_addr st1..}"
      unfolding unf by blast
    have "take n (drop start buffer) \<noteq> []" using False "1.prems"(1) by auto
    then have "chunks (take n (drop start buffer))
        = ?d # chunks (take (n - ?n) (drop (start + ?n) buffer))"
      by (subst chunks_step) (auto simp: MAX_DATA_SIZE_def min_def drop_take add.commute)
    with r have "run st' i q' (ds @ chunks (take n (drop start buffer)))" by simp
    with f rest a show ?thesis using grows_trans [OF a(2) rest(2)] by auto
  qed
qed


text \<open>
  The invariant of the builder: what is left of the file (\<open>ds\<close>, as payloads, the next
  packet being number \<open>i\<close>) is in its queue, then unread.
\<close>

definition builder_ok :: "store \<Rightarrow> nat \<Rightarrow> packet_builder \<Rightarrow> byte list list \<Rightarrow> bool" where
  "builder_ok st i b ds \<longleftrightarrow>
     data_not_read b = int (length (unread b)) \<and>
     0 < queue_size b \<and> 500 * queue_size b < 2 ^ 31 \<and>
     (has_next b \<longrightarrow> fp_open b \<and> buffer_live b) \<and>
     distinct (packets_read_queue b) \<and> unacked_in st (packets_read_queue b) \<and>
     (\<exists>dq. run st i (packets_read_queue b) dq \<and> ds = dq @ chunks (unread b))"

abbreviation seq_after :: "nat \<Rightarrow> packet_builder \<Rightarrow> 32 word" where
  "seq_after i b \<equiv> of_nat (i + length (packets_read_queue b))"

lemma builder_has_next: "builder_ok st i b ds \<Longrightarrow> has_next b \<longleftrightarrow> ds \<noteq> []"
  by (cases "packets_read_queue b") (auto simp: builder_ok_def has_next_def run_Cons)

lemma buffer_size:
  "0 < n \<Longrightarrow> 500 * n < 2 ^ 31 \<Longrightarrow> to_size_t (int MAX_DATA_SIZE * n) = 500 * nat n"
  by (simp add: MAX_DATA_SIZE_def nat_mult_distrib)

lemma read_packets_ok:
  assumes b: "builder_ok st i b ds" and st: "store_ok st" and ne: "ds \<noteq> []"
  shows "\<exists>st' b'. read_packets (seq_after i b) st b = Inr (seq_after i b', st', b') \<and>
     builder_ok st' i b' ds \<and> store_ok st' \<and> grows st st' \<and> packets_read_queue b' \<noteq> [] \<and>
     set (packets_read_queue b') \<subseteq> set (packets_read_queue b) \<union> {next_addr st..}"
proof (cases "packets_read_queue b = []")
  case False
  then show ?thesis using b st by (auto simp: read_packets_def)
next
  case True
  then have ds: "ds = chunks (unread b)" and un: "unread b \<noteq> []" and live: "fp_open b" "buffer_live b"
    and dnr: "data_not_read b = int (length (unread b))" and
    qs: "0 < queue_size b" "500 * queue_size b < 2 ^ 31"
    using b ne by (auto simp: builder_ok_def has_next_def)
  let ?buf = "take (500 * nat (queue_size b)) (unread b)"
  have nz: "length ?buf \<noteq> 2 ^ 64 - 1" and "?buf \<noteq> []" using qs un by (auto simp: min_def)
  have "\<exists>st' q'. fill_queue ?buf (length ?buf) 0 (of_nat i) st [] = Inr (of_nat (i + length q'), st', q') \<and>
     run st' i q' (chunks ?buf) \<and> store_ok st' \<and> grows st st' \<and>
     unacked_in st' q' \<and> distinct q' \<and> set q' \<subseteq> {next_addr st..}"
    using fill_queue_ok [of 0 "length ?buf" ?buf st i "[]" "[]" "of_nat i"] st
    by (simp add: unacked_in_def del: take_take length_take of_nat_add)
  then obtain st' q' where
    f: "fill_queue ?buf (length ?buf) 0 (of_nat i) st [] = Inr (of_nat (i + length q'), st', q')" and
    r: "run st' i q' (chunks ?buf)" and
    q: "store_ok st'" "grows st st'" "unacked_in st' q'" "distinct q'" "set q' \<subseteq> {next_addr st..}"
    by blast
  let ?b = "b\<lparr>unread := drop (length ?buf) (unread b),
      data_not_read := data_not_read b - int (length ?buf), packets_read_queue := q'\<rparr>"
  have "chunks (unread b) = chunks ?buf @ chunks (drop (length ?buf) (unread b))"
  proof (cases "500 * nat (queue_size b) \<le> length (unread b)")
    case True
    then show ?thesis using chunks_take_drop [of "500 * nat (queue_size b)" "unread b"]
      by (simp add: min_absorb2)
  qed simp
  with r q qs live dnr ds have "builder_ok st' i ?b ds"
    by (auto simp: builder_ok_def)
  moreover have "q' \<noteq> []" using r \<open>?buf \<noteq> []\<close> by auto
  moreover have "read_packets (seq_after i b) st b = Inr (seq_after i ?b, st', ?b)"
    using True live dnr un f nz by (simp add: read_packets_def buffer_size [OF qs] Let_def)
  ultimately show ?thesis using q True by (intro exI [of _ st'] exI [of _ ?b]) simp
qed

theorem get_next_packet_ok:
  assumes b: "builder_ok st i b (d # ds)" and st: "store_ok st"
  shows "\<exists>a st' b'. get_next_packet (seq_after i b) st b = Inr (a, seq_after (Suc i) b', st', b') \<and>
     builder_ok st' (Suc i) b' ds \<and> store_ok st' \<and> grows st st' \<and> holds st' a i d \<and>
     unacked_in st' [a] \<and> a \<notin> set (packets_read_queue b') \<and>
     set (a # packets_read_queue b') \<subseteq> set (packets_read_queue b) \<union> {next_addr st..}"
proof -
  obtain st' b1 where rp: "read_packets (seq_after i b) st b = Inr (seq_after i b1, st', b1)" and
    b1: "builder_ok st' i b1 (d # ds)" and st': "store_ok st'" "grows st st'" and
    ne: "packets_read_queue b1 \<noteq> []" and
    sub: "set (packets_read_queue b1) \<subseteq> set (packets_read_queue b) \<union> {next_addr st..}"
    using read_packets_ok [OF b st] by blast
  then obtain a q where aq: "packets_read_queue b1 = a # q" by (cases "packets_read_queue b1") auto
  let ?b = "b1\<lparr>packets_read_queue := q\<rparr>"
  let ?b' = "if \<not> has_next ?b then ?b\<lparr>fp_open := False, buffer_live := False\<rparr> else ?b"
  have "builder_ok st' (Suc i) ?b' ds" and "holds st' a i d" and "unacked_in st' [a]" and "a \<notin> set q"
    using b1 aq by (auto simp: builder_ok_def unacked_in_def run_Cons has_next_def)
  moreover have "packets_read_queue ?b' = q" by simp
  moreover have "get_next_packet (seq_after i b) st b = Inr (a, of_nat (Suc i + length q), st', ?b')"
    using rp aq by (simp add: get_next_packet_def Let_def)
  ultimately show ?thesis using st' sub aq by (intro exI [of _ a] exI [of _ st'] exI [of _ ?b']) auto
qed


text \<open>The constructor, on a file that is there.\<close>

lemma new_packet_builder_ok:
  assumes "length cwd < 200" "fs (c_str (cwd @ [47] @ name)) = Some contents"
    and "0 < n" "500 * n < 2 ^ 31"
  shows "\<exists>b. new_packet_builder cwd fs name n = Inr b \<and> packets_read_queue b = [] \<and>
    builder_ok empty_store i b (chunks contents)"
  using assms
  by (auto simp: new_packet_builder_def get_absolute_path_def builder_ok_def unacked_in_def)

lemma store_ok_empty [simp]: "store_ok empty_store"
  by (simp add: store_ok_def empty_store_def)

end
