(* ===== verification/Packet_Sender.thy ===== *)
theory Packet_Sender
  imports Complex_Main Packet_Builder
begin

text \<open>
  \<open>server/packet_sender\<close>: the simulated lossy link of the server. Its state is static (one
  for the whole process): the random generator and the loss probability, and a cyclic
  sequence of counts, each saying after how many packets a triple duplicate
  acknowledgement is simulated.
\<close>

section \<open>The random numbers\<close>

text \<open>
  \<open>std::minstd_rand0\<close> is the multiplicative congruential generator
  \<open>x \<mapsto> 16807 x mod (2 ^ 31 - 1)\<close>, and \<open>std::uniform_real_distribution<double>(0, 100)\<close>
  scales \<open>std::generate_canonical<double, 53>\<close>, which takes two of its values. The
  rounding of the floating-point operations is not modelled: a draw is a rational number.
\<close>

definition MINSTD_MODULUS :: nat where "MINSTD_MODULUS = 2147483647"

definition minstd_next :: "nat \<Rightarrow> nat" where
  "minstd_next x = (16807 * x) mod MINSTD_MODULUS"

definition minstd_seed :: "nat \<Rightarrow> nat" where
  "minstd_seed s = (if s mod MINSTD_MODULUS = 0 then 1 else s mod MINSTD_MODULUS)"

definition draw :: "nat \<Rightarrow> rat \<times> nat" where
  "draw x =
     (let g0 = minstd_next x; g1 = minstd_next g0; r = 2147483646
      in (100 * (of_nat (g0 - 1) + of_nat (g1 - 1) * r) / (r * r), g1))"

section \<open>The sender\<close>

record packet_sender =
  loss_probability :: rat
  generator :: nat
  packet_number :: "64 word"
  loss_sequence_index :: nat
  loss_sequence :: "int list"

definition initial_sender :: packet_sender where
  "initial_sender = \<lparr>loss_probability = 0, generator = 1, packet_number = 1,
     loss_sequence_index = 0, loss_sequence = []\<rparr>"

definition set_seed :: "nat \<Rightarrow> packet_sender \<Rightarrow> packet_sender" where
  "set_seed seed s = s\<lparr>generator := minstd_seed seed\<rparr>"

definition set_loss_sequence :: "int list \<Rightarrow> packet_sender \<Rightarrow> packet_sender" where
  "set_loss_sequence sequence s = s\<lparr>loss_sequence := sequence\<rparr>"

definition set_probability :: "rat \<Rightarrow> packet_sender \<Rightarrow> packet_sender" where
  "set_probability p s = s\<lparr>loss_probability := p * 100\<rparr>"

text \<open>
  \<open>send_packet\<close>: the result is whether a triple duplicate acknowledgement is simulated,
  and the datagram given to \<open>sendto\<close>, if one is. The \<open>int\<close> of the loss sequence is
  converted to 64 bits for the remainder; the post-increment happens in both branches.
\<close>

definition send_packet ::
    "data_packet \<Rightarrow> packet_sender \<Rightarrow> (bool \<times> byte list option \<times> packet_sender) res" where
  "send_packet packet s =
     (if loss_sequence_index s \<ge> length (loss_sequence s) then Inl Bad_Index
      else
        let m = (word_of_int (loss_sequence s ! loss_sequence_index s) :: 64 word);
            n = packet_number s;
            s = s\<lparr>packet_number := n + 1\<rparr>
        in if m = 0 then Inl Division_By_Zero
           else if n mod m \<noteq> 0 then
             let (x, g) = draw (generator s);
                 s = s\<lparr>generator := g\<rparr>
             in if x > loss_probability s
                then rbind (pack packet) (\<lambda>d. Inr (False, Some d, s))
                else Inr (False, None, s)
           else
             rbind (pack packet) (\<lambda>d.
               let s = s\<lparr>packet_number := 1, loss_sequence_index := loss_sequence_index s + 1\<rparr>;
                   s = s\<lparr>loss_sequence_index := loss_sequence_index s mod length (loss_sequence s)\<rparr>
               in Inr (True, Some d, s)))"

section \<open>Bounds of the generator\<close>

definition generator_ok :: "nat \<Rightarrow> bool" where
  "generator_ok x \<longleftrightarrow> 1 \<le> x \<and> x < MINSTD_MODULUS"

lemma minstd_seed_ok: "generator_ok (minstd_seed s)"
  by (auto simp: generator_ok_def minstd_seed_def MINSTD_MODULUS_def)

text \<open>
  The multiplier is invertible modulo \<open>2 ^ 31 - 1\<close> (its inverse is 1407677000), so the
  generator never reaches 0.
\<close>

lemma minstd_inverse: "(1407677000 * minstd_next x) mod MINSTD_MODULUS = x mod MINSTD_MODULUS"
proof -
  have "(1407677000 * minstd_next x) mod MINSTD_MODULUS = (1407677000 * (16807 * x)) mod MINSTD_MODULUS"
    by (simp add: minstd_next_def mod_mult_right_eq)
  also have "\<dots> = ((1407677000 * 16807) mod MINSTD_MODULUS * x) mod MINSTD_MODULUS"
    by (simp add: mod_mult_left_eq mult.assoc)
  also have "(1407677000 * 16807) mod MINSTD_MODULUS = 1"
    by (simp add: MINSTD_MODULUS_def)
  finally show ?thesis by simp
qed

lemma minstd_next_ok:
  assumes "generator_ok x"
  shows "generator_ok (minstd_next x)"
proof -
  have "minstd_next x \<noteq> 0"
  proof
    assume "minstd_next x = 0"
    then have "x mod MINSTD_MODULUS = 0" using minstd_inverse [of x] by simp
    with assms show False by (simp add: generator_ok_def)
  qed
  moreover have "minstd_next x < MINSTD_MODULUS"
    by (simp add: minstd_next_def MINSTD_MODULUS_def)
  ultimately show ?thesis by (simp add: generator_ok_def)
qed

text \<open>Two consecutive values cannot both be the least one, so a draw is never zero.\<close>

lemma draw_bounds:
  assumes "generator_ok x" "draw x = (v, g)"
  shows "0 < v" "v < 100" "generator_ok g"
proof -
  define g0 where "g0 = minstd_next x"
  define g1 where "g1 = minstd_next g0"
  have ok0: "generator_ok g0" and ok1: "generator_ok g1"
    using assms(1) by (simp_all add: g0_def g1_def minstd_next_ok)
  define a b :: rat where "a = of_nat (g0 - 1)" and "b = of_nat (g1 - 1)"
  define r :: rat where "r = 2147483646"
  have "draw x = (100 * (a + b * r) / (r * r), g1)"
    by (simp only: draw_def Let_def g0_def g1_def a_def b_def r_def)
  then have v: "v = 100 * (a + b * r) / (r * r)" and g: "g = g1"
    using assms(2) by (simp_all only: prod.inject)
  have r0: "0 < r" by (simp add: r_def)
  have "g0 - 1 \<le> 2147483645" "g1 - 1 \<le> 2147483645"
    using ok0 ok1 by (auto simp: generator_ok_def MINSTD_MODULUS_def)
  then have "of_nat (g0 - 1) \<le> (of_nat 2147483645 :: rat)" "of_nat (g1 - 1) \<le> (of_nat 2147483645 :: rat)"
    by (simp_all only: of_nat_le_iff)
  then have ab: "0 \<le> a" "a \<le> r - 1" "0 \<le> b" "b \<le> r - 1"
    by (auto simp: a_def b_def r_def)
  have "a + b * r \<le> (r - 1) + (r - 1) * r"
    using ab r0 by (intro add_mono mult_right_mono) auto
  then have "a + b * r < r * r" by (simp add: algebra_simps)
  with r0 show "v < 100" by (simp add: v field_simps)
  have "g0 \<noteq> 1 \<or> g1 \<noteq> 1"
    by (auto simp: g1_def minstd_next_def MINSTD_MODULUS_def)
  then have "0 < a \<or> 0 < b"
    using ok0 ok1 by (auto simp: a_def b_def generator_ok_def)
  then have "0 < a + b * r" using ab r0
    by (auto intro: add_pos_nonneg add_nonneg_pos)
  with r0 show "0 < v" by (simp add: v)
  show "generator_ok g" using g ok1 by simp
qed


section \<open>Sending never fails with a usable configuration\<close>

definition sender_ok :: "packet_sender \<Rightarrow> bool" where
  "sender_ok s \<longleftrightarrow>
     loss_sequence_index s < length (loss_sequence s) \<and>
     (\<forall>k \<in> set (loss_sequence s). (word_of_int k :: 64 word) \<noteq> 0) \<and>
     generator_ok (generator s)"

lemma send_packet_ok:
  assumes s: "sender_ok s" and p: "pack p = Inr d"
  shows "\<exists>dup out s'. send_packet p s = Inr (dup, out, s') \<and> sender_ok s' \<and>
     (out = None \<or> out = Some d) \<and> (dup \<longrightarrow> out = Some d)"
proof -
  obtain x g where dr: "draw (generator s) = (x, g)" by (cases "draw (generator s)")
  have g: "generator_ok g" using s dr by (auto simp: sender_ok_def dest: draw_bounds(3))
  have pos: "0 < length (loss_sequence s)" using s by (auto simp: sender_ok_def)
  have nz: "(word_of_int (loss_sequence s ! loss_sequence_index s) :: 64 word) \<noteq> 0"
    using s by (auto simp: sender_ok_def)
  show ?thesis
    using s p dr g nz pos mod_less_divisor [OF pos]
    by (auto simp: send_packet_def Let_def sender_ok_def)
qed

end
