(* ===== verification/Rdt_Strategy.thy ===== *)
theory Rdt_Strategy
  imports Packet_Sender
begin

text \<open>
  \<open>server/strategy/rdt_strategy.h\<close>: the state the three sending strategies share and the
  operations they inherit, with the step all of them take to put a packet on the link.
\<close>

section \<open>State\<close>

text \<open>
  The fields are those of the class, with the store its pointers point into (\<open>mem\<close>), the
  process-wide \<open>packet_sender\<close>, the clock (a sequence of readings and how many have been
  taken), the datagrams given to \<open>sendto\<close> so far (\<open>sent\<close>, oldest first), whether
  \<open>timer\<close> has been assigned, and what \<open>is_done\<close> last wrote to the statistics file.
  A mutex is a flag; the handlers below run as the critical sections the code makes them,
  so a mutex found locked is held by the same thread.
\<close>

record rdt_strategy =
  mem :: store
  pkt_builder :: packet_builder
  sender :: packet_sender
  window :: "ptr list"
  aux_window :: "ptr list"
  unacked_packets :: "ptr list"
  next_seq_number :: "32 word"
  window_size :: int
  max_window_size :: int
  threshold :: int
  packets_sent :: "32 word"
  window_size_history :: "int list"
  start_time_stamp :: nat
  set_mutex :: bool
  wnd_mutex :: bool
  timer :: bool
  clock :: "nat \<Rightarrow> nat"
  ticks :: nat
  sent :: "byte list list"
  stats :: "(int list \<times> 32 word \<times> nat) option"

definition now :: "rdt_strategy \<Rightarrow> nat \<times> rdt_strategy" where
  "now s = (clock s (ticks s), s\<lparr>ticks := Suc (ticks s)\<rparr>)"

definition lock_set_mutex :: "rdt_strategy \<Rightarrow> rdt_strategy res" where
  "lock_set_mutex s = (if set_mutex s then Inl Self_Deadlock else Inr (s\<lparr>set_mutex := True\<rparr>))"

definition unlock_set_mutex :: "rdt_strategy \<Rightarrow> rdt_strategy" where
  "unlock_set_mutex s = s\<lparr>set_mutex := False\<rparr>"

definition lock_wnd_mutex :: "rdt_strategy \<Rightarrow> rdt_strategy res" where
  "lock_wnd_mutex s = (if wnd_mutex s then Inl Self_Deadlock else Inr (s\<lparr>wnd_mutex := True\<rparr>))"

definition unlock_wnd_mutex :: "rdt_strategy \<Rightarrow> rdt_strategy" where
  "unlock_wnd_mutex s = s\<lparr>wnd_mutex := False\<rparr>"

section \<open>Packets and their containers\<close>

definition packet_at :: "ptr \<Rightarrow> rdt_strategy \<Rightarrow> data_packet res" where
  "packet_at a s = deref a (mem s)"

definition set_packet :: "ptr \<Rightarrow> (data_packet \<Rightarrow> data_packet) \<Rightarrow> rdt_strategy \<Rightarrow> rdt_strategy res" where
  "set_packet a f s = rbind (update a f (mem s)) (\<lambda>st. Inr (s\<lparr>mem := st\<rparr>))"

definition delete_packet :: "ptr \<Rightarrow> rdt_strategy \<Rightarrow> rdt_strategy res" where
  "delete_packet a s = rbind (free a (mem s)) (\<lambda>st. Inr (s\<lparr>mem := st\<rparr>))"

text \<open>
  The comparators dereference the pointers they compare. Which ones a search visits depends
  on the tree's shape, so an operation on a set with any dangling pointer is a fault.
\<close>

definition all_live :: "ptr list \<Rightarrow> rdt_strategy \<Rightarrow> bool" where
  "all_live as s \<longleftrightarrow> (\<forall>a \<in> set as. cells (mem s) a \<noteq> None)"

definition insert_unacked :: "ptr \<Rightarrow> rdt_strategy \<Rightarrow> rdt_strategy res" where
  "insert_unacked a s =
     (if all_live (a # unacked_packets s) s
      then Inr (s\<lparr>unacked_packets :=
                  set_insert (time_comparator (cells (mem s))) a (unacked_packets s)\<rparr>)
      else Inl Use_After_Free)"

definition erase_unacked :: "ptr \<Rightarrow> rdt_strategy \<Rightarrow> rdt_strategy res" where
  "erase_unacked a s =
     (if all_live (a # unacked_packets s) s
      then Inr (s\<lparr>unacked_packets :=
                  set_erase (time_comparator (cells (mem s))) a (unacked_packets s)\<rparr>)
      else Inl Use_After_Free)"

definition insert_aux :: "ptr \<Rightarrow> rdt_strategy \<Rightarrow> rdt_strategy res" where
  "insert_aux a s =
     (if all_live (a # aux_window s) s
      then Inr (s\<lparr>aux_window :=
                  set_insert (ptr_seq_num_comparator (cells (mem s))) a (aux_window s)\<rparr>)
      else Inl Use_After_Free)"

definition locked_erase_unacked :: "ptr \<Rightarrow> rdt_strategy \<Rightarrow> rdt_strategy res" where
  "locked_erase_unacked a s =
     rbind (lock_set_mutex s) (\<lambda>s. rbind (erase_unacked a s) (\<lambda>s. Inr (unlock_set_mutex s)))"

definition locked_insert_unacked :: "ptr \<Rightarrow> rdt_strategy \<Rightarrow> rdt_strategy res" where
  "locked_insert_unacked a s =
     rbind (lock_set_mutex s) (\<lambda>s. rbind (insert_unacked a s) (\<lambda>s. Inr (unlock_set_mutex s)))"

section \<open>Inherited operations\<close>

text \<open>\<open>window.size() < window_size\<close> compares a \<open>size_t\<close> with an \<open>int\<close>.\<close>

definition window_open :: "rdt_strategy \<Rightarrow> bool" where
  "window_open s \<longleftrightarrow> length (window s) < to_size_t (window_size s)"

definition next_packet :: "rdt_strategy \<Rightarrow> (ptr \<times> rdt_strategy) res" where
  "next_packet s =
     rbind (get_next_packet (next_seq_number s) (mem s) (pkt_builder s)) (\<lambda>(a, n, st, b).
       Inr (a, s\<lparr>next_seq_number := n, mem := st, pkt_builder := b\<rparr>))"

lemma next_packet_frame:
  assumes "next_packet s = Inr (a, s')"
  shows "window s' = window s" "window_size s' = window_size s" "aux_window s' = aux_window s"
    "unacked_packets s' = unacked_packets s" "timer s' = timer s" "wnd_mutex s' = wnd_mutex s"
    "clock s' = clock s" "sender s' = sender s" "sent s' = sent s"
    "max_window_size s' = max_window_size s"
  using assms by (auto simp: next_packet_def rbind_Inr_iff)

lemma next_packet_window:
  "next_packet s = Inr (a, s') \<Longrightarrow> window s' = window s \<and> window_size s' = window_size s"
  by (simp add: next_packet_frame)

function fill_window :: "rdt_strategy \<Rightarrow> rdt_strategy res" where
  "fill_window s =
     (if window_open s \<and> has_next (pkt_builder s)
      then rbind (next_packet s) (\<lambda>x. fill_window ((snd x)\<lparr>window := window (snd x) @ [fst x]\<rparr>))
      else Inr s)"
  by pat_completeness auto
termination
  by (relation "measure (\<lambda>s. to_size_t (window_size s) - length (window s))")
     (auto simp: window_open_def dest: next_packet_window)

declare fill_window.simps [simp del]

definition is_done :: "rdt_strategy \<Rightarrow> bool \<times> rdt_strategy" where
  "is_done s =
     (if window s = [] then
        let (end_time, s) = now s;
            time_spent = (end_time - start_time_stamp s) div 1000000
        in (True, s\<lparr>stats := Some (window_size_history s, packets_sent s, time_spent)\<rparr>)
      else (False, s))"

definition send_empty_packet :: "rdt_strategy \<Rightarrow> rdt_strategy res" where
  "send_empty_packet s =
     rbind (new_data_packet [] (next_seq_number s)) (\<lambda>packet.
     rbind (pack packet) (\<lambda>d. Inr (s\<lparr>sent := sent s @ [d]\<rparr>)))"

text \<open>
  The body common to the three overrides of \<open>send_packet\<close>: the link, the time stamp, the
  set of unacknowledged packets. The result says whether the link reported a triple
  duplicate acknowledgement.
\<close>

definition transmit :: "ptr \<Rightarrow> rdt_strategy \<Rightarrow> (bool \<times> rdt_strategy) res" where
  "transmit a s =
     rbind (packet_at a s) (\<lambda>packet.
     rbind (send_packet packet (sender s)) (\<lambda>(triple_dup_ack, out, snd).
       let s = s\<lparr>sender := snd, sent := sent s @ (case out of None \<Rightarrow> [] | Some d \<Rightarrow> [d])\<rparr>;
           (t, s) = now s
       in rbind (set_packet a (set_time_stamp t) s) (\<lambda>s.
          rbind (locked_insert_unacked a s) (\<lambda>s. Inr (triple_dup_ack, s)))))"

lemma transmit_frame:
  assumes "transmit a s = Inr (dup, s')"
  shows "window s' = window s" "window_size s' = window_size s" "aux_window s' = aux_window s"
    "pkt_builder s' = pkt_builder s" "next_seq_number s' = next_seq_number s"
    "threshold s' = threshold s" "max_window_size s' = max_window_size s" "timer s' = timer s"
    "clock s' = clock s" "ticks s' = Suc (ticks s)"
  using assms
  by (auto simp: transmit_def now_def set_packet_def locked_insert_unacked_def lock_set_mutex_def
      insert_unacked_def unlock_set_mutex_def Let_def rbind_Inr_iff split: if_splits)


text \<open>
  The object a constructor starts from: no packet yet, the counters of the class with their
  initializers, and the four numbers the constructors assign (or leave indeterminate).
\<close>

definition base_strategy ::
    "packet_builder \<Rightarrow> packet_sender \<Rightarrow> (nat \<Rightarrow> nat) \<Rightarrow> 32 word \<Rightarrow> int \<Rightarrow> int \<Rightarrow> int \<Rightarrow> rdt_strategy" where
  "base_strategy b link clk n ws mx thr =
     \<lparr>mem = empty_store, pkt_builder = b, sender = link, window = [], aux_window = [],
      unacked_packets = [], next_seq_number = n, window_size = ws, max_window_size = mx,
      threshold = thr, packets_sent = 0, window_size_history = [], start_time_stamp = 0,
      set_mutex = False, wnd_mutex = False, timer = False, clock = clk, ticks = 0, sent = [],
      stats = None\<rparr>"

text \<open>The search for the packet an acknowledgement names, with its position.\<close>

fun find_seqno :: "32 word \<Rightarrow> nat \<Rightarrow> ptr list \<Rightarrow> rdt_strategy \<Rightarrow> (nat \<times> ptr) option res" where
  "find_seqno n i [] s = Inr None"
| "find_seqno n i (a # as) s =
     rbind (packet_at a s) (\<lambda>p.
       if n = seqno p then Inr (Some (i, a)) else find_seqno n (Suc i) as s)"

text \<open>
  The places at which the timer thread of \<open>handle_time_out\<close> can be while other threads run:
  between its reads, its waits and its critical sections.
\<close>

datatype timer_pc =
    T_Loop            \<comment> \<open>at the head of the endless loop\<close>
  | T_Begin           \<comment> \<open>the set was seen non-empty; about to lock it and take its first element\<close>
  | T_Compare ptr     \<comment> \<open>holds the first packet; about to look at its time stamp\<close>
  | T_Erase ptr       \<comment> \<open>the packet has timed out; about to take it off the set\<close>
  | T_Print           \<comment> \<open>about to list the window\<close>
  | T_Resend          \<comment> \<open>about to send again\<close>

text \<open>The first steps of a round of the timer are the same for selective repeat and stop-and-wait.\<close>

definition timer_first :: "rdt_strategy \<Rightarrow> (ptr \<times> rdt_strategy) res" where
  "timer_first s =
     rbind (lock_set_mutex s) (\<lambda>s.
       case unacked_packets s of
         [] \<Rightarrow> Inl Empty_Container
       | a # as \<Rightarrow> Inr (a, unlock_set_mutex s))"

text \<open>
  The comparison with the clock; a packet that has not timed out makes the thread sleep,
  through the pointer \<open>timer\<close>.
\<close>

definition timer_expired :: "ptr \<Rightarrow> rdt_strategy \<Rightarrow> (bool \<times> rdt_strategy) res" where
  "timer_expired a s =
     (let (t, s) = now s
      in rbind (packet_at a s) (\<lambda>p.
           if t < time_stamp p + PACKET_TIME_OUT
           then if timer s then Inr (False, s) else Inl Uninitialised
           else Inr (True, s)))"


lemma set_mutex_False: "\<not> set_mutex s \<Longrightarrow> s\<lparr>set_mutex := False\<rparr> = s"
  by (cases s) simp

lemma wnd_mutex_False: "\<not> wnd_mutex s \<Longrightarrow> s\<lparr>wnd_mutex := False\<rparr> = s"
  by (cases s) simp

lemma timer_first_Inr:
  "timer_first s = Inr (a, s') \<longleftrightarrow> \<not> set_mutex s \<and> s' = s \<and> (\<exists>as. unacked_packets s = a # as)"
  by (cases "unacked_packets s")
     (auto simp: timer_first_def lock_set_mutex_def unlock_set_mutex_def set_mutex_False)

section \<open>The builder's rest shrinks\<close>

definition work_left :: "packet_builder \<Rightarrow> nat" where
  "work_left b = length (unread b) + length (packets_read_queue b)"

lemma fill_queue_length:
  "fill_queue buffer k i n st q = Inr (n', st', q') \<Longrightarrow> length q' \<le> length q + k"
proof (induction buffer k i n st q rule: fill_queue.induct)
  case (1 buffer k i n st q)
  show ?case
  proof (cases "k = 0")
    case True
    then show ?thesis using "1.prems" by (simp add: fill_queue.simps)
  next
    case False
    define m where "m = min k MAX_DATA_SIZE"
    have m: "1 \<le> m" "m \<le> k" using False by (auto simp: m_def MAX_DATA_SIZE_def)
    from "1.prems" False obtain p where ok: "\<not> i + m > length buffer"
      and p: "new_data_packet (take m (drop i buffer)) n = Inr p"
      and r: "fill_queue buffer (k - m) (i + m) (n + 1) (snd (alloc p st)) (q @ [fst (alloc p st)]) = Inr (n', st', q')"
      by (subst (asm) fill_queue.simps)
         (auto simp: m_def Let_def rbind_Inr_iff split: if_splits prod.splits)
    have "length q' \<le> length (q @ [fst (alloc p st)]) + (k - m)"
      by (rule "1.IH" [OF False m_def ok refl p refl prod.collapse r])
    then show ?thesis using m by simp
  qed
qed

lemma get_next_packet_work:
  assumes "get_next_packet n st b = Inr (a, n', st', b')"
  shows "work_left b' < work_left b"
proof -
  from assms obtain st1 b1 q where r: "read_packets n st b = Inr (n', st1, b1)"
    and q: "packets_read_queue b1 = a # q" and b': "unread b' = unread b1" "packets_read_queue b' = q"
  proof -
    from assms obtain y where y: "read_packets n st b = Inr y" and
      c: "(case y of (n, st, b) \<Rightarrow>
        case packets_read_queue b of
          [] \<Rightarrow> Inl Empty_Container
        | a # q \<Rightarrow>
            let b = b\<lparr>packets_read_queue := q\<rparr>;
                b = (if \<not> has_next b then b\<lparr>fp_open := False, buffer_live := False\<rparr> else b)
            in Inr (a, n, st, b)) = Inr (a, n', st', b')"
      unfolding get_next_packet_def rbind_Inr_iff by blast
    obtain n1 st1 b1 where yy: "y = (n1, st1, b1)" by (cases y)
    from c yy show ?thesis
      using y by (cases "packets_read_queue b1") (auto simp: Let_def split: if_splits intro: that)
  qed
  have "work_left b1 \<le> work_left b"
  proof (cases "data_not_read b > 0 \<and> packets_read_queue b = []")
    case True
    define k where "k = length (take (to_size_t (int MAX_DATA_SIZE * queue_size b)) (unread b))"
    have k: "k \<le> length (unread b)" by (simp add: k_def)
    from r True obtain m q' where "fill_queue (take (to_size_t (int MAX_DATA_SIZE * queue_size b)) (unread b))
        k 0 n st [] = Inr (m, st1, q')" "unread b1 = drop k (unread b)" "packets_read_queue b1 = q'"
      by (auto simp: read_packets_def Let_def rbind_Inr_iff k_def split: if_splits)
    then show ?thesis using fill_queue_length k by (fastforce simp: work_left_def)
  next
    case False
    then have "b1 = b" using r by (auto simp: read_packets_def split: if_splits)
    then show ?thesis by simp
  qed
  then show ?thesis using b' q by (simp add: work_left_def)
qed

lemma next_packet_work: "next_packet s = Inr (a, s') \<Longrightarrow> work_left (pkt_builder s') < work_left (pkt_builder s)"
  by (auto simp: next_packet_def rbind_Inr_iff dest: get_next_packet_work)

text \<open>Taking a packet from the file only allocates.\<close>

lemma alloc_grows: "grows st (snd (alloc p st))"
  by (auto simp: alloc_def grows_def)

lemma fill_queue_grows: "fill_queue buffer k i n st q = Inr (n', st', q') \<Longrightarrow> grows st st'"
proof (induction buffer k i n st q rule: fill_queue.induct)
  case (1 buffer k i n st q)
  show ?case
  proof (cases "k = 0")
    case True
    then show ?thesis using "1.prems" by (simp add: fill_queue.simps)
  next
    case False
    define m where "m = min k MAX_DATA_SIZE"
    from "1.prems" False obtain p where ok: "\<not> i + m > length buffer"
      and p: "new_data_packet (take m (drop i buffer)) n = Inr p"
      and r: "fill_queue buffer (k - m) (i + m) (n + 1) (snd (alloc p st)) (q @ [fst (alloc p st)]) = Inr (n', st', q')"
      by (subst (asm) fill_queue.simps)
         (auto simp: m_def Let_def rbind_Inr_iff split: if_splits prod.splits)
    have "grows (snd (alloc p st)) st'" by (rule "1.IH" [OF False m_def ok refl p refl prod.collapse r])
    with alloc_grows show ?thesis by (rule grows_trans)
  qed
qed

lemma get_next_packet_grows:
  assumes "get_next_packet n st b = Inr (a, n', st', b')"
  shows "grows st st'"
proof -
  from assms obtain y where y: "read_packets n st b = Inr y" and
    c: "(case packets_read_queue (snd (snd y)) of [] \<Rightarrow> Inl Empty_Container
      | a # q \<Rightarrow> Inr (fst (snd y))) = Inr st'"
    unfolding get_next_packet_def rbind_Inr_iff
    by (fastforce simp: Let_def split: list.splits prod.splits)
  have "grows st (fst (snd y))"
    using y fill_queue_grows
    by (fastforce simp: read_packets_def Let_def rbind_Inr_iff split: if_splits)
  then show ?thesis using c by (auto split: list.splits)
qed

end
