(* ===== verification/Selective_Repeat.thy ===== *)
theory Selective_Repeat
  imports Rdt_Strategy
begin

text \<open>
  \<open>server/strategy/selective_repeat_strategy\<close>: the sender with an adaptive window. A packet
  leaves the window when it and all before it are acknowledged; a shrinking window moves its
  tail to the auxiliary window, from which an expanding window takes first.
\<close>

section \<open>Shrinking, sending, expanding\<close>

text \<open>
  The loop of \<open>shrink_window\<close>, over the pointers from position \<open>k\<close> on: each is moved to the
  auxiliary window, taken off the timer's set and erased from the window at that position.
\<close>

fun shrink_loop :: "nat \<Rightarrow> ptr list \<Rightarrow> rdt_strategy \<Rightarrow> rdt_strategy res" where
  "shrink_loop k [] s = Inr s"
| "shrink_loop k (a # as) s =
     rbind (insert_aux a s) (\<lambda>s.
     rbind (locked_erase_unacked a s) (\<lambda>s.
       shrink_loop k as (s\<lparr>window := take k (window s) @ drop (Suc k) (window s)\<rparr>)))"

definition shrink_window :: "int \<Rightarrow> rdt_strategy \<Rightarrow> rdt_strategy res" where
  "shrink_window new_size s =
     (let new_threshold = half (window_size s);
          s = s\<lparr>threshold := (if new_threshold < 1 then 1 else new_threshold),
                window_size := (if new_size < 1 then 1 else new_size)\<rparr>
      in if length (window s) > to_size_t (window_size s)
         then shrink_loop (to_size_t (window_size s)) (drop (to_size_t (window_size s)) (window s)) s
         else Inr s)"

definition sr_send_packet :: "ptr \<Rightarrow> rdt_strategy \<Rightarrow> rdt_strategy res" where
  "sr_send_packet a s =
     rbind (transmit a s) (\<lambda>(triple_dup_ack, s).
       if triple_dup_ack then shrink_window (half (window_size s)) s else Inr s)"

definition adjust_window_size :: "rdt_strategy \<Rightarrow> rdt_strategy" where
  "adjust_window_size s =
     (let new_size = (if window_size s < threshold s then window_size s * 2 else window_size s + 1)
      in s\<lparr>window_size := (if new_size > max_window_size s then max_window_size s else new_size)\<rparr>)"

text \<open>The packet \<open>expand_window\<close> takes next: from the auxiliary window, else from the file.\<close>

definition next_to_send :: "rdt_strategy \<Rightarrow> (ptr \<times> rdt_strategy) res" where
  "next_to_send s =
     (case aux_window s of
        a # as \<Rightarrow> Inr (a, s\<lparr>aux_window := as\<rparr>)
      | [] \<Rightarrow> next_packet s)"

lemma shrink_loop_window:
  "shrink_loop k as s = Inr s' \<Longrightarrow> as = drop k (window s) \<Longrightarrow>
   window s' = take k (window s) \<and> window_size s' = window_size s"
proof (induction k as s rule: shrink_loop.induct)
  case (2 k a as s)
  from "2.prems"(1) obtain s1 s2 where
    1: "insert_aux a s = Inr s1" and 2: "locked_erase_unacked a s1 = Inr s2" and
    3: "shrink_loop k as (s2\<lparr>window := take k (window s2) @ drop (Suc k) (window s2)\<rparr>) = Inr s'"
    by (auto simp: rbind_Inr_iff)
  have w: "window s2 = window s \<and> window_size s2 = window_size s"
    using 1 2 by (auto simp: insert_aux_def locked_erase_unacked_def lock_set_mutex_def
        erase_unacked_def unlock_set_mutex_def rbind_Inr_iff split: if_splits)
  have k: "k < length (window s)" using "2.prems"(2)
    by (metis drop_eq_Nil leI list.distinct(1))
  then have "as = drop (Suc k) (window s)"
    using "2.prems"(2) by (simp add: Cons_nth_drop_Suc [symmetric])
  then have "window s' = take k (take k (window s2) @ drop (Suc k) (window s2)) \<and>
      window_size s' = window_size s2"
    using "2.IH" [OF 1 2 3] w k by simp
  with w k show ?case by simp
qed simp

text \<open>
  Each round of \<open>expand_window\<close> makes the window longer by one packet, unless the link
  reports a triple duplicate, which halves the window size: that is why the loop ends.
\<close>

lemma shrink_window_frame:
  assumes "shrink_window n s = Inr s'"
  shows "window_size s' = (if n < 1 then 1 else n)"
    and "window s' = take (to_size_t (window_size s')) (window s)"
  using assms
  by (auto simp: shrink_window_def Let_def not_less dest: shrink_loop_window split: if_splits)

lemma sr_send_packet_frame:
  assumes "sr_send_packet a s = Inr s'"
  shows "window_size s' = window_size s \<and> window s' = window s \<or>
    window_size s' = (if half (window_size s) < 1 then 1 else half (window_size s)) \<and>
    window s' = take (to_size_t (window_size s')) (window s)"
proof -
  from assms obtain dup s1 where t: "transmit a s = Inr (dup, s1)" and
    r: "(if dup then shrink_window (half (window_size s1)) s1 else Inr s1) = Inr s'"
    by (auto simp: sr_send_packet_def rbind_Inr_iff)
  note f = transmit_frame [OF t]
  show ?thesis
  proof (cases dup)
    case True
    with r have "shrink_window (half (window_size s1)) s1 = Inr s'" by simp
    from shrink_window_frame [OF this] show ?thesis by (simp add: f)
  next
    case False
    with r f show ?thesis by simp
  qed
qed

lemma half_smaller: "2 \<le> \<bar>n\<bar> \<Longrightarrow> nat \<bar>if half n < 1 then 1 else half n\<bar> < nat \<bar>n\<bar>"
  by (auto simp: half_def sgn_if)

lemma to_size_t_1 [simp]: "to_size_t 1 = 1" and to_size_t_0 [simp]: "to_size_t 0 = 0"
  by (simp_all add: to_size_t_nonneg)

definition expand_measure :: "(rdt_strategy \<times> rdt_strategy) set" where
  "expand_measure = measures [\<lambda>s. nat \<bar>window_size s\<bar>, \<lambda>s. to_size_t (window_size s) - length (window s)]"

lemma expand_round_smaller:
  assumes "window_open s" "window s1 = window s" "window_size s1 = window_size s"
    and "sr_send_packet a (s1\<lparr>window := window s1 @ [a]\<rparr>) = Inr s'"
  shows "(s', s) \<in> expand_measure"
proof -
  have open_s: "length (window s) < to_size_t (window_size s)"
    using assms(1) by (simp add: window_open_def)
  let ?n = "if half (window_size s) < 1 then 1 else half (window_size s)"
  consider (same) "window_size s' = window_size s" "window s' = window s @ [a]"
    | (dup) "window_size s' = ?n" "window s' = take (to_size_t ?n) (window s @ [a])"
    using sr_send_packet_frame [OF assms(4)] assms(2,3) by auto
  then show ?thesis
  proof cases
    case same
    then show ?thesis using open_s by (auto simp: expand_measure_def)
  next
    case dup
    show ?thesis
    proof (cases "2 \<le> \<bar>window_size s\<bar>")
      case True
      then show ?thesis using half_smaller [of "window_size s"] dup
        by (simp add: expand_measure_def)
    next
      case False
      then have w: "window_size s = 1 \<or> window_size s = 0 \<or> window_size s = -1" by auto
      then have n: "?n = 1" by (auto simp: half_def)
      have "window_size s \<noteq> 0" using open_s by auto
      with w have w1: "window_size s = 1 \<or> window_size s = -1" by auto
      have len: "length (window s') = 1" using dup n by simp
      from w1 show ?thesis
        using dup(1) n len open_s by (auto simp: expand_measure_def)
    qed
  qed
qed

lemma next_to_send_frame:
  "next_to_send s = Inr (a, s') \<Longrightarrow> window s' = window s \<and> window_size s' = window_size s"
  by (auto simp: next_to_send_def dest: next_packet_window split: list.splits)

lemma set_packet_frame:
  "set_packet a f s = Inr s' \<Longrightarrow> window s' = window s \<and> window_size s' = window_size s"
  by (auto simp: set_packet_def rbind_Inr_iff)

function expand_window :: "rdt_strategy \<Rightarrow> rdt_strategy res" where
  "expand_window s =
     (if window_open s \<and> (aux_window s \<noteq> [] \<or> has_next (pkt_builder s))
      then rbind (next_to_send s) (\<lambda>x.
           rbind (set_packet (fst x) (set_ack False) (snd x)) (\<lambda>s1.
           rbind (sr_send_packet (fst x) (s1\<lparr>window := window s1 @ [fst x]\<rparr>)) expand_window))
      else Inr s)"
  by pat_completeness auto

termination
proof (relation expand_measure)
  show "wf expand_measure" by (simp add: expand_measure_def)
next
  fix s x s1 s2
  assume "window_open s \<and> (aux_window s \<noteq> [] \<or> has_next (pkt_builder s))"
    and x: "next_to_send s = Inr x" and s1: "set_packet (fst x) (set_ack False) (snd x) = Inr s1"
    and s2: "sr_send_packet (fst x) (s1\<lparr>window := window s1 @ [fst x]\<rparr>) = Inr s2"
  moreover have "window s1 = window s" "window_size s1 = window_size s"
    using next_to_send_frame [of s "fst x" "snd x"] set_packet_frame [OF s1] x by auto
  ultimately show "(s2, s) \<in> expand_measure" by (blast intro: expand_round_smaller)
qed

declare expand_window.simps [simp del]


section \<open>Acknowledgements\<close>

text \<open>
  \<open>advance_window\<close> pops the acknowledged packets at the front and deletes them. (The code
  reads the pointer through an iterator that \<open>pop_front\<close> has invalidated; the value it
  reads is the popped pointer.)
\<close>

fun sr_advance_loop :: "ptr list \<Rightarrow> rdt_strategy \<Rightarrow> rdt_strategy res" where
  "sr_advance_loop [] s = Inr s"
| "sr_advance_loop (a # as) s =
     rbind (packet_at a s) (\<lambda>p.
       if acked p
       then rbind (delete_packet a (s\<lparr>window := as\<rparr>)) (\<lambda>s.
              sr_advance_loop as (s\<lparr>packets_sent := packets_sent s + 1\<rparr>))
       else Inr s)"

definition sr_advance_window :: "rdt_strategy \<Rightarrow> rdt_strategy res" where
  "sr_advance_window s = sr_advance_loop (window s) s"

definition sr_ack_found :: "nat \<Rightarrow> ptr \<Rightarrow> rdt_strategy \<Rightarrow> rdt_strategy res" where
  "sr_ack_found i a s =
     rbind (packet_at a s) (\<lambda>p.
       if acked p then Inr s
       else rbind (set_packet a (set_ack True) s) (\<lambda>s.
            rbind (locked_erase_unacked a s) (\<lambda>s.
            rbind (if i = 0 then sr_advance_window s else Inr s) (\<lambda>s.
              expand_window (adjust_window_size s)))))"

definition sr_acknowledge_packet :: "ack_packet \<Rightarrow> rdt_strategy \<Rightarrow> rdt_strategy res" where
  "sr_acknowledge_packet ack_pkt s =
     (let s = s\<lparr>window_size_history := window_size_history s @ [window_size s]\<rparr>
      in rbind (calculate_ack_checksum ack_pkt) (\<lambda>c.
           if ack_cksum ack_pkt = c
           then rbind (lock_wnd_mutex s) (\<lambda>s.
                rbind (find_seqno (ackno ack_pkt) 0 (window s) s) (\<lambda>r.
                rbind (case r of None \<Rightarrow> Inr s | Some (i, a) \<Rightarrow> sr_ack_found i a s) (\<lambda>s.
                  Inr (unlock_wnd_mutex s))))
           else Inr s))"

section \<open>Starting\<close>

definition new_selective_repeat ::
    "path \<Rightarrow> (path \<rightharpoonup> byte list) \<Rightarrow> path \<Rightarrow> int \<Rightarrow> packet_sender \<Rightarrow> (nat \<Rightarrow> nat) \<Rightarrow> rdt_strategy res" where
  "new_selective_repeat cwd fs file_name mx link clk =
     rbind (new_packet_builder cwd fs file_name 1) (\<lambda>b.
       fill_window (base_strategy b link clk 1 1 mx (half mx)))"

text \<open>The loop of \<open>start\<close>; the first packet also starts the timer thread.\<close>

fun sr_start_loop :: "bool \<Rightarrow> ptr list \<Rightarrow> rdt_strategy \<Rightarrow> rdt_strategy res" where
  "sr_start_loop first [] s = Inr s"
| "sr_start_loop first (a # as) s =
     rbind (sr_send_packet a s) (\<lambda>s'.
       if window s' \<noteq> window s then Inl Invalid_Iterator
       else sr_start_loop False as (if first then s'\<lparr>timer := True\<rparr> else s'))"

definition sr_start :: "rdt_strategy \<Rightarrow> rdt_strategy res" where
  "sr_start s =
     (let (t, s) = now s; s = s\<lparr>start_time_stamp := t\<rparr>
      in rbind (lock_wnd_mutex s) (\<lambda>s.
         rbind (sr_start_loop True (window s) s) (\<lambda>s. Inr (unlock_wnd_mutex s))))"

section \<open>The timer thread\<close>

definition sr_timer_erase :: "ptr \<Rightarrow> rdt_strategy \<Rightarrow> rdt_strategy res" where
  "sr_timer_erase a s =
     rbind (lock_set_mutex s) (\<lambda>s.
       if \<not> all_live (unacked_packets s) s then Inl Use_After_Free
       else if unacked_packets s = [] then Inl Empty_Container
       else rbind (erase_unacked a s) (\<lambda>s. Inr (unlock_set_mutex s)))"

definition sr_timer_print :: "rdt_strategy \<Rightarrow> rdt_strategy res" where
  "sr_timer_print s =
     rbind (lock_wnd_mutex s) (\<lambda>s.
       if \<not> all_live (window s) s then Inl Use_After_Free
       else if window s = [] then Inl Empty_Container
       else Inr (unlock_wnd_mutex s))"

definition sr_timer_resend :: "rdt_strategy \<Rightarrow> rdt_strategy res" where
  "sr_timer_resend s =
     rbind (lock_wnd_mutex s) (\<lambda>s.
     rbind (shrink_window 1 s) (\<lambda>s.
       case window s of
         [] \<Rightarrow> Inl Empty_Container
       | a # _ \<Rightarrow> rbind (sr_send_packet a s) (\<lambda>s. Inr (unlock_wnd_mutex s))))"

fun sr_timer_step :: "timer_pc \<Rightarrow> rdt_strategy \<Rightarrow> (timer_pc \<times> rdt_strategy) res" where
  "sr_timer_step T_Loop s = Inr (if unacked_packets s = [] then T_Loop else T_Begin, s)"
| "sr_timer_step T_Begin s = rbind (timer_first s) (\<lambda>(a, s). Inr (T_Compare a, s))"
| "sr_timer_step (T_Compare a) s =
     rbind (timer_expired a s) (\<lambda>(expired, s). Inr (if expired then T_Erase a else T_Loop, s))"
| "sr_timer_step (T_Erase a) s = rbind (sr_timer_erase a s) (\<lambda>s. Inr (T_Print, s))"
| "sr_timer_step T_Print s = rbind (sr_timer_print s) (\<lambda>s. Inr (T_Resend, s))"
| "sr_timer_step T_Resend s = rbind (sr_timer_resend s) (\<lambda>s. Inr (T_Loop, s))"

end
