(* ===== verification/Selective_Repeat_Inv.thy ===== *)
theory Selective_Repeat_Inv
  imports Selective_Repeat
begin

text \<open>
  The invariant of the selective-repeat sender and the lemma for each of its operations that
  it does not fail and keeps the invariant.
\<close>

section \<open>The invariant\<close>

definition stamp :: "rdt_strategy \<Rightarrow> ptr \<Rightarrow> nat" where
  "stamp s a = time_stamp (the (cells (mem s) a))"

definition acked_at :: "rdt_strategy \<Rightarrow> ptr \<Rightarrow> bool" where
  "acked_at s a \<longleftrightarrow> acked (the (cells (mem s) a))"

definition in_flight :: "rdt_strategy \<Rightarrow> ptr list" where
  "in_flight s = window s @ aux_window s"

text \<open>
  Where the payloads \<open>ds\<close> of the file are: \<open>dd\<close> acknowledged and gone, \<open>dw\<close> in the window
  and then the auxiliary window, \<open>rest\<close> with the builder.
\<close>

definition sr_layout ::
    "byte list list \<Rightarrow> byte list list \<Rightarrow> byte list list \<Rightarrow> byte list list \<Rightarrow> rdt_strategy \<Rightarrow> bool" where
  "sr_layout ds dd dw rest s \<longleftrightarrow>
     ds = dd @ dw @ rest \<and>
     run (mem s) (Suc (length dd)) (in_flight s) dw \<and>
     builder_ok (mem s) (Suc (length dd + length dw)) (pkt_builder s) rest \<and>
     next_seq_number s = seq_after (Suc (length dd + length dw)) (pkt_builder s) \<and>
     store_ok (mem s) \<and>
     distinct (in_flight s @ packets_read_queue (pkt_builder s)) \<and>
     packets_sent s = of_nat (length dd)"

definition sr_sizes :: "rdt_strategy \<Rightarrow> bool" where
  "sr_sizes s \<longleftrightarrow>
     1 \<le> window_size s \<and> window_size s \<le> max_window_size s \<and> max_window_size s < 2 ^ 31 \<and>
     length (window s) \<le> nat (window_size s)"

text \<open>The timer's set holds packets of the window only, none of them acknowledged.\<close>

definition sr_timed :: "rdt_strategy \<Rightarrow> bool" where
  "sr_timed s \<longleftrightarrow>
     set (unacked_packets s) \<subseteq> set (window s) \<and>
     sorted_by (stamp s) (unacked_packets s) \<and>
     (\<forall>a \<in> set (unacked_packets s). \<not> acked_at s a)"

text \<open>
  \<open>R i\<close> says that packet \<open>i\<close> has been received: what the sender believes acknowledged has
  been received, and what it has sent are packets of the file.
\<close>

definition sr_data :: "byte list list \<Rightarrow> (nat \<Rightarrow> bool) \<Rightarrow> rdt_strategy \<Rightarrow> bool" where
  "sr_data ds R s \<longleftrightarrow>
     (\<exists>dd dw rest. sr_layout ds dd dw rest s \<and>
        (\<forall>i. 1 \<le> i \<and> i \<le> length dd \<longrightarrow> R i) \<and>
        (\<forall>j < length dw. acked_at s (in_flight s ! j) \<longrightarrow> R (Suc (length dd + j))) \<and>
        (\<forall>x \<in> set (sent s). \<exists>i. 1 \<le> i \<and> i \<le> length dd + length dw \<and> x = data_wire_of ds i))"

definition sr_core :: "byte list list \<Rightarrow> (nat \<Rightarrow> bool) \<Rightarrow> rdt_strategy \<Rightarrow> bool" where
  "sr_core ds R s \<longleftrightarrow>
     payloads_ok ds \<and> sender_ok (sender s) \<and> \<not> set_mutex s \<and>
     sr_sizes s \<and> sr_timed s \<and> sr_data ds R s"

definition front_ok :: "rdt_strategy \<Rightarrow> bool" where
  "front_ok s \<longleftrightarrow> (window s \<noteq> [] \<longrightarrow> \<not> acked_at s (hd (window s)))"

definition sr_inv :: "byte list list \<Rightarrow> (nat \<Rightarrow> bool) \<Rightarrow> rdt_strategy \<Rightarrow> bool" where
  "sr_inv ds R s \<longleftrightarrow>
     sr_core ds R s \<and> front_ok s \<and> \<not> wnd_mutex s \<and>
     (window s = [] \<longrightarrow> aux_window s = [] \<and> \<not> has_next (pkt_builder s))"

section \<open>Primitive steps\<close>

lemma time_comparator_stamp: "time_comparator (cells (mem s)) = by_key (stamp s)"
  by (simp add: comparators_by_key stamp_def [abs_def])

lemma locked_erase_eq:
  "\<not> set_mutex s \<Longrightarrow> all_live (a # unacked_packets s) s \<Longrightarrow>
   locked_erase_unacked a s =
     Inr (s\<lparr>unacked_packets := set_erase (by_key (stamp s)) a (unacked_packets s)\<rparr>)"
  by (cases s)
     (simp add: locked_erase_unacked_def lock_set_mutex_def erase_unacked_def unlock_set_mutex_def
        all_live_def comparators_by_key stamp_def [abs_def])

lemma locked_insert_eq:
  "\<not> set_mutex s \<Longrightarrow> all_live (a # unacked_packets s) s \<Longrightarrow>
   locked_insert_unacked a s =
     Inr (s\<lparr>unacked_packets := set_insert (by_key (stamp s)) a (unacked_packets s)\<rparr>)"
  by (cases s)
     (simp add: locked_insert_unacked_def lock_set_mutex_def insert_unacked_def unlock_set_mutex_def
        all_live_def comparators_by_key stamp_def [abs_def])

lemma insert_aux_eq:
  "all_live (a # aux_window s) s \<Longrightarrow>
   insert_aux a s =
     Inr (s\<lparr>aux_window := set_insert (by_key (\<lambda>a. seqno (the (cells (mem s) a)))) a (aux_window s)\<rparr>)"
  by (simp add: insert_aux_def comparators_by_key)

lemma stamp_cong: "mem s' = mem s \<Longrightarrow> stamp s' = stamp s"
  by (simp add: stamp_def fun_eq_iff)

text \<open>Moving the tail of the window to the auxiliary window.\<close>

lemma shrink_loop_eq:
  fixes sq :: "ptr \<Rightarrow> 32 word"
  assumes "sq = (\<lambda>a. seqno (the (cells (mem s) a)))"
    and "\<not> set_mutex s" "all_live (unacked_packets s) s" "all_live (as @ ms @ ys) s"
    and "window s = ws @ as" "length ws = k" "aux_window s = ms @ ys"
    and "sorted_by sq (ms @ as @ ys)"
    and "sorted_by (stamp s) (unacked_packets s)"
  shows "shrink_loop k as s =
    Inr (s\<lparr>window := ws, aux_window := ms @ as @ ys,
           unacked_packets := erase_all (stamp s) (unacked_packets s) as\<rparr>)"
  using assms
proof (induction as arbitrary: s ms)
  case Nil
  then show ?case by (cases s) simp
next
  case (Cons a as)
  let ?s1 = "s\<lparr>aux_window := ms @ a # ys\<rparr>"
  let ?s2 = "?s1\<lparr>unacked_packets := set_erase (by_key (stamp s)) a (unacked_packets s)\<rparr>"
  let ?s3 = "?s2\<lparr>window := ws @ as\<rparr>"
  have so: "sorted_by sq (ms @ a # as @ ys)" using Cons.prems(8) by simp
  then have "set_insert (by_key sq) a (ms @ ys) = ms @ a # ys"
    by (intro set_insert_middle) (auto simp: sorted_by_def sorted_wrt_append)
  then have 1: "insert_aux a s = Inr ?s1"
    using Cons.prems by (subst insert_aux_eq) (auto simp: all_live_def)
  have 2: "locked_erase_unacked a ?s1 = Inr ?s2"
    using Cons.prems stamp_cong [of ?s1 s] by (subst locked_erase_eq) (auto simp: all_live_def)
  have 3: "?s2\<lparr>window := take k (window ?s2) @ drop (Suc k) (window ?s2)\<rparr> = ?s3"
    using Cons.prems(5,6) by simp
  have st: "stamp ?s3 = stamp s" by (rule stamp_cong) simp
  have sub: "set (unacked_packets ?s3) \<subseteq> set (unacked_packets s)"
    using cxx_set.del_subset [OF Cons.prems(9)] by simp
  have "shrink_loop k as ?s3 = Inr (?s3\<lparr>window := ws, aux_window := (ms @ [a]) @ as @ ys,
      unacked_packets := erase_all (stamp ?s3) (unacked_packets ?s3) as\<rparr>)"
  proof (rule Cons.IH)
    show "all_live (unacked_packets ?s3) ?s3" "all_live (as @ (ms @ [a]) @ ys) ?s3"
      using Cons.prems(3,4) sub by (auto simp: all_live_def)
    show "sorted_by (stamp ?s3) (unacked_packets ?s3)"
      unfolding st using cxx_set.ok_del [OF Cons.prems(9)] by simp
  qed (use Cons.prems so in auto)
  with 1 2 3 show ?case by (simp add: st)
qed


section \<open>What the invariant gives\<close>

lemma run_cell:
  assumes "run st i as ds" "j < length as"
  obtains p where "cells st (as ! j) = Some p" "seqno p = of_nat (i + j)"
    "pack p = pack (mk_packet (ds ! j) (of_nat (i + j)))" "data p = ds ! j"
proof -
  from run_nth [OF assms] obtain f t where
    c: "cells st (as ! j) = Some ((mk_packet (ds ! j) (of_nat (i + j)))\<lparr>acked := f, time_stamp := t\<rparr>)"
    by (auto simp: holds_def)
  show ?thesis by (rule that [OF c]) (simp_all add: pack_flags)
qed

lemma run_sorted:
  assumes "run st i as ds" "i + length as \<le> 2 ^ 32"
  shows "sorted_by (\<lambda>a. seqno (the (cells st a))) as"
  unfolding sorted_by_def sorted_wrt_iff_nth_less
proof (intro allI impI)
  fix j k
  assume jk: "j < k" "k < length as"
  then have j: "j < length as" by simp
  obtain p where p: "cells st (as ! j) = Some p" "seqno p = of_nat (i + j)"
    using run_cell [OF assms(1) j] by metis
  obtain q where q: "cells st (as ! k) = Some q" "seqno q = of_nat (i + k)"
    using run_cell [OF assms(1) jk(2)] by metis
  have "i + j < 2 ^ 32" and "i + k < 2 ^ 32" and "i + j < i + k" using jk assms(2) by simp_all
  then have "(of_nat (i + j) :: 32 word) < of_nat (i + k)"
    by (simp only: word_less_nat_alt unat_of_nat_32)
  then show "seqno (the (cells st (as ! j))) < seqno (the (cells st (as ! k)))"
    using p q by simp
qed

lemma layout_live:
  "sr_layout ds dd dw rest s \<Longrightarrow> set as \<subseteq> set (in_flight s) \<Longrightarrow> all_live as s"
  unfolding sr_layout_def all_live_def by (meson run_live subsetD)

lemma core_live: "sr_core ds R s \<Longrightarrow> set as \<subseteq> set (in_flight s) \<Longrightarrow> all_live as s"
  unfolding sr_core_def sr_data_def by (metis layout_live)

lemma core_unacked_live: "sr_core ds R s \<Longrightarrow> all_live (unacked_packets s) s"
  by (rule core_live) (auto simp: sr_core_def sr_timed_def in_flight_def)

lemma layout_length: "sr_layout ds dd dw rest s \<Longrightarrow> length (in_flight s) = length dw"
  by (auto simp: sr_layout_def dest: run_length)

lemma layout_bound:
  "payloads_ok ds \<Longrightarrow> sr_layout ds dd dw rest s \<Longrightarrow> Suc (length dd + length dw + length rest) < 2 ^ 32"
  by (auto simp: payloads_ok_def sr_layout_def)

lemma core_sorted:
  assumes "sr_core ds R s"
  shows "sorted_by (\<lambda>a. seqno (the (cells (mem s) a))) (in_flight s)"
proof -
  from assms obtain dd dw rest where l: "sr_layout ds dd dw rest s" and p: "payloads_ok ds"
    by (auto simp: sr_core_def sr_data_def)
  then have "run (mem s) (Suc (length dd)) (in_flight s) dw"
    by (simp add: sr_layout_def)
  then show ?thesis by (rule run_sorted) (use layout_bound [OF p l] layout_length [OF l] in simp)
qed

lemma sr_data_cong:
  assumes "mem s' = mem s" "in_flight s' = in_flight s" "pkt_builder s' = pkt_builder s"
    "next_seq_number s' = next_seq_number s" "sent s' = sent s" "packets_sent s' = packets_sent s"
  shows "sr_data ds R s' = sr_data ds R s"
  by (simp add: sr_data_def sr_layout_def acked_at_def assms)

text \<open>The fields the invariant does not read.\<close>

lemma core_cong:
  assumes "mem s' = mem s" "pkt_builder s' = pkt_builder s" "sender s' = sender s"
    "window s' = window s" "aux_window s' = aux_window s" "unacked_packets s' = unacked_packets s"
    "next_seq_number s' = next_seq_number s" "window_size s' = window_size s"
    "max_window_size s' = max_window_size s" "set_mutex s' = set_mutex s" "sent s' = sent s"
    "packets_sent s' = packets_sent s"
  shows "sr_core ds R s' = sr_core ds R s"
proof -
  have "sr_data ds R s' = sr_data ds R s"
    by (rule sr_data_cong) (simp_all add: assms in_flight_def)
  moreover have "stamp s' = stamp s" "acked_at s' = acked_at s"
    by (simp_all add: stamp_def acked_at_def fun_eq_iff assms)
  ultimately show ?thesis by (simp add: sr_core_def sr_sizes_def sr_timed_def assms)
qed

section \<open>Shrinking\<close>

text \<open>
  The effect of \<open>shrink_window\<close>, in closed form: the tail of the window is at the front of
  the auxiliary window, in order, and off the timer's set.
\<close>

definition shrunk :: "int \<Rightarrow> rdt_strategy \<Rightarrow> rdt_strategy" where
  "shrunk n s =
     (let w = (if n < 1 then 1 else n); t = half (window_size s)
      in s\<lparr>threshold := (if t < 1 then 1 else t), window_size := w,
           window := take (nat w) (window s), aux_window := drop (nat w) (window s) @ aux_window s,
           unacked_packets := erase_all (stamp s) (unacked_packets s) (drop (nat w) (window s))\<rparr>)"

lemma shrink_window_eq:
  assumes core: "sr_core ds R s" and n: "n < 2 ^ 31"
  shows "shrink_window n s = Inr (shrunk n s)"
proof -
  define w where "w = (if n < 1 then 1 else n)"
  define t where "t = (if half (window_size s) < 1 then 1 else half (window_size s))"
  let ?s = "s\<lparr>threshold := t, window_size := w\<rparr>"
  have k: "to_size_t w = nat w" using n by (auto simp: w_def)
  show ?thesis
  proof (cases "length (window s) > nat w")
    case False
    then have "shrink_window n s = Inr ?s"
      by (simp add: shrink_window_def Let_def w_def [symmetric] t_def [symmetric] k)
    moreover have "shrunk n s = ?s"
      using False by (cases s) (simp add: shrunk_def w_def t_def Let_def)
    ultimately show ?thesis by simp
  next
    case True
    have st: "stamp ?s = stamp s" by (rule stamp_cong) simp
    have live: "all_live as ?s = all_live as s" for as by (simp add: all_live_def)
    have "shrink_loop (nat w) (drop (nat w) (window ?s)) ?s =
      Inr (?s\<lparr>window := take (nat w) (window s), aux_window := [] @ drop (nat w) (window s) @ aux_window s,
             unacked_packets := erase_all (stamp ?s) (unacked_packets ?s) (drop (nat w) (window s))\<rparr>)"
    proof (rule trans [OF shrink_loop_eq [OF refl, of ?s _ "[]" "aux_window s" "take (nat w) (window s)"]])
      have "set (drop (nat w) (window s)) \<subseteq> set (window s)" by (rule set_drop_subset)
      then show "all_live (drop (nat w) (window ?s) @ [] @ aux_window s) ?s"
        unfolding live by (intro core_live [OF core]) (auto simp: in_flight_def)
      have "sorted_by (\<lambda>a. seqno (the (cells (mem s) a)))
          (take (nat w) (window s) @ drop (nat w) (window s) @ aux_window s)"
        using core_sorted [OF core] by (metis append_assoc append_take_drop_id in_flight_def)
      then show "sorted_by (\<lambda>a. seqno (the (cells (mem ?s) a))) ([] @ drop (nat w) (window ?s) @ aux_window s)"
        by (simp add: sorted_by_def sorted_wrt_append del: append_take_drop_id)
    qed (use core core_unacked_live [OF core] True in \<open>simp_all add: st live sr_core_def sr_timed_def\<close>)
    then show ?thesis using True
      by (simp add: shrink_window_def shrunk_def Let_def w_def [symmetric] t_def [symmetric] k st)
  qed
qed

lemma shrunk_core:
  assumes core: "sr_core ds R s" and n: "n \<le> max_window_size s"
  shows "sr_core ds R (shrunk n s)"
proof -
  define w where "w = (if n < 1 then 1 else n)"
  let ?s = "shrunk n s"
  have s: "mem ?s = mem s" "in_flight ?s = in_flight s" "pkt_builder ?s = pkt_builder s"
    "next_seq_number ?s = next_seq_number s" "sent ?s = sent s" "sender ?s = sender s"
    "packets_sent ?s = packets_sent s"
    "set_mutex ?s = set_mutex s" "max_window_size ?s = max_window_size s" "window_size ?s = w"
    "window ?s = take (nat w) (window s)"
    "unacked_packets ?s = erase_all (stamp s) (unacked_packets s) (drop (nat w) (window s))"
    by (simp_all add: shrunk_def Let_def w_def in_flight_def)
  have st: "stamp ?s = stamp s" using s(1) by (rule stamp_cong)
  have ac: "acked_at ?s = acked_at s" by (simp add: acked_at_def fun_eq_iff s)
  have t: "sr_timed s" using core by (simp add: sr_core_def)
  then have so: "sorted_by (stamp s) (unacked_packets s)" by (simp add: sr_timed_def)
  have sub: "set (unacked_packets ?s) \<subseteq> set (unacked_packets s) - set (drop (nat w) (window s))"
    using erase_all_ok [OF so] by (auto simp: s)
  have "set (window s) = set (take (nat w) (window s)) \<union> set (drop (nat w) (window s))"
    by (metis append_take_drop_id set_append)
  with sub t have "set (unacked_packets ?s) \<subseteq> set (window ?s)"
    unfolding s sr_timed_def by blast
  moreover have "\<forall>a \<in> set (unacked_packets ?s). \<not> acked_at s a"
    using sub t by (auto simp: sr_timed_def)
  ultimately have "sr_timed ?s"
    using erase_all_ok [OF so] by (simp add: sr_timed_def st ac s)
  moreover have "1 \<le> w" "w \<le> max_window_size s"
    using n core by (auto simp: w_def sr_core_def sr_sizes_def)
  then have "sr_sizes ?s" using core by (simp add: sr_sizes_def sr_core_def s)
  moreover have "sr_data ds R ?s = sr_data ds R s"
    by (rule sr_data_cong) (simp_all add: s)
  ultimately show ?thesis using core by (simp add: sr_core_def s)
qed


section \<open>Sending\<close>

lemma layout_payload:
  assumes "payloads_ok ds" "sr_layout ds dd dw rest s" "j < length dw"
  shows "ds ! (length dd + j) = dw ! j" "length (dw ! j) \<le> 500"
    "cells (mem s) (in_flight s ! j) \<noteq> None"
proof -
  show n: "ds ! (length dd + j) = dw ! j"
    using assms(2,3) by (auto simp: sr_layout_def nth_append)
  have "dw ! j \<in> set ds" using assms(2,3) by (auto simp: sr_layout_def)
  then show "length (dw ! j) \<le> 500" using assms(1) by (auto simp: payloads_ok_def)
  have "in_flight s ! j \<in> set (in_flight s)"
    using assms(3) layout_length [OF assms(2)] by simp
  then show "cells (mem s) (in_flight s ! j) \<noteq> None"
    using assms(2) run_live unfolding sr_layout_def by blast
qed

lemma layout_packet:
  assumes p: "payloads_ok ds" and l: "sr_layout ds dd dw rest s" and j: "j < length dw"
  obtains q where "cells (mem s) (in_flight s ! j) = Some q"
    "seqno q = of_nat (Suc (length dd + j))" "pack q = Inr (data_wire_of ds (Suc (length dd + j)))"
proof -
  have "run (mem s) (Suc (length dd)) (in_flight s) dw" using l by (simp add: sr_layout_def)
  moreover have "j < length (in_flight s)" using j layout_length [OF l] by simp
  ultimately obtain q where q: "cells (mem s) (in_flight s ! j) = Some q"
    "seqno q = of_nat (Suc (length dd) + j)"
    "pack q = pack (mk_packet (dw ! j) (of_nat (Suc (length dd) + j)))"
    by (rule run_cell) blast
  note y = layout_payload [OF p l j]
  have "pack q = Inr (wire (dw ! j) (of_nat (Suc (length dd) + j)))"
    using q(3) y(2) by (simp only: pack_mk_packet)
  then show ?thesis using q y(1) by (intro that [of q]) (simp_all add: data_wire_of_def del: of_nat_Suc of_nat_add)
qed

text \<open>A change of a packet's flags or time stamp keeps every payload where it is.\<close>

lemma builder_ok_update:
  assumes "builder_ok st i b ds" "flag_update f" "cells st a = Some p" "a \<notin> set (packets_read_queue b)"
  shows "builder_ok (st\<lparr>cells := (cells st)(a \<mapsto> f p)\<rparr>) i b ds"
  using assms by (auto simp: builder_ok_def unacked_in_def intro!: run_update)

lemma store_ok_update:
  "store_ok st \<Longrightarrow> cells st a = Some p \<Longrightarrow> store_ok (st\<lparr>cells := (cells st)(a \<mapsto> q)\<rparr>)"
  by (auto simp: store_ok_def)

lemma sr_layout_update:
  assumes l: "sr_layout ds dd dw rest s" and f: "flag_update f" and a: "a \<in> set (in_flight s)"
    and c: "cells (mem s) a = Some p"
    and s': "mem s' = (mem s)\<lparr>cells := (cells (mem s))(a \<mapsto> f p)\<rparr>" "in_flight s' = in_flight s"
      "pkt_builder s' = pkt_builder s" "next_seq_number s' = next_seq_number s"
      "packets_sent s' = packets_sent s"
  shows "sr_layout ds dd dw rest s'"
proof -
  have "a \<notin> set (packets_read_queue (pkt_builder s))"
    using l a by (auto simp: sr_layout_def)
  then show ?thesis
    using l run_update [OF f c] store_ok_update [OF _ c] builder_ok_update [OF _ f c]
    unfolding sr_layout_def s' by auto
qed

lemma transmit_core:
  assumes core: "sr_core ds R s" and a: "a \<in> set (window s)" and na: "\<not> acked_at s a"
    and u: "a \<notin> set (unacked_packets s) \<or> set (unacked_packets s) \<subseteq> {a}"
  shows "\<exists>dup s'. transmit a s = Inr (dup, s') \<and> sr_core ds R s' \<and> acked_at s' = acked_at s \<and>
    wnd_mutex s' = wnd_mutex s"
proof -
  from core obtain dd dw rest where pay: "payloads_ok ds" and l: "sr_layout ds dd dw rest s" and
    R: "\<forall>i. 1 \<le> i \<and> i \<le> length dd \<longrightarrow> R i"
      "\<forall>j < length dw. acked_at s (in_flight s ! j) \<longrightarrow> R (Suc (length dd + j))" and
    log: "\<forall>x \<in> set (sent s). \<exists>i. 1 \<le> i \<and> i \<le> length dd + length dw \<and> x = data_wire_of ds i"
    by (auto simp: sr_core_def sr_data_def)
  have af: "a \<in> set (in_flight s)" using a by (simp add: in_flight_def)
  then obtain j where j: "j < length dw" "in_flight s ! j = a"
    using layout_length [OF l] by (auto simp: in_set_conv_nth)
  obtain q where q: "cells (mem s) a = Some q" and pk: "pack q = Inr (data_wire_of ds (Suc (length dd + j)))"
    using layout_packet [OF pay l j(1)] j(2) by metis
  obtain dup out ps where sp: "send_packet q (sender s) = Inr (dup, out, ps)" and ps: "sender_ok ps" and
    out: "out = None \<or> out = Some (data_wire_of ds (Suc (length dd + j)))"
    using send_packet_ok [of "sender s" q, OF _ pk] core by (auto simp: sr_core_def)
  let ?o = "case out of None \<Rightarrow> [] | Some d \<Rightarrow> [d]"
  let ?t = "clock s (ticks s)"
  let ?s1 = "s\<lparr>sender := ps, sent := sent s @ ?o, ticks := Suc (ticks s),
      mem := (mem s)\<lparr>cells := (cells (mem s))(a \<mapsto> set_time_stamp ?t q)\<rparr>\<rparr>"
  let ?s2 = "?s1\<lparr>unacked_packets := set_insert (by_key (stamp ?s1)) a (unacked_packets s)\<rparr>"
  have timed: "sr_timed s" using core by (simp add: sr_core_def)
  have live: "all_live (a # unacked_packets s) s"
    by (rule core_live [OF core]) (use af timed in \<open>auto simp: sr_timed_def in_flight_def\<close>)
  then have "locked_insert_unacked a ?s1 = Inr ?s2"
    using core by (subst locked_insert_eq) (auto simp: all_live_def sr_core_def)
  then have tr: "transmit a s = Inr (dup, ?s2)"
    using q sp by (simp add: transmit_def packet_at_def deref_def now_def set_packet_def update_def)
  have ac: "acked_at ?s2 = acked_at s"
    using q by (auto simp: acked_at_def fun_eq_iff set_time_stamp_def)
  have so: "sorted_by (stamp ?s1) (unacked_packets s)"
  proof (cases "a \<in> set (unacked_packets s)")
    case False
    then have "sorted_by (stamp ?s1) (unacked_packets s) = sorted_by (stamp s) (unacked_packets s)"
      by (intro sorted_by_cong) (auto simp: stamp_def)
    then show ?thesis using timed by (simp add: sr_timed_def)
  next
    case True
    with u have "set (unacked_packets s) \<subseteq> {a}" by blast
    moreover have "distinct (unacked_packets s)"
      using timed by (auto simp: sr_timed_def intro: sorted_by_distinct)
    ultimately have "length (unacked_packets s) \<le> 1"
      by (metis card_mono card.empty card.insert distinct_card empty_iff finite.emptyI finite.insertI One_nat_def)
    then show ?thesis by (cases "unacked_packets s"; cases "tl (unacked_packets s)") (auto simp: sorted_by_Cons)
  qed
  have st2: "stamp ?s2 = stamp ?s1" by (rule stamp_cong) simp
  have t2: "sr_timed ?s2"
    using timed a na cxx_set.ins_subset [OF so, of a] cxx_set.ok_ins [OF so, of a]
    unfolding sr_timed_def st2 ac by auto
  have l2: "sr_layout ds dd dw rest ?s2"
    by (rule sr_layout_update [OF l _ af q]) (simp_all add: in_flight_def)
  have "\<forall>x \<in> set (sent ?s2). \<exists>i. 1 \<le> i \<and> i \<le> length dd + length dw \<and> x = data_wire_of ds i"
  proof
    fix x
    assume "x \<in> set (sent ?s2)"
    then have "x \<in> set (sent s) \<or> x = data_wire_of ds (Suc (length dd + j))"
      using out by (auto split: option.splits)
    then show "\<exists>i. 1 \<le> i \<and> i \<le> length dd + length dw \<and> x = data_wire_of ds i"
      using log j(1) by (auto intro: exI [of _ "Suc (length dd + j)"])
  qed
  then have "sr_data ds R ?s2"
    unfolding sr_data_def using l2 R by (intro exI conjI) (auto simp: ac in_flight_def)
  moreover have "sr_sizes ?s2" using core by (simp add: sr_core_def sr_sizes_def)
  ultimately have "sr_core ds R ?s2" using t2 core ps by (simp add: sr_core_def)
  with tr ac show ?thesis by (intro exI [of _ dup] exI [of _ ?s2]) auto
qed


lemma half_le: "1 \<le> n \<Longrightarrow> half n \<le> n"
  by (simp add: half_nonneg)

text \<open>
  \<open>send_packet\<close> of the strategy: a transmission, and a shrink when the link says so. The
  front of the window stays where it is.
\<close>

lemma sr_send_packet_core:
  assumes core: "sr_core ds R s" and a: "a \<in> set (window s)" and na: "\<not> acked_at s a"
    and u: "a \<notin> set (unacked_packets s) \<or> set (unacked_packets s) \<subseteq> {a}"
  shows "\<exists>s'. sr_send_packet a s = Inr s' \<and> sr_core ds R s' \<and> acked_at s' = acked_at s \<and>
    wnd_mutex s' = wnd_mutex s \<and> window s' \<noteq> [] \<and> hd (window s') = hd (window s)"
proof -
  obtain dup s1 where t: "transmit a s = Inr (dup, s1)" and c1: "sr_core ds R s1" and
    ac: "acked_at s1 = acked_at s" and wm: "wnd_mutex s1 = wnd_mutex s"
    using transmit_core [OF assms] by blast
  note f = transmit_frame [OF t]
  have ne: "window s1 \<noteq> []" using a f by auto
  show ?thesis
  proof (cases dup)
    case False
    then show ?thesis using t c1 ac wm ne f by (simp add: sr_send_packet_def)
  next
    case True
    let ?h = "half (window_size s1)"
    have sz: "1 \<le> window_size s1" "window_size s1 \<le> max_window_size s1" "max_window_size s1 < 2 ^ 31"
      using c1 by (auto simp: sr_core_def sr_sizes_def)
    have h: "?h \<le> max_window_size s1" using half_le [OF sz(1)] sz(2) by linarith
    then have "?h < 2 ^ 31" using sz(3) by linarith
    then have "sr_send_packet a s = Inr (shrunk ?h s1)"
      using t True shrink_window_eq [OF c1] by (simp add: sr_send_packet_def)
    moreover have "acked_at (shrunk ?h s1) = acked_at s"
      using ac by (simp add: shrunk_def Let_def acked_at_def fun_eq_iff)
    moreover have "wnd_mutex (shrunk ?h s1) = wnd_mutex s"
      using wm by (simp add: shrunk_def Let_def)
    moreover have "window (shrunk ?h s1) \<noteq> [] \<and> hd (window (shrunk ?h s1)) = hd (window s)"
      using ne f by (auto simp: shrunk_def Let_def hd_take)
    ultimately show ?thesis using shrunk_core [OF c1 h] by blast
  qed
qed


section \<open>Taking the next packet\<close>

lemma coreE:
  assumes "sr_core ds R s"
  obtains dd dw rest where "payloads_ok ds" "sr_layout ds dd dw rest s"
    "\<forall>i. 1 \<le> i \<and> i \<le> length dd \<longrightarrow> R i"
    "\<forall>j < length dw. acked_at s (in_flight s ! j) \<longrightarrow> R (Suc (length dd + j))"
    "\<forall>x \<in> set (sent s). \<exists>i. 1 \<le> i \<and> i \<le> length dd + length dw \<and> x = data_wire_of ds i"
  using assms by (auto simp: sr_core_def sr_data_def)

lemma acked_at_cell: "cells (mem s') a = cells (mem s) a \<Longrightarrow> acked_at s' a = acked_at s a"
  by (simp add: acked_at_def)

text \<open>A packet cut from the file joins the window, which has room for it.\<close>

lemma next_packet_core:
  assumes core: "sr_core ds R s" and aux: "aux_window s = []" and more: "has_next (pkt_builder s)"
    and room: "length (window s) < nat (window_size s)"
  shows "\<exists>a s1. next_packet s = Inr (a, s1) \<and> sr_core ds R (s1\<lparr>window := window s1 @ [a]\<rparr>) \<and>
    \<not> acked_at s1 a \<and> a \<notin> set (unacked_packets s1) \<and> window s1 = window s \<and>
    aux_window s1 = [] \<and> wnd_mutex s1 = wnd_mutex s \<and>
    (\<forall>b \<in> set (window s). acked_at s1 b = acked_at s b)"
proof -
  from core obtain dd dw rest where pay: "payloads_ok ds" and l: "sr_layout ds dd dw rest s" and
    R: "\<forall>i. 1 \<le> i \<and> i \<le> length dd \<longrightarrow> R i"
      "\<forall>j < length dw. acked_at s (in_flight s ! j) \<longrightarrow> R (Suc (length dd + j))" and
    log: "\<forall>x \<in> set (sent s). \<exists>i. 1 \<le> i \<and> i \<le> length dd + length dw \<and> x = data_wire_of ds i"
    by (rule coreE)
  let ?i = "Suc (length dd + length dw)" and ?b = "pkt_builder s"
  have bo: "builder_ok (mem s) ?i ?b rest" and so: "store_ok (mem s)" and
    rn: "run (mem s) (Suc (length dd)) (in_flight s) dw"
    using l by (simp_all add: sr_layout_def)
  have fl: "in_flight s = window s" using aux by (simp add: in_flight_def)
  have lw: "length (window s) = length dw" using layout_length [OF l] fl by simp
  from bo more have "rest \<noteq> []" by (simp add: builder_has_next)
  then obtain d rest' where rest: "rest = d # rest'" by (cases rest) auto
  with get_next_packet_ok [of "mem s" ?i ?b d rest'] bo so obtain a st' b' where
    g: "get_next_packet (seq_after ?i ?b) (mem s) ?b = Inr (a, seq_after (Suc ?i) b', st', b')" and
    b': "builder_ok st' (Suc ?i) b' rest'" and st': "store_ok st'" "grows (mem s) st'" and
    h: "holds st' a ?i d" "unacked_in st' [a]" "a \<notin> set (packets_read_queue b')" and
    sub: "set (a # packets_read_queue b') \<subseteq> set (packets_read_queue ?b) \<union> {next_addr (mem s)..}"
    by blast
  define nx where "nx = seq_after (Suc ?i) b'"
  let ?s1 = "s\<lparr>next_seq_number := nx, mem := st', pkt_builder := b'\<rparr>"
  let ?s2 = "?s1\<lparr>window := window s @ [a]\<rparr>"
  have np: "next_packet s = Inr (a, ?s1)"
    using l g by (simp add: next_packet_def sr_layout_def nx_def)
  have cell: "cells st' b = cells (mem s) b" if "b \<in> set (window s)" for b
    using that st'(2) run_less [OF so rn] fl by (auto simp: grows_def)
  have disj: "set (window s) \<inter> set (a # packets_read_queue b') = {}"
    using sub l run_less [OF so rn] fl by (fastforce simp: sr_layout_def)
  have na: "\<not> acked_at ?s1 a"
    using h(1,2) by (auto simp: acked_at_def unacked_in_def holds_def)
  have nu: "a \<notin> set (unacked_packets s)"
    using core disj by (auto simp: sr_core_def sr_timed_def)
  have ac: "acked_at ?s2 b = acked_at s b" if "b \<in> set (window s)" for b
    by (rule acked_at_cell) (simp add: cell [OF that])
  have fl2: "in_flight ?s2 = window s @ [a]" using aux by (simp add: in_flight_def)
  have "run st' (Suc (length dd)) (window s @ [a]) (dw @ [d])"
    by (rule run_appendI) (use rn cell h(1) lw fl in \<open>auto intro: run_cong\<close>)
  then have l2: "sr_layout ds dd (dw @ [d]) rest' ?s2"
    unfolding sr_layout_def fl2 using l rest b' st'(1) disj h(3) fl builder_ok_def [of st' "Suc ?i" b' rest']
    by (auto simp: sr_layout_def nx_def)
  have R2: "\<forall>j < length (dw @ [d]). acked_at ?s2 (in_flight ?s2 ! j) \<longrightarrow> R (Suc (length dd + j))"
  proof (intro allI impI)
    fix j
    assume j: "j < length (dw @ [d])" and aj: "acked_at ?s2 (in_flight ?s2 ! j)"
    have "j \<noteq> length dw"
    proof
      assume "j = length dw"
      then have "in_flight ?s2 ! j = a" using lw by (simp add: fl2 nth_append)
      with aj na show False by (simp add: acked_at_def)
    qed
    with j have j': "j < length dw" by simp
    then have "in_flight ?s2 ! j = in_flight s ! j" and "in_flight s ! j \<in> set (window s)"
      using lw by (simp_all add: fl2 fl nth_append)
    with aj ac have "acked_at s (in_flight s ! j)" by simp
    with R(2) j' show "R (Suc (length dd + j))" by blast
  qed
  have "\<forall>x \<in> set (sent ?s2). \<exists>i. 1 \<le> i \<and> i \<le> length dd + length (dw @ [d]) \<and> x = data_wire_of ds i"
    using log by fastforce
  with l2 R(1) R2 have "sr_data ds R ?s2" unfolding sr_data_def by blast
  moreover have "sr_timed ?s2"
  proof -
    have t: "sr_timed s" using core by (simp add: sr_core_def)
    have "stamp ?s2 b = stamp s b" if "b \<in> set (window s)" for b
      by (simp add: stamp_def cell [OF that])
    with t have "sorted_by (stamp ?s2) (unacked_packets s) = sorted_by (stamp s) (unacked_packets s)"
      by (intro sorted_by_cong) (auto simp: sr_timed_def)
    with t ac show ?thesis by (auto simp: sr_timed_def)
  qed
  moreover have "sr_sizes ?s2" using core room by (simp add: sr_core_def sr_sizes_def)
  ultimately have "sr_core ds R ?s2" using core by (simp add: sr_core_def)
  with np na nu aux ac show ?thesis
    by (intro exI [of _ a] exI [of _ ?s1]) (auto simp: acked_at_def)
qed


lemma set_packet_eq:
  "cells (mem s) a = Some p \<Longrightarrow>
   set_packet a f s = Inr (s\<lparr>mem := (mem s)\<lparr>cells := (cells (mem s))(a \<mapsto> f p)\<rparr>\<rparr>)"
  by (simp add: set_packet_def update_def deref_def)

text \<open>Clearing the flag of a packet keeps the invariant.\<close>

lemma clear_ack_core:
  assumes core: "sr_core ds R s" and a: "a \<in> set (in_flight s)" and c: "cells (mem s) a = Some p"
  shows "sr_core ds R (s\<lparr>mem := (mem s)\<lparr>cells := (cells (mem s))(a \<mapsto> set_ack False p)\<rparr>\<rparr>)"
    (is "sr_core ds R ?s")
proof -
  from core obtain dd dw rest where l: "sr_layout ds dd dw rest s" and
    R: "\<forall>i. 1 \<le> i \<and> i \<le> length dd \<longrightarrow> R i"
      "\<forall>j < length dw. acked_at s (in_flight s ! j) \<longrightarrow> R (Suc (length dd + j))" and
    log: "\<forall>x \<in> set (sent s). \<exists>i. 1 \<le> i \<and> i \<le> length dd + length dw \<and> x = data_wire_of ds i"
    by (rule coreE)
  have ac: "acked_at ?s b \<Longrightarrow> acked_at s b" for b
    by (auto simp: acked_at_def set_ack_def split: if_splits)
  have st: "stamp ?s = stamp s"
    using c by (auto simp: stamp_def fun_eq_iff set_ack_def)
  have "sr_layout ds dd dw rest ?s"
    by (rule sr_layout_update [OF l _ a c]) (simp_all add: in_flight_def)
  then have "sr_data ds R ?s"
    unfolding sr_data_def using R log ac by (intro exI conjI) (auto simp: in_flight_def)
  moreover have "sr_timed ?s"
    using core ac by (auto simp: sr_core_def sr_timed_def st)
  ultimately show ?thesis using core by (simp add: sr_core_def sr_sizes_def)
qed

text \<open>
  One round of \<open>expand_window\<close> before the transmission: the packet comes from the auxiliary
  window or the file, with its flag cleared, and is last in the window.
\<close>

lemma take_next_core:
  assumes core: "sr_core ds R s" and more: "aux_window s \<noteq> [] \<or> has_next (pkt_builder s)"
    and room: "length (window s) < nat (window_size s)"
  shows "\<exists>a s1 s2. next_to_send s = Inr (a, s1) \<and> set_packet a (set_ack False) s1 = Inr s2 \<and>
    sr_core ds R (s2\<lparr>window := window s2 @ [a]\<rparr>) \<and> \<not> acked_at s2 a \<and>
    a \<notin> set (unacked_packets s2) \<and> window s2 = window s \<and> wnd_mutex s2 = wnd_mutex s \<and>
    (\<forall>b \<in> set (window s). acked_at s2 b = acked_at s b)"
proof -
  have step: "\<exists>s2. set_packet a (set_ack False) s1 = Inr s2 \<and>
      sr_core ds R (s2\<lparr>window := window s2 @ [a]\<rparr>) \<and> \<not> acked_at s2 a \<and>
      unacked_packets s2 = unacked_packets s1 \<and> window s2 = window s1 \<and>
      wnd_mutex s2 = wnd_mutex s1 \<and> (\<forall>b. b \<noteq> a \<longrightarrow> acked_at s2 b = acked_at s1 b)"
    if c: "sr_core ds R (s1\<lparr>window := window s1 @ [a]\<rparr>)" for a s1
  proof -
    let ?w = "s1\<lparr>window := window s1 @ [a]\<rparr>"
    have a: "a \<in> set (in_flight ?w)" by (simp add: in_flight_def)
    then have "all_live [a] ?w" by (intro core_live [OF c]) simp
    then obtain p where p: "cells (mem s1) a = Some p" by (auto simp: all_live_def)
    let ?s2 = "s1\<lparr>mem := (mem s1)\<lparr>cells := (cells (mem s1))(a \<mapsto> set_ack False p)\<rparr>\<rparr>"
    have c2: "sr_core ds R (?w\<lparr>mem := (mem ?w)\<lparr>cells := (cells (mem ?w))(a \<mapsto> set_ack False p)\<rparr>\<rparr>)"
      by (rule clear_ack_core [OF c a]) (simp add: p)
    have eq: "?w\<lparr>mem := (mem ?w)\<lparr>cells := (cells (mem ?w))(a \<mapsto> set_ack False p)\<rparr>\<rparr>
        = ?s2\<lparr>window := window ?s2 @ [a]\<rparr>"
      by simp
    show ?thesis
      using set_packet_eq [of s1 a p "set_ack False"] p c2 [unfolded eq]
      by (intro exI [of _ ?s2]) (auto simp: acked_at_def set_ack_def)
  qed
  show ?thesis
  proof (cases "aux_window s")
    case (Cons a as)
    let ?s1 = "s\<lparr>aux_window := as\<rparr>"
    let ?w = "?s1\<lparr>window := window s @ [a]\<rparr>"
    have fl: "in_flight ?w = in_flight s" using Cons by (simp add: in_flight_def)
    have "sr_data ds R ?w = sr_data ds R s" by (rule sr_data_cong) (simp_all add: fl)
    moreover have "sr_timed ?w"
      using core by (auto simp: sr_core_def sr_timed_def acked_at_def stamp_def [abs_def])
    moreover have "sr_sizes ?w" using core room by (simp add: sr_core_def sr_sizes_def)
    ultimately have "sr_core ds R (?s1\<lparr>window := window ?s1 @ [a]\<rparr>)"
      using core by (simp add: sr_core_def)
    from step [OF this] obtain s2 where "set_packet a (set_ack False) ?s1 = Inr s2"
      and "sr_core ds R (s2\<lparr>window := window s2 @ [a]\<rparr>)" and "\<not> acked_at s2 a"
      and "unacked_packets s2 = unacked_packets s" "window s2 = window s" "wnd_mutex s2 = wnd_mutex s"
      and ac: "\<forall>b. b \<noteq> a \<longrightarrow> acked_at s2 b = acked_at ?s1 b"
      by auto
    moreover have "a \<notin> set (window s)"
      using core Cons by (auto elim!: coreE simp: sr_layout_def in_flight_def)
    moreover from this have "a \<notin> set (unacked_packets s)"
      using core by (auto simp: sr_core_def sr_timed_def)
    ultimately show ?thesis using Cons
      by (intro exI [of _ a] exI [of _ ?s1] exI [of _ s2])
         (auto simp: next_to_send_def acked_at_def)
  next
    case Nil
    with next_packet_core [OF core Nil _ room] more obtain a s1 where
      n: "next_packet s = Inr (a, s1)" "sr_core ds R (s1\<lparr>window := window s1 @ [a]\<rparr>)"
        "a \<notin> set (unacked_packets s1)" "window s1 = window s" "wnd_mutex s1 = wnd_mutex s" and
      ac: "\<forall>b \<in> set (window s). acked_at s1 b = acked_at s b" and na: "\<not> acked_at s1 a"
      by auto
    from step [OF n(2)] obtain s2 where s2: "set_packet a (set_ack False) s1 = Inr s2"
      "sr_core ds R (s2\<lparr>window := window s2 @ [a]\<rparr>)" "\<not> acked_at s2 a"
      "unacked_packets s2 = unacked_packets s1" "window s2 = window s1" "wnd_mutex s2 = wnd_mutex s1"
      "\<forall>b. b \<noteq> a \<longrightarrow> acked_at s2 b = acked_at s1 b"
      by auto
    have "acked_at s2 b = acked_at s b" if "b \<in> set (window s)" for b
      using that s2(3,7) ac na by (cases "b = a") auto
    with n s2 Nil show ?thesis
      by (intro exI [of _ a] exI [of _ s1] exI [of _ s2]) (simp add: next_to_send_def)
  qed
qed


section \<open>Expanding\<close>

lemma core_window_open: "sr_core ds R s \<Longrightarrow> window_open s \<longleftrightarrow> length (window s) < nat (window_size s)"
  by (simp add: window_open_def sr_core_def sr_sizes_def)

definition settled :: "rdt_strategy \<Rightarrow> bool" where
  "settled s \<longleftrightarrow> (window s = [] \<longrightarrow> aux_window s = [] \<and> \<not> has_next (pkt_builder s))"

lemma expand_window_core:
  "sr_core ds R s \<Longrightarrow> front_ok s \<Longrightarrow>
   \<exists>s'. expand_window s = Inr s' \<and> sr_core ds R s' \<and> front_ok s' \<and> settled s' \<and>
     wnd_mutex s' = wnd_mutex s"
proof (induction s rule: expand_window.induct)
  case (1 s)
  note core = "1.prems"(1)
  show ?case
  proof (cases "window_open s \<and> (aux_window s \<noteq> [] \<or> has_next (pkt_builder s))")
    case False
    have "settled s"
      using False core_window_open [OF core] core
      by (auto simp: settled_def sr_core_def sr_sizes_def)
    moreover have "expand_window s = Inr s"
      using False by (subst expand_window.simps) (simp only: if_False)
    ultimately show ?thesis using "1.prems" by simp
  next
    case True
    with core_window_open [OF core] have room: "length (window s) < nat (window_size s)" by simp
    from True have more: "aux_window s \<noteq> [] \<or> has_next (pkt_builder s)" by simp
    obtain a s1 s2 where n: "next_to_send s = Inr (a, s1)" and p: "set_packet a (set_ack False) s1 = Inr s2" and
      c2: "sr_core ds R (s2\<lparr>window := window s2 @ [a]\<rparr>)" and na: "\<not> acked_at s2 a" and
      nu: "a \<notin> set (unacked_packets s2)" and w2: "window s2 = window s" "wnd_mutex s2 = wnd_mutex s" and
      ac: "\<forall>b \<in> set (window s). acked_at s2 b = acked_at s b"
      using take_next_core [OF core more room] by blast
    let ?w = "s2\<lparr>window := window s2 @ [a]\<rparr>"
    have aw: "acked_at ?w = acked_at s2" by (simp add: acked_at_def fun_eq_iff)
    obtain s3 where s: "sr_send_packet a ?w = Inr s3" and c3: "sr_core ds R s3" and
      a3: "acked_at s3 = acked_at ?w" "wnd_mutex s3 = wnd_mutex ?w" "window s3 \<noteq> []"
        "hd (window s3) = hd (window ?w)"
      using sr_send_packet_core [OF c2, of a] na nu aw by auto
    have "front_ok s3"
      using "1.prems"(2) na ac a3 aw w2(1) by (cases "window s") (auto simp: front_ok_def)
    moreover have "sr_send_packet (fst (a, s1)) (s2\<lparr>window := window s2 @ [fst (a, s1)]\<rparr>) = Inr s3"
      using s by simp
    ultimately have "\<exists>s'. expand_window s3 = Inr s' \<and> sr_core ds R s' \<and> front_ok s' \<and> settled s' \<and>
        wnd_mutex s' = wnd_mutex s3"
      using "1.IH" [OF True n, of s2] p c3 by simp
    moreover have "expand_window s = expand_window s3"
      using True n p s by (subst expand_window.simps) simp
    ultimately show ?thesis using a3(2) w2(2) by simp
  qed
qed

section \<open>Advancing\<close>

lemma free_run:
  "run st i as ds \<Longrightarrow> a \<notin> set as \<Longrightarrow> run (st\<lparr>cells := (cells st)(a := None)\<rparr>) i as ds"
  by (erule run_cong) auto

lemma free_builder_ok:
  "builder_ok st i b ds \<Longrightarrow> a \<notin> set (packets_read_queue b) \<Longrightarrow>
   builder_ok (st\<lparr>cells := (cells st)(a := None)\<rparr>) i b ds"
  by (auto simp: builder_ok_def unacked_in_def intro!: free_run)

text \<open>Popping an acknowledged packet at the front, deleting and counting it.\<close>

lemma pop_core:
  assumes core: "sr_core ds R s" and w: "window s = a # as" and ak: "acked_at s a"
  shows "\<exists>s1. delete_packet a (s\<lparr>window := as\<rparr>) = Inr s1 \<and>
    sr_core ds R (s1\<lparr>packets_sent := packets_sent s1 + 1\<rparr>) \<and> window s1 = as \<and>
    wnd_mutex s1 = wnd_mutex s \<and> packets_sent s1 = packets_sent s"
proof -
  from core obtain dd dw rest where l: "sr_layout ds dd dw rest s" and
    R: "\<forall>i. 1 \<le> i \<and> i \<le> length dd \<longrightarrow> R i"
      "\<forall>j < length dw. acked_at s (in_flight s ! j) \<longrightarrow> R (Suc (length dd + j))" and
    log: "\<forall>x \<in> set (sent s). \<exists>i. 1 \<le> i \<and> i \<le> length dd + length dw \<and> x = data_wire_of ds i"
    by (rule coreE)
  have fl: "in_flight s = a # as @ aux_window s" using w by (simp add: in_flight_def)
  obtain d dw' where dw: "dw = d # dw'" using layout_length [OF l] fl by (cases dw) auto
  have live: "cells (mem s) a \<noteq> None"
    using core_live [OF core, of "[a]"] fl by (auto simp: all_live_def)
  let ?st = "(mem s)\<lparr>cells := (cells (mem s))(a := None)\<rparr>"
  let ?s0 = "s\<lparr>window := as, mem := ?st\<rparr>"
  let ?s1 = "?s0\<lparr>packets_sent := packets_sent s + 1\<rparr>"
  have del: "delete_packet a (s\<lparr>window := as\<rparr>) = Inr ?s0"
    using live by (auto simp: delete_packet_def free_def deref_def)
  have other: "acked_at ?s1 b = acked_at s b" "stamp ?s1 b = stamp s b" if "b \<noteq> a" for b
    using that by (simp_all add: acked_at_def stamp_def)
  have fl2: "in_flight ?s1 = as @ aux_window s" by (simp add: in_flight_def)
  have dist: "a \<notin> set (as @ aux_window s)" "a \<notin> set (packets_read_queue (pkt_builder s))"
    using l fl by (auto simp: sr_layout_def)
  have rn: "run (mem s) (Suc (Suc (length dd))) (as @ aux_window s) dw'"
    using l fl dw by (simp add: sr_layout_def)
  have "sr_layout ds (dd @ [d]) dw' rest ?s1"
    unfolding sr_layout_def fl2
    using l fl dw free_run [OF rn dist(1)] free_builder_ok [OF _ dist(2)]
    by (auto simp: sr_layout_def store_ok_def)
  moreover have "\<forall>i. 1 \<le> i \<and> i \<le> length (dd @ [d]) \<longrightarrow> R i"
    using R(1) R(2) [rule_format, of 0] fl dw ak by (auto simp: le_Suc_eq)
  moreover have "\<forall>j < length dw'. acked_at ?s1 (in_flight ?s1 ! j) \<longrightarrow> R (Suc (length (dd @ [d]) + j))"
  proof (intro allI impI)
    fix j
    assume j: "j < length dw'" and aj: "acked_at ?s1 (in_flight ?s1 ! j)"
    have len: "length (as @ aux_window s) = length dw'" using run_length [OF rn] .
    then have "in_flight ?s1 ! j \<in> set (as @ aux_window s)"
      unfolding fl2 using j by (intro nth_mem) simp
    then have "in_flight ?s1 ! j \<noteq> a" using dist(1) by metis
    with aj have "acked_at s (in_flight s ! Suc j)" using other(1) by (simp add: fl fl2)
    then show "R (Suc (length (dd @ [d]) + j))" using R(2) [rule_format, of "Suc j"] j dw by simp
  qed
  moreover have "\<forall>x \<in> set (sent ?s1). \<exists>i. 1 \<le> i \<and> i \<le> length (dd @ [d]) + length dw' \<and> x = data_wire_of ds i"
    using log dw by simp
  ultimately have "sr_data ds R ?s1" unfolding sr_data_def by blast
  moreover have "sr_timed ?s1"
  proof -
    have t: "sr_timed s" using core by (simp add: sr_core_def)
    then have na: "a \<notin> set (unacked_packets s)" using ak by (auto simp: sr_timed_def)
    then have "sorted_by (stamp ?s1) (unacked_packets s) = sorted_by (stamp s) (unacked_packets s)"
      by (intro sorted_by_cong other(2)) auto
    with t na w other show ?thesis by (fastforce simp: sr_timed_def)
  qed
  moreover have "sr_sizes ?s1" using core w by (simp add: sr_core_def sr_sizes_def)
  ultimately have "sr_core ds R ?s1" using core by (simp add: sr_core_def)
  with del show ?thesis by (intro exI [of _ ?s0]) simp
qed

lemma sr_advance_core:
  "sr_core ds R s \<Longrightarrow> window s = as \<Longrightarrow>
   \<exists>s'. sr_advance_loop as s = Inr s' \<and> sr_core ds R s' \<and> front_ok s' \<and> wnd_mutex s' = wnd_mutex s"
proof (induction as arbitrary: s)
  case Nil
  then show ?case by (simp add: front_ok_def)
next
  case (Cons a as)
  have "all_live [a] s" by (rule core_live [OF Cons.prems(1)]) (simp add: in_flight_def Cons.prems)
  then obtain p where p: "packet_at a s = Inr p" "acked p = acked_at s a"
    by (auto simp: all_live_def packet_at_def deref_def acked_at_def)
  show ?case
  proof (cases "acked_at s a")
    case False
    then show ?thesis using Cons.prems p by (simp add: front_ok_def)
  next
    case True
    obtain s1 where s1: "delete_packet a (s\<lparr>window := as\<rparr>) = Inr s1" "window s1 = as" "wnd_mutex s1 = wnd_mutex s"
      and c: "sr_core ds R (s1\<lparr>packets_sent := packets_sent s1 + 1\<rparr>)" (is "sr_core ds R ?s2")
      using pop_core [OF Cons.prems True] by blast
    from Cons.IH [OF c] s1 True p show ?thesis by simp
  qed
qed


section \<open>Acknowledging\<close>

lemma find_seqno_succeeds: "all_live as s \<Longrightarrow> \<exists>r. find_seqno n i as s = Inr r"
  by (induction as arbitrary: i) (auto simp: all_live_def packet_at_def deref_def)

lemma find_seqno_Some:
  "find_seqno n i as s = Inr (Some (k, a)) \<Longrightarrow>
   i \<le> k \<and> k - i < length as \<and> a = as ! (k - i) \<and> seqno (the (cells (mem s) a)) = n"
proof (induction as arbitrary: i)
  case (Cons b as)
  then obtain p where p: "packet_at b s = Inr p" and
    r: "(if n = seqno p then Inr (Some (i, b)) else find_seqno n (Suc i) as s) = Inr (Some (k, a))"
    by (auto simp: rbind_Inr_iff)
  show ?case
  proof (cases "n = seqno p")
    case True
    then show ?thesis using p r by (auto simp: packet_at_def deref_def split: option.splits)
  next
    case False
    then have "Suc i \<le> k \<and> k - Suc i < length as \<and> a = as ! (k - Suc i) \<and> seqno (the (cells (mem s) a)) = n"
      using r by (intro Cons.IH) simp
    then show ?thesis by (auto simp: Suc_le_eq nth_Cons' Suc_diff_Suc)
  qed
qed simp

text \<open>Marking a packet acknowledged, and taking it off the timer's set.\<close>

lemma mark_acked_core:
  assumes core: "sr_core ds R s" and a: "a \<in> set (window s)"
    and r: "R (unat (seqno (the (cells (mem s) a))))"
  shows "\<exists>s1 s2. set_packet a (set_ack True) s = Inr s1 \<and> locked_erase_unacked a s1 = Inr s2 \<and>
    sr_core ds R s2 \<and> window s2 = window s \<and> wnd_mutex s2 = wnd_mutex s \<and>
    acked_at s2 a \<and> (\<forall>b. b \<noteq> a \<longrightarrow> acked_at s2 b = acked_at s b)"
proof -
  from core obtain dd dw rest where pay: "payloads_ok ds" and l: "sr_layout ds dd dw rest s" and
    R: "\<forall>i. 1 \<le> i \<and> i \<le> length dd \<longrightarrow> R i"
      "\<forall>j < length dw. acked_at s (in_flight s ! j) \<longrightarrow> R (Suc (length dd + j))" and
    log: "\<forall>x \<in> set (sent s). \<exists>i. 1 \<le> i \<and> i \<le> length dd + length dw \<and> x = data_wire_of ds i"
    by (rule coreE)
  have af: "a \<in> set (in_flight s)" using a by (simp add: in_flight_def)
  obtain p where p: "cells (mem s) a = Some p"
    using core_live [OF core, of "[a]"] af by (auto simp: all_live_def)
  let ?s1 = "s\<lparr>mem := (mem s)\<lparr>cells := (cells (mem s))(a \<mapsto> set_ack True p)\<rparr>\<rparr>"
  let ?s2 = "?s1\<lparr>unacked_packets := set_erase (by_key (stamp s)) a (unacked_packets s)\<rparr>"
  have st: "stamp ?s1 = stamp s" "stamp ?s2 = stamp s"
    using p by (auto simp: stamp_def fun_eq_iff set_ack_def)
  have t: "sr_timed s" using core by (simp add: sr_core_def)
  then have so: "sorted_by (stamp s) (unacked_packets s)" by (simp add: sr_timed_def)
  have 1: "set_packet a (set_ack True) s = Inr ?s1" using p by (rule set_packet_eq)
  have "all_live (a # unacked_packets s) s"
    by (rule core_live [OF core]) (use t af in \<open>auto simp: sr_timed_def in_flight_def\<close>)
  then have "locked_erase_unacked a ?s1
      = Inr (?s1\<lparr>unacked_packets := set_erase (by_key (stamp ?s1)) a (unacked_packets ?s1)\<rparr>)"
    using core by (intro locked_erase_eq) (auto simp: all_live_def sr_core_def)
  then have 2: "locked_erase_unacked a ?s1 = Inr ?s2" unfolding st by simp
  have ac: "acked_at ?s2 b = (b = a \<or> acked_at s b)" for b
    by (simp add: acked_at_def set_ack_def)
  have "sr_timed ?s2"
    unfolding sr_timed_def st
  proof (intro conjI ballI)
    show "set (unacked_packets ?s2) \<subseteq> set (window ?s2)"
      using t cxx_set.del_subset [OF so, of a] by (auto simp: sr_timed_def)
    show "sorted_by (stamp s) (unacked_packets ?s2)" using cxx_set.ok_del [OF so, of a] by simp
    fix b
    assume "b \<in> set (unacked_packets ?s2)"
    then have "b \<in> set (unacked_packets s)" "b \<noteq> a"
      using cxx_set.del_subset [OF so, of a] cxx_set.del_self [OF so, of a] by auto
    then show "\<not> acked_at ?s2 b" unfolding ac using t by (simp add: sr_timed_def)
  qed
  moreover have l2: "sr_layout ds dd dw rest ?s2"
    by (rule sr_layout_update [OF l _ af p]) (simp_all add: in_flight_def)
  moreover have "\<forall>j < length dw. acked_at ?s2 (in_flight ?s2 ! j) \<longrightarrow> R (Suc (length dd + j))"
  proof (intro allI impI)
    fix j
    assume j: "j < length dw" and "acked_at ?s2 (in_flight ?s2 ! j)"
    then have "in_flight s ! j = a \<or> acked_at s (in_flight s ! j)"
      by (simp add: ac in_flight_def)
    then show "R (Suc (length dd + j))"
    proof
      assume ja: "in_flight s ! j = a"
      obtain q where "cells (mem s) (in_flight s ! j) = Some q" "seqno q = of_nat (Suc (length dd + j))"
        using layout_packet [OF pay l j] by metis
      then have "unat (seqno (the (cells (mem s) a))) = unat (of_nat (Suc (length dd + j)) :: 32 word)"
        using ja by simp
      also have "\<dots> = Suc (length dd + j)"
        using layout_bound [OF pay l] j by (intro unat_of_nat_32) simp
      finally show ?thesis using r by simp
    qed (use R(2) j in blast)
  qed
  moreover have "\<forall>x \<in> set (sent ?s2). \<exists>i. 1 \<le> i \<and> i \<le> length dd + length dw \<and> x = data_wire_of ds i"
    using log by simp
  ultimately have "sr_data ds R ?s2" and "sr_timed ?s2"
    unfolding sr_data_def using R(1) by blast+
  then have "sr_core ds R ?s2"
    using core by (simp add: sr_core_def sr_sizes_def)
  with 1 2 ac show ?thesis by (intro exI [of _ ?s1] exI [of _ ?s2]) simp
qed

lemma adjust_core: "sr_core ds R s \<Longrightarrow> sr_core ds R (adjust_window_size s)"
proof -
  assume core: "sr_core ds R s"
  let ?s = "adjust_window_size s"
  have "window_size s \<le> window_size ?s" "window_size ?s \<le> max_window_size s"
    using core by (auto simp: adjust_window_size_def Let_def sr_core_def sr_sizes_def)
  then have "sr_sizes ?s"
    using core by (auto simp: sr_core_def sr_sizes_def adjust_window_size_def Let_def)
  moreover have "sr_data ds R ?s = sr_data ds R s"
    by (rule sr_data_cong) (simp_all add: adjust_window_size_def Let_def in_flight_def)
  moreover have "sr_timed ?s = sr_timed s"
    by (simp add: sr_timed_def adjust_window_size_def Let_def stamp_def [abs_def] acked_at_def)
  ultimately show ?thesis using core by (simp add: sr_core_def adjust_window_size_def Let_def)
qed

lemma sr_ack_found_core:
  assumes core: "sr_core ds R s" and f: "front_ok s" and i: "i < length (window s)" "a = window s ! i"
    and r: "R (unat (seqno (the (cells (mem s) a))))"
  shows "\<exists>s'. sr_ack_found i a s = Inr s' \<and> sr_core ds R s' \<and> front_ok s' \<and> settled s' \<and>
    wnd_mutex s' = wnd_mutex s"
proof -
  have a: "a \<in> set (window s)" using i by simp
  have "all_live [a] s" by (rule core_live [OF core]) (use a in \<open>simp add: in_flight_def\<close>)
  then obtain p where p: "packet_at a s = Inr p" "acked p = acked_at s a"
    by (auto simp: all_live_def packet_at_def deref_def acked_at_def)
  show ?thesis
  proof (cases "acked_at s a")
    case True
    then have "sr_ack_found i a s = Inr s" using p by (simp add: sr_ack_found_def)
    moreover have "settled s" using i by (auto simp: settled_def)
    ultimately show ?thesis using core f by simp
  next
    case False
    obtain s1 s2 where s2: "set_packet a (set_ack True) s = Inr s1" "locked_erase_unacked a s1 = Inr s2"
      "sr_core ds R s2" "window s2 = window s" "wnd_mutex s2 = wnd_mutex s"
      "\<forall>b. b \<noteq> a \<longrightarrow> acked_at s2 b = acked_at s b"
      using mark_acked_core [of ds R s a, OF core a r] by blast
    have "\<exists>s3. (if i = 0 then sr_advance_window s2 else Inr s2) = Inr s3 \<and> sr_core ds R s3 \<and> front_ok s3 \<and>
        wnd_mutex s3 = wnd_mutex s2"
    proof (cases "i = 0")
      case True
      then show ?thesis using sr_advance_core [OF s2(3) refl] by (simp add: sr_advance_window_def)
    next
      case False
      have "distinct (window s)" using core by (auto elim!: coreE simp: sr_layout_def in_flight_def)
      then have "hd (window s) \<noteq> a"
        using i False by (metis gr_zeroI hd_conv_nth length_0_conv not_less0 nth_eq_iff_index_eq)
      then have "front_ok s2" using f s2(4,6) by (simp add: front_ok_def)
      then show ?thesis using False s2(3) by simp
    qed
    then obtain s3 where s3: "(if i = 0 then sr_advance_window s2 else Inr s2) = Inr s3"
      "sr_core ds R s3" "front_ok s3" "wnd_mutex s3 = wnd_mutex s2" by blast
    have "front_ok (adjust_window_size s3)" and "wnd_mutex (adjust_window_size s3) = wnd_mutex s3"
      using s3(3) by (simp_all add: front_ok_def adjust_window_size_def Let_def acked_at_def)
    with expand_window_core [OF adjust_core [OF s3(2)]] obtain s' where
      "expand_window (adjust_window_size s3) = Inr s'" "sr_core ds R s'" "front_ok s'" "settled s'"
      "wnd_mutex s' = wnd_mutex s3" by auto
    then show ?thesis using False p s2 s3 by (simp add: sr_ack_found_def)
  qed
qed

text \<open>
  \<open>acknowledge_packet\<close> does not fail and keeps the invariant, if what an intact
  acknowledgement says has been received has been.
\<close>

lemma sr_inv_settled: "sr_inv ds R s \<longleftrightarrow> sr_core ds R s \<and> front_ok s \<and> settled s \<and> \<not> wnd_mutex s"
  by (auto simp: sr_inv_def settled_def)

lemma sr_acknowledge_inv:
  assumes inv: "sr_inv ds R s"
    and r: "ack_cksum a = checksum_of (ack_len a) (ackno a) [] \<Longrightarrow> R (unat (ackno a))"
  shows "\<exists>s'. sr_acknowledge_packet a s = Inr s' \<and> sr_inv ds R s'"
proof -
  let ?h = "s\<lparr>window_size_history := window_size_history s @ [window_size s]\<rparr>"
  let ?s = "?h\<lparr>wnd_mutex := True\<rparr>"
  have ch: "sr_core ds R ?h = sr_core ds R s" "sr_core ds R ?s = sr_core ds R s"
    by (rule core_cong; simp)+
  have fs: "front_ok ?h = front_ok s" "front_ok ?s = front_ok s" "settled ?h = settled s" "settled ?s = settled s"
    by (simp_all add: front_ok_def acked_at_def settled_def)
  show ?thesis
  proof (cases "ack_cksum a = checksum_of (ack_len a) (ackno a) []")
    case False
    then show ?thesis using inv ch fs
      by (intro exI [of _ ?h]) (auto simp: sr_acknowledge_packet_def calculate_ack_checksum_eq sr_inv_settled)
  next
    case True
    have core: "sr_core ds R ?s" and front: "front_ok ?s" and set: "settled ?s" and wm: "\<not> wnd_mutex s"
      using inv ch fs by (auto simp: sr_inv_settled)
    have live: "all_live (window ?s) ?s" by (rule core_live [OF core]) (auto simp: in_flight_def)
    from find_seqno_succeeds [OF live, of "ackno a" 0] obtain res where
      fr: "find_seqno (ackno a) 0 (window ?s) ?s = Inr res" by blast
    have "\<exists>s'. (case res of None \<Rightarrow> Inr ?s | Some (i, b) \<Rightarrow> sr_ack_found i b ?s) = Inr s' \<and>
        sr_core ds R s' \<and> front_ok s' \<and> settled s'"
    proof (cases res)
      case None
      then show ?thesis using core front set by simp
    next
      case (Some kb)
      obtain k b where kb: "kb = (k, b)" by (cases kb)
      with Some fr have "find_seqno (ackno a) 0 (window ?s) ?s = Inr (Some (k, b))" by simp
      from find_seqno_Some [OF this] have k: "k < length (window ?s)" "b = window ?s ! k"
        and n: "seqno (the (cells (mem ?s) b)) = ackno a" by auto
      have "R (unat (seqno (the (cells (mem ?s) b))))" unfolding n using r [OF True] .
      from sr_ack_found_core [OF core front k this] show ?thesis using Some kb by auto
    qed
    then obtain s' where s': "(case res of None \<Rightarrow> Inr ?s | Some (i, b) \<Rightarrow> sr_ack_found i b ?s) = Inr s'"
      "sr_core ds R s'" "front_ok s'" "settled s'" by blast
    have "sr_acknowledge_packet a s = Inr (unlock_wnd_mutex s')"
      using True wm fr s'(1)
      by (simp add: sr_acknowledge_packet_def calculate_ack_checksum_eq lock_wnd_mutex_def)
    moreover have "sr_core ds R (unlock_wnd_mutex s') = sr_core ds R s'"
      by (rule core_cong) (simp_all add: unlock_wnd_mutex_def)
    ultimately show ?thesis using s'
      by (auto simp: sr_inv_settled unlock_wnd_mutex_def front_ok_def settled_def acked_at_def)
  qed
qed


section \<open>The timer thread\<close>

lemma erase_core:
  assumes core: "sr_core ds R s"
  shows "sr_core ds R (s\<lparr>unacked_packets := set_erase (by_key (stamp s)) a (unacked_packets s)\<rparr>)"
    (is "sr_core ds R ?s")
proof -
  have t: "sr_timed s" using core by (simp add: sr_core_def)
  then have so: "sorted_by (stamp s) (unacked_packets s)" by (simp add: sr_timed_def)
  have "stamp ?s = stamp s" "acked_at ?s = acked_at s"
    by (simp_all add: stamp_def acked_at_def fun_eq_iff)
  then have "sr_timed ?s"
    using t cxx_set.del_subset [OF so, of a] cxx_set.ok_del [OF so, of a] by (auto simp: sr_timed_def)
  moreover have "sr_data ds R ?s = sr_data ds R s"
    by (rule sr_data_cong) (simp_all add: in_flight_def)
  ultimately show ?thesis using core by (simp add: sr_core_def sr_sizes_def)
qed

lemma sr_timer_erase_eq:
  assumes "sr_core ds R s" "sr_timer_erase a s = Inr s'"
  shows "s' = s\<lparr>unacked_packets := set_erase (by_key (stamp s)) a (unacked_packets s)\<rparr>"
  using assms
  by (cases s)
     (auto simp: sr_timer_erase_def lock_set_mutex_def erase_unacked_def unlock_set_mutex_def
        rbind_Inr_iff comparators_by_key stamp_def [abs_def] split: if_splits)

text \<open>The wnd_mutex critical section of a resend, from a non-empty window.\<close>

lemma sr_timer_resend_inv:
  assumes inv: "sr_inv ds R s" and ne: "window s \<noteq> []"
  shows "\<exists>s'. sr_timer_resend s = Inr s' \<and> sr_inv ds R s' \<and> hd (window s') = hd (window s)"
proof -
  let ?l = "s\<lparr>wnd_mutex := True\<rparr>"
  have "sr_core ds R ?l = sr_core ds R s" by (rule core_cong) simp_all
  then have core: "sr_core ds R ?l" using inv by (simp add: sr_inv_def)
  let ?k = "shrunk 1 ?l"
  have sh: "shrink_window 1 ?l = Inr ?k" by (rule shrink_window_eq [OF core]) simp
  have mx: "1 \<le> max_window_size ?l" using core by (simp add: sr_core_def sr_sizes_def)
  have ck: "sr_core ds R ?k" by (rule shrunk_core [OF core mx])
  obtain a as where w: "window s = a # as" using ne by (cases "window s") auto
  then have wk: "window ?k = [a]" by (simp add: shrunk_def Let_def)
  have na: "\<not> acked_at ?k a"
    using inv w by (simp add: sr_inv_def front_ok_def acked_at_def shrunk_def Let_def)
  have un: "set (unacked_packets ?k) \<subseteq> {a}" using ck wk by (simp add: sr_core_def sr_timed_def)
  obtain s3 where s3: "sr_send_packet a ?k = Inr s3" "sr_core ds R s3" "acked_at s3 = acked_at ?k"
    "window s3 \<noteq> []" "hd (window s3) = a"
    using sr_send_packet_core [OF ck, of a] wk na un by auto
  have "sr_timer_resend s = Inr (unlock_wnd_mutex s3)"
    using inv sh wk s3(1) by (simp add: sr_timer_resend_def lock_wnd_mutex_def sr_inv_def)
  moreover have "sr_core ds R (unlock_wnd_mutex s3) = sr_core ds R s3"
    by (rule core_cong) (simp_all add: unlock_wnd_mutex_def)
  ultimately show ?thesis using s3 na w
    by (intro exI [of _ "unlock_wnd_mutex s3"])
       (auto simp: sr_inv_settled front_ok_def settled_def unlock_wnd_mutex_def acked_at_def [abs_def])
qed

text \<open>Every step the timer thread completes keeps the invariant, wherever it was.\<close>

lemma sr_inv_ticks: "sr_inv ds R (s\<lparr>ticks := n\<rparr>) = sr_inv ds R s"
proof -
  have "sr_core ds R (s\<lparr>ticks := n\<rparr>) = sr_core ds R s" by (rule core_cong) simp_all
  then show ?thesis by (simp add: sr_inv_def front_ok_def acked_at_def)
qed

lemma sr_timer_step_inv:
  assumes inv: "sr_inv ds R s" and st: "sr_timer_step pc s = Inr (pc', s')"
  shows "sr_inv ds R s'"
proof (cases pc)
  case T_Loop
  then show ?thesis using st inv by simp
next
  case T_Begin
  then have "s' = s" using st by (auto simp: rbind_Inr_iff timer_first_Inr)
  then show ?thesis using inv by simp
next
  case (T_Compare a)
  then have "s' = s\<lparr>ticks := Suc (ticks s)\<rparr>" using st
    by (auto simp: timer_expired_def now_def Let_def rbind_Inr_iff split: if_splits)
  then show ?thesis using inv sr_inv_ticks by simp
next
  case (T_Erase a)
  then have "sr_timer_erase a s = Inr s'" using st by (auto simp: rbind_Inr_iff)
  moreover have core: "sr_core ds R s" using inv by (simp add: sr_inv_def)
  ultimately have "s' = s\<lparr>unacked_packets := set_erase (by_key (stamp s)) a (unacked_packets s)\<rparr>"
    by (intro sr_timer_erase_eq)
  then show ?thesis using erase_core [OF core, of a] inv
    by (simp add: sr_inv_def front_ok_def acked_at_def)
next
  case T_Print
  then have "s' = s" using st
    by (auto simp: sr_timer_print_def lock_wnd_mutex_def unlock_wnd_mutex_def rbind_Inr_iff
        wnd_mutex_False split: if_splits)
  then show ?thesis using inv by simp
next
  case T_Resend
  then have r: "sr_timer_resend s = Inr s'" using st by (auto simp: rbind_Inr_iff)
  have "window s \<noteq> []"
  proof
    assume w: "window s = []"
    from r obtain t where t: "shrink_window 1 (s\<lparr>wnd_mutex := True\<rparr>) = Inr t"
      and c: "(case window t of [] \<Rightarrow> Inl Empty_Container
        | a # _ \<Rightarrow> rbind (sr_send_packet a t) (\<lambda>s. Inr (unlock_wnd_mutex s))) = Inr s'"
      by (auto simp: sr_timer_resend_def lock_wnd_mutex_def rbind_Inr_iff split: if_splits)
    have "window t = []" using shrink_window_frame(2) [OF t] w by simp
    with c show False by simp
  qed
  from sr_timer_resend_inv [OF inv this] r show ?thesis by auto
qed


section \<open>Construction and start\<close>

lemma fill_window_core:
  "sr_core ds R s \<Longrightarrow> aux_window s = [] \<Longrightarrow> unacked_packets s = [] \<Longrightarrow>
   \<forall>a \<in> set (window s). \<not> acked_at s a \<Longrightarrow>
   \<exists>s'. fill_window s = Inr s' \<and> sr_core ds R s' \<and> unacked_packets s' = [] \<and> front_ok s' \<and>
     settled s' \<and> wnd_mutex s' = wnd_mutex s \<and> window_size s' = window_size s"
proof (induction s rule: fill_window.induct)
  case (1 s)
  note core = "1.prems"(1)
  show ?case
  proof (cases "window_open s \<and> has_next (pkt_builder s)")
    case False
    then have "fill_window s = Inr s" by (subst fill_window.simps) (simp only: if_False)
    moreover have "settled s"
      using False core_window_open [OF core] core "1.prems"(2)
      by (auto simp: settled_def sr_core_def sr_sizes_def)
    moreover have "front_ok s" using "1.prems"(4) by (simp add: front_ok_def)
    ultimately show ?thesis using "1.prems" by simp
  next
    case True
    then have room: "length (window s) < nat (window_size s)" using core_window_open [OF core] by simp
    obtain a s1 where n: "next_packet s = Inr (a, s1)" and c1: "sr_core ds R (s1\<lparr>window := window s1 @ [a]\<rparr>)"
      and a1: "\<not> acked_at s1 a" "window s1 = window s" "aux_window s1 = []" "wnd_mutex s1 = wnd_mutex s"
        "\<forall>b \<in> set (window s). acked_at s1 b = acked_at s b"
      using next_packet_core [OF core "1.prems"(2) _ room] True by blast
    let ?w = "s1\<lparr>window := window s1 @ [a]\<rparr>"
    note f = next_packet_frame [OF n]
    have "\<exists>s'. fill_window ?w = Inr s' \<and> sr_core ds R s' \<and> unacked_packets s' = [] \<and> front_ok s' \<and>
        settled s' \<and> wnd_mutex s' = wnd_mutex ?w \<and> window_size s' = window_size ?w"
      using "1.IH" [OF True n] c1 a1 f "1.prems" by (auto simp: acked_at_def)
    moreover have "fill_window s = fill_window ?w"
      using True n by (subst fill_window.simps) simp
    ultimately show ?thesis using f by simp
  qed
qed

lemma sr_start_loop_core:
  "sr_core ds R s \<Longrightarrow> front_ok s \<Longrightarrow> window s = as \<Longrightarrow> length as \<le> 1 \<Longrightarrow> unacked_packets s = [] \<Longrightarrow>
   \<exists>s'. sr_start_loop True as s = Inr s' \<and> sr_core ds R s' \<and> front_ok s' \<and> window s' = as \<and>
     wnd_mutex s' = wnd_mutex s \<and> (as \<noteq> [] \<longrightarrow> timer s')"
proof (cases as)
  case (Cons a bs)
  assume core: "sr_core ds R s" and f: "front_ok s" and w: "window s = as" and len: "length as \<le> 1"
    and u: "unacked_packets s = []"
  from Cons len have a: "as = [a]" by simp
  obtain s1 where s1: "sr_send_packet a s = Inr s1" "sr_core ds R s1" "acked_at s1 = acked_at s"
    "wnd_mutex s1 = wnd_mutex s" "window s1 \<noteq> []" "hd (window s1) = hd (window s)"
    using sr_send_packet_core [OF core, of a] f w a u by (auto simp: front_ok_def)
  have "length (window s1) \<le> length (window s)"
    using sr_send_packet_frame [OF s1(1)] by auto
  with s1(5,6) w a have w1: "window s1 = as" by (cases "window s1") auto
  let ?t = "s1\<lparr>timer := True\<rparr>"
  have "sr_core ds R ?t = sr_core ds R s1" by (rule core_cong) simp_all
  then show ?thesis using s1 w1 w a f
    by (intro exI [of _ ?t]) (simp add: front_ok_def acked_at_def [abs_def] fun_eq_iff)
qed (simp add: front_ok_def)

lemma sr_start_inv:
  assumes core: "sr_core ds R s" and f: "front_ok s" and set: "settled s" and wm: "\<not> wnd_mutex s"
    and len: "length (window s) \<le> 1" and u: "unacked_packets s = []"
  shows "\<exists>s'. sr_start s = Inr s' \<and> sr_inv ds R s' \<and> (window s' \<noteq> [] \<longrightarrow> timer s')"
proof -
  let ?n = "s\<lparr>ticks := Suc (ticks s), start_time_stamp := clock s (ticks s), wnd_mutex := True\<rparr>"
  have "sr_core ds R ?n = sr_core ds R s" by (rule core_cong) simp_all
  then have "sr_core ds R ?n" using core by simp
  moreover have "front_ok ?n" using f by (simp add: front_ok_def acked_at_def)
  ultimately obtain s1 where s1: "sr_start_loop True (window s) ?n = Inr s1" "sr_core ds R s1"
    "front_ok s1" "window s1 = window s" "window s \<noteq> [] \<longrightarrow> timer s1"
    using sr_start_loop_core [of ds R ?n "window s"] len u by auto
  have st: "sr_start s = Inr (unlock_wnd_mutex s1)"
    using wm s1(1) by (simp add: sr_start_def now_def lock_wnd_mutex_def)
  have "sr_core ds R (unlock_wnd_mutex s1) = sr_core ds R s1"
    by (rule core_cong) (simp_all add: unlock_wnd_mutex_def)
  moreover have "settled s1"
  proof (cases "window s = []")
    case True
    then have "s1 = ?n" using s1(1) by simp
    then show ?thesis using set by (simp add: settled_def)
  next
    case False
    then show ?thesis using s1(4) by (simp add: settled_def)
  qed
  ultimately show ?thesis using st s1
    by (intro exI [of _ "unlock_wnd_mutex s1"])
       (simp add: sr_inv_settled unlock_wnd_mutex_def front_ok_def settled_def acked_at_def [abs_def])
qed

text \<open>
  The whole start of a transfer: the constructor on a file, then \<open>start\<close>. \<open>usable\<close> collects
  what the configuration must satisfy.
\<close>

definition usable :: "path \<Rightarrow> (path \<rightharpoonup> byte list) \<Rightarrow> path \<Rightarrow> int \<Rightarrow> packet_sender \<Rightarrow> bool" where
  "usable cwd fs name mx link \<longleftrightarrow>
     length cwd < 200 \<and> 1 \<le> mx \<and> mx < 2 ^ 31 \<and> sender_ok link \<and>
     (case fs (c_str (cwd @ [47] @ name)) of
        None \<Rightarrow> False
      | Some contents \<Rightarrow> length (chunks contents) < 2 ^ 32 - 1)"

lemma fill_window_frame:
  "fill_window s = Inr s' \<Longrightarrow>
   sender s' = sender s \<and> max_window_size s' = max_window_size s \<and> aux_window s' = aux_window s \<and>
   sent s' = sent s"
proof (induction s rule: fill_window.induct)
  case (1 s)
  show ?case
  proof (cases "window_open s \<and> has_next (pkt_builder s)")
    case False
    then show ?thesis using "1.prems" by (subst (asm) fill_window.simps) (simp split: if_splits)
  next
    case True
    with "1.prems" obtain a s1 where n: "next_packet s = Inr (a, s1)"
      and f: "fill_window (s1\<lparr>window := window s1 @ [a]\<rparr>) = Inr s'"
      by (subst (asm) fill_window.simps) (auto simp: rbind_Inr_iff)
    from "1.IH" [OF True n] f next_packet_frame [OF n] show ?thesis by simp
  qed
qed

text \<open>The constructors with a window of one packet, whatever their threshold.\<close>

lemma base_fill_core:
  assumes u: "usable cwd fs name mx link" and f: "fs (c_str (cwd @ [47] @ name)) = Some contents"
  shows "\<exists>b s. new_packet_builder cwd fs name 1 = Inr b \<and>
    fill_window (base_strategy b link clk 1 1 mx thr) = Inr s \<and> sr_core (chunks contents) R s \<and>
    unacked_packets s = [] \<and> front_ok s \<and> settled s \<and> \<not> wnd_mutex s \<and> length (window s) \<le> 1 \<and>
    sender s = link \<and> max_window_size s = mx \<and> aux_window s = []"
proof -
  let ?ds = "chunks contents"
  have pay: "payloads_ok ?ds"
    using u f chunks_bounds [of _ contents] by (auto simp: payloads_ok_def usable_def)
  obtain b where b: "new_packet_builder cwd fs name 1 = Inr b" "packets_read_queue b = []"
    "builder_ok empty_store (Suc 0) b ?ds"
    using new_packet_builder_ok [of cwd fs name contents 1 "Suc 0"] u f by (auto simp: usable_def)
  let ?s = "base_strategy b link clk 1 1 mx thr"
  have "sr_layout ?ds [] [] ?ds ?s"
    using b by (simp add: sr_layout_def base_strategy_def in_flight_def)
  then have "sr_data ?ds R ?s"
    unfolding sr_data_def
    by (intro exI [of _ "[]"] exI [of _ ?ds]) (simp add: base_strategy_def)
  then have "sr_core ?ds R ?s"
    using u pay by (simp add: sr_core_def sr_sizes_def sr_timed_def base_strategy_def usable_def)
  moreover have "aux_window ?s = []" "unacked_packets ?s = []" "window ?s = []" "\<not> wnd_mutex ?s" "window_size ?s = 1"
    by (simp_all add: base_strategy_def)
  ultimately obtain s1 where s1: "fill_window ?s = Inr s1" "sr_core ?ds R s1" "unacked_packets s1 = []"
    "front_ok s1" "settled s1" "\<not> wnd_mutex s1" "window_size s1 = 1"
    using fill_window_core [of ?ds R ?s] by auto
  moreover have "length (window s1) \<le> 1"
    using s1(2,7) by (simp add: sr_core_def sr_sizes_def)
  moreover have "sender s1 = link \<and> max_window_size s1 = mx \<and> aux_window s1 = []"
    using fill_window_frame [OF s1(1)] by (simp add: base_strategy_def)
  ultimately show ?thesis using b(1) by blast
qed

lemma new_sr_core:
  assumes u: "usable cwd fs name mx link" and f: "fs (c_str (cwd @ [47] @ name)) = Some contents"
  shows "\<exists>s. new_selective_repeat cwd fs name mx link clk = Inr s \<and> sr_core (chunks contents) R s \<and>
    unacked_packets s = [] \<and> front_ok s \<and> settled s \<and> \<not> wnd_mutex s \<and> length (window s) \<le> 1 \<and>
    sender s = link"
  using base_fill_core [where fs = fs, OF u f, of clk "half mx" R] by (auto simp: new_selective_repeat_def)

lemma sr_initial_inv:
  assumes u: "usable cwd fs name mx link" and f: "fs (c_str (cwd @ [47] @ name)) = Some contents"
  shows "\<exists>s. rbind (new_selective_repeat cwd fs name mx link clk) sr_start = Inr s \<and>
    sr_inv (chunks contents) R s \<and> (window s \<noteq> [] \<longrightarrow> timer s)"
  using new_sr_core [where fs = fs, OF u f, of clk R] sr_start_inv [of "chunks contents" R] by fastforce

section \<open>What the invariant says of the whole\<close>

lemma sr_inv_mono:
  assumes inv: "sr_inv ds R s" and R: "\<And>i. i \<le> length ds \<Longrightarrow> R i \<Longrightarrow> R' i"
  shows "sr_inv ds R' s"
proof -
  have "sr_data ds R s" using inv by (simp add: sr_inv_def sr_core_def)
  then obtain dd dw rest where l: "sr_layout ds dd dw rest s" and
    1: "\<forall>i. 1 \<le> i \<and> i \<le> length dd \<longrightarrow> R i" and
    2: "\<forall>j < length dw. acked_at s (in_flight s ! j) \<longrightarrow> R (Suc (length dd + j))" and
    3: "\<forall>x \<in> set (sent s). \<exists>i. 1 \<le> i \<and> i \<le> length dd + length dw \<and> x = data_wire_of ds i"
    unfolding sr_data_def by blast
  have "length ds = length dd + length dw + length rest" using l by (simp add: sr_layout_def)
  then have "sr_data ds R' s"
    unfolding sr_data_def using l 1 2 3 R
    by (intro exI [of _ dd] exI [of _ dw] exI [of _ rest]) auto
  then show ?thesis using inv by (simp add: sr_inv_def sr_core_def)
qed

lemma sr_inv_sent:
  assumes "sr_inv ds R s" "x \<in> set (sent s)"
  shows "\<exists>i. 1 \<le> i \<and> i \<le> length ds \<and> x = data_wire_of ds i"
proof -
  have "sr_data ds R s" using assms by (simp add: sr_inv_def sr_core_def)
  then obtain dd dw rest where l: "sr_layout ds dd dw rest s" and
    sn: "\<forall>x \<in> set (sent s). \<exists>i. 1 \<le> i \<and> i \<le> length dd + length dw \<and> x = data_wire_of ds i"
    unfolding sr_data_def by blast
  from bspec [OF sn assms(2)] obtain i where "1 \<le> i" "i \<le> length dd + length dw" "x = data_wire_of ds i"
    by blast
  moreover have "length ds = length dd + length dw + length rest" using l by (simp add: sr_layout_def)
  ultimately show ?thesis by (intro exI [of _ i]) simp
qed

text \<open>With an empty window the whole file has been acknowledged, so received.\<close>

lemma sr_inv_empty:
  assumes inv: "sr_inv ds R s" and w: "window s = []"
  shows "unacked_packets s = []" "next_seq_number s = of_nat (Suc (length ds))"
    "\<forall>i. 1 \<le> i \<and> i \<le> length ds \<longrightarrow> R i"
proof -
  have core: "sr_core ds R s" and a: "aux_window s = []" and h: "\<not> has_next (pkt_builder s)"
    using inv w by (auto simp: sr_inv_def)
  show "unacked_packets s = []" using core w by (simp add: sr_core_def sr_timed_def)
  from core obtain dd dw rest where l: "sr_layout ds dd dw rest s"
    and R: "\<forall>i. 1 \<le> i \<and> i \<le> length dd \<longrightarrow> R i" by (auto simp: sr_core_def sr_data_def)
  have "dw = []" using layout_length [OF l] w a by (simp add: in_flight_def)
  moreover have "rest = []" using builder_has_next l h unfolding sr_layout_def by blast
  moreover have "packets_read_queue (pkt_builder s) = []" using h by (simp add: has_next_def)
  ultimately show "next_seq_number s = of_nat (Suc (length ds))"
    "\<forall>i. 1 \<le> i \<and> i \<le> length ds \<longrightarrow> R i"
    using l R by (auto simp: sr_layout_def)
qed

text \<open>Another user of the link does not matter to the sender.\<close>

lemma sr_core_link: "sr_core ds R s \<Longrightarrow> sender_ok link \<Longrightarrow> sr_core ds R (s\<lparr>sender := link\<rparr>)"
  by (simp add: sr_core_def sr_data_def sr_layout_def sr_sizes_def sr_timed_def in_flight_def
      acked_at_def [abs_def] stamp_def [abs_def])

lemma sr_inv_link: "sr_inv ds R s \<Longrightarrow> sender_ok link \<Longrightarrow> sr_inv ds R (s\<lparr>sender := link\<rparr>)"
  by (simp add: sr_inv_def sr_core_link front_ok_def acked_at_def)

text \<open>Nor does the worker's look at the window, which reads the clock and writes the statistics.\<close>

lemma is_done_frame:
  "mem (snd (is_done s)) = mem s" "window (snd (is_done s)) = window s" "wnd_mutex (snd (is_done s)) = wnd_mutex s"
  "aux_window (snd (is_done s)) = aux_window s" "pkt_builder (snd (is_done s)) = pkt_builder s"
  "sent (snd (is_done s)) = sent s" "sender (snd (is_done s)) = sender s"
  "unacked_packets (snd (is_done s)) = unacked_packets s" "max_window_size (snd (is_done s)) = max_window_size s"
  "acked_at (snd (is_done s)) = acked_at s"
  by (simp_all add: is_done_def now_def acked_at_def [abs_def])

lemma sr_core_check: "sr_core ds R s \<Longrightarrow> sr_core ds R (snd (is_done s))"
  by (subst core_cong [of _ s]) (simp_all add: is_done_def now_def)

lemma sr_inv_check: "sr_inv ds R s \<Longrightarrow> sr_inv ds R (snd (is_done s))"
  by (simp add: sr_inv_def sr_core_check front_ok_def is_done_frame)

end
