(* ===== verification/Stop_And_Wait.thy ===== *)
theory Stop_And_Wait
  imports Rdt_Strategy
begin

text \<open>
  \<open>server/strategy/stop_and_wait_strategy\<close>: the sender with a window of fixed size (the server
  constructs it with 1). It looks at no checksum, and an acknowledged packet makes room for
  exactly one new one.
\<close>

section \<open>Construction, sending, starting\<close>

definition new_stop_and_wait ::
    "path \<Rightarrow> (path \<rightharpoonup> byte list) \<Rightarrow> path \<Rightarrow> int \<Rightarrow> int \<Rightarrow> packet_sender \<Rightarrow> (nat \<Rightarrow> nat) \<Rightarrow> rdt_strategy res" where
  "new_stop_and_wait cwd fs file_name ws mx link clk =
     rbind (new_packet_builder cwd fs file_name ws) (\<lambda>b.
       fill_window (base_strategy b link clk 1 ws mx mx))"

text \<open>The triple duplicate the link may report is ignored.\<close>

definition sw_send_packet :: "ptr \<Rightarrow> rdt_strategy \<Rightarrow> rdt_strategy res" where
  "sw_send_packet a s = rbind (transmit a s) (\<lambda>(triple_dup_ack, s). Inr s)"

fun sw_start_loop :: "bool \<Rightarrow> ptr list \<Rightarrow> rdt_strategy \<Rightarrow> rdt_strategy res" where
  "sw_start_loop first [] s = Inr s"
| "sw_start_loop first (a # as) s =
     rbind (sw_send_packet a s) (\<lambda>s.
       sw_start_loop False as (if first then s\<lparr>timer := True\<rparr> else s))"

definition sw_start :: "rdt_strategy \<Rightarrow> rdt_strategy res" where
  "sw_start s = sw_start_loop True (window s) s"

section \<open>Acknowledgements\<close>

lemma sw_send_packet_frame:
  "sw_send_packet a s = Inr s' \<Longrightarrow> window s' = window s \<and> pkt_builder s' = pkt_builder s"
  by (auto simp: sw_send_packet_def rbind_Inr_iff transmit_frame)

lemma delete_packet_frame:
  "delete_packet a s = Inr s' \<Longrightarrow> window s' = window s \<and> pkt_builder s' = pkt_builder s"
  by (auto simp: delete_packet_def rbind_Inr_iff)

text \<open>
  \<open>advance_window\<close>: while the first packet is acknowledged it is popped and deleted, and the
  next one of the file, if any, is appended and sent. Each round takes a packet from the
  builder or makes the window shorter.
\<close>

function sw_advance_window :: "rdt_strategy \<Rightarrow> rdt_strategy res" where
  "sw_advance_window s =
     (if window s = [] then Inr s
      else
        rbind (packet_at (hd (window s)) s) (\<lambda>p.
          if acked p then
            rbind (delete_packet (hd (window s))
                    (s\<lparr>packets_sent := packets_sent s + 1, window := tl (window s)\<rparr>)) (\<lambda>s1.
              if has_next (pkt_builder s1) then
                rbind (next_packet s1) (\<lambda>x.
                rbind (sw_send_packet (fst x) ((snd x)\<lparr>window := window (snd x) @ [fst x]\<rparr>))
                  sw_advance_window)
              else sw_advance_window s1)
          else Inr s))"
  by pat_completeness auto
termination
proof (relation "measures [\<lambda>s. work_left (pkt_builder s), \<lambda>s. length (window s)]", goal_cases)
  case (2 s p s1 x s2)
  then have "work_left (pkt_builder s2) < work_left (pkt_builder s1)" "pkt_builder s1 = pkt_builder s"
    using next_packet_work [of s1 "fst x" "snd x"] sw_send_packet_frame [of "fst x" _ s2]
      delete_packet_frame [of "hd (window s)" _ s1] by auto
  then show ?case by simp
next
  case (3 s p s1)
  then have "window s1 = tl (window s)" "pkt_builder s1 = pkt_builder s"
    using delete_packet_frame [of "hd (window s)" _ s1] by auto
  then show ?case using 3(1) by simp
qed simp

declare sw_advance_window.simps [simp del]

definition sw_ack_found :: "nat \<Rightarrow> ptr \<Rightarrow> rdt_strategy \<Rightarrow> rdt_strategy res" where
  "sw_ack_found i a s =
     rbind (packet_at a s) (\<lambda>p.
       if acked p then Inr s
       else rbind (set_packet a (set_ack True) s) (\<lambda>s.
            rbind (locked_erase_unacked a s) (\<lambda>s.
              if i = 0 then sw_advance_window s else Inr s)))"

definition sw_acknowledge_packet :: "ack_packet \<Rightarrow> rdt_strategy \<Rightarrow> rdt_strategy res" where
  "sw_acknowledge_packet ack_pkt s =
     rbind (find_seqno (ackno ack_pkt) 0 (window s) s) (\<lambda>r.
       case r of None \<Rightarrow> Inr s | Some (i, a) \<Rightarrow> sw_ack_found i a s)"

section \<open>The timer thread\<close>

text \<open>The packet that has timed out is sent again through the pointer the thread took first.\<close>

datatype sw_timer_pc =
    W_Loop            \<comment> \<open>at the head of the endless loop\<close>
  | W_Begin           \<comment> \<open>the set was seen non-empty; about to lock it and take its first element\<close>
  | W_Compare ptr     \<comment> \<open>holds the first packet; about to look at its time stamp\<close>
  | W_Erase ptr       \<comment> \<open>the packet has timed out; about to take it off the set\<close>
  | W_Resend ptr      \<comment> \<open>about to send it again\<close>

fun sw_timer_step :: "sw_timer_pc \<Rightarrow> rdt_strategy \<Rightarrow> (sw_timer_pc \<times> rdt_strategy) res" where
  "sw_timer_step W_Loop s = Inr (if unacked_packets s = [] then W_Loop else W_Begin, s)"
| "sw_timer_step W_Begin s = rbind (timer_first s) (\<lambda>(a, s). Inr (W_Compare a, s))"
| "sw_timer_step (W_Compare a) s =
     rbind (timer_expired a s) (\<lambda>(expired, s). Inr (if expired then W_Erase a else W_Loop, s))"
| "sw_timer_step (W_Erase a) s = rbind (locked_erase_unacked a s) (\<lambda>s. Inr (W_Resend a, s))"
| "sw_timer_step (W_Resend a) s = rbind (sw_send_packet a s) (\<lambda>s. Inr (W_Loop, s))"

end
