(* ===== verification/Client_Strategy.thy ===== *)
theory Client_Strategy
  imports Cxx_Set
begin

text \<open>
  The receiving side: \<open>client/filewriter/file_writer\<close>, the class
  \<open>client/strategy/client_rdt_strategy.h\<close> and its two strategies, selective repeat and
  go-back-N.
\<close>

section \<open>The file writer\<close>

text \<open>
  One static output stream. Whether the system lets a file be created is an argument of
  \<open>fw_open\<close>. Opening truncates; opening a stream that is open, or closing or writing to one
  that is not, sets its failure bit, which a successful \<open>open\<close> clears; what is written to a
  stream that is not open or has failed is lost.
\<close>

record file_writer =
  file_stream :: "byte list option"
  failed :: bool
  files :: "byte list \<rightharpoonup> byte list"

definition new_file_writer :: file_writer where
  "new_file_writer = \<lparr>file_stream = None, failed = False, files = Map.empty\<rparr>"

definition fw_open :: "bool \<Rightarrow> byte list \<Rightarrow> file_writer \<Rightarrow> file_writer" where
  "fw_open creatable file_name w =
     (if file_stream w = None \<and> creatable
      then w\<lparr>file_stream := Some file_name, failed := False, files := (files w)(file_name \<mapsto> [])\<rparr>
      else w\<lparr>failed := True\<rparr>)"

definition fw_close :: "file_writer \<Rightarrow> file_writer" where
  "fw_close w = (if file_stream w = None then w\<lparr>failed := True\<rparr> else w\<lparr>file_stream := None\<rparr>)"

definition fw_write :: "byte list \<Rightarrow> file_writer \<Rightarrow> file_writer" where
  "fw_write d w =
     (case file_stream w of
        None \<Rightarrow> w\<lparr>failed := True\<rparr>
      | Some name \<Rightarrow>
          if failed w then w
          else w\<lparr>files := (files w)(name \<mapsto> (case files w name of None \<Rightarrow> [] | Some c \<Rightarrow> c) @ d)\<rparr>)"

section \<open>The strategies' state\<close>

text \<open>
  The fields of the class, the file writer, and the datagrams given to \<open>sendto\<close>
  (\<open>cl_sent\<close>, oldest first). The window is a \<open>std::set\<close> of packets by sequence number.
\<close>

record client_strategy =
  cl_window :: "data_packet list"
  cl_window_size :: int
  expected_seqno :: "32 word"
  file_data :: "byte list"
  cl_done :: bool
  writer :: file_writer
  cl_sent :: "byte list list"

text \<open>
  \<open>recvfrom\<close> with a buffer of \<open>n\<close> characters: \<open>None\<close> is its error return; a longer
  datagram is truncated. The result is the filled part of the buffer and the count.
\<close>

definition recvfrom :: "nat \<Rightarrow> byte list option \<Rightarrow> byte list \<times> int" where
  "recvfrom n received =
     (case received of
        None \<Rightarrow> ([], -1)
      | Some d \<Rightarrow> (take n d, int (length (take n d))))"

definition send_ack :: "32 word \<Rightarrow> client_strategy \<Rightarrow> client_strategy res" where
  "send_ack n c =
     rbind (new_ack_packet n) (\<lambda>packet.
     rbind (pack_ack packet) (\<lambda>pkt. Inr (c\<lparr>cl_sent := cl_sent c @ [pkt]\<rparr>)))"

definition is_terminal_pkt :: "data_packet \<Rightarrow> bool" where
  "is_terminal_pkt packet \<longleftrightarrow> length (data packet) = 0"

section \<open>Selective repeat\<close>

definition new_client_selective_repeat :: "int \<Rightarrow> file_writer \<Rightarrow> client_strategy" where
  "new_client_selective_repeat wnd_size w =
     \<lparr>cl_window = [], cl_window_size = wnd_size, expected_seqno = 1, file_data = [],
      cl_done = False, writer = w, cl_sent = []\<rparr>"

fun deliver_loop :: "data_packet list \<Rightarrow> client_strategy \<Rightarrow> client_strategy" where
  "deliver_loop [] c = c"
| "deliver_loop (p # ps) c =
     (if seqno p = expected_seqno c
      then
        let c = c\<lparr>file_data := file_data c @ data p, cl_window := ps\<rparr>;
            c = c\<lparr>writer := fw_write (file_data c) (writer c)\<rparr>;
            c = c\<lparr>file_data := []\<rparr>;
            c = c\<lparr>expected_seqno := expected_seqno c + 1\<rparr>
        in deliver_loop ps c
      else c)"

definition deliver_buffered_packets :: "client_strategy \<Rightarrow> client_strategy" where
  "deliver_buffered_packets c = deliver_loop (cl_window c) c"

text \<open>\<open>seqno < (uint64_t) expected_seqno + window_size\<close>, in 64-bit arithmetic.\<close>

definition below_window_end :: "32 word \<Rightarrow> client_strategy \<Rightarrow> bool" where
  "below_window_end n c \<longleftrightarrow>
     (ucast n :: 64 word) < ucast (expected_seqno c) + word_of_int (cl_window_size c)"

definition sr_client_run :: "byte list option \<Rightarrow> client_strategy \<Rightarrow> client_strategy res" where
  "sr_client_run received c =
     (let (buffer, bytes_received) = recvfrom MAX_PKT_SIZE received
      in rbind (data_packet_of_buffer buffer bytes_received) (\<lambda>packet_received.
         rbind (calculate_checksum packet_received) (\<lambda>ck.
           let n = seqno packet_received;
               corrupted = (cksum packet_received \<noteq> ck)
           in if n \<ge> expected_seqno c \<and> below_window_end n c \<and> \<not> corrupted then
                if is_terminal_pkt packet_received then Inr (c\<lparr>cl_done := True\<rparr>)
                else if set_find seq_num_comparator packet_received (cl_window c) = None then
                  let c = c\<lparr>cl_window := set_insert seq_num_comparator packet_received (cl_window c)\<rparr>;
                      c = (if n = expected_seqno c then deliver_buffered_packets c else c)
                  in send_ack n c
                else Inr c
              else if n < expected_seqno c \<and> \<not> corrupted then send_ack n c
              else Inr c)))"

section \<open>Go-back-N\<close>

definition new_client_go_back_N :: "int \<Rightarrow> file_writer \<Rightarrow> client_strategy" where
  "new_client_go_back_N wnd_size w =
     \<lparr>cl_window = [], cl_window_size = wnd_size, expected_seqno = 0, file_data = [],
      cl_done = False, writer = w, cl_sent = []\<rparr>"

definition gbn_deliver_packet :: "data_packet \<Rightarrow> client_strategy \<Rightarrow> client_strategy" where
  "gbn_deliver_packet pkt c =
     (let c = c\<lparr>file_data := file_data c @ data pkt\<rparr>;
          c = c\<lparr>writer := fw_write (file_data c) (writer c)\<rparr>;
          c = c\<lparr>file_data := []\<rparr>
      in c\<lparr>expected_seqno := expected_seqno c + 1\<rparr>)"

text \<open>
  Here the end of the window is computed in 32 bits, and the checksum is only looked at when
  the packet is the expected one.
\<close>

definition gbn_client_run :: "byte list option \<Rightarrow> client_strategy \<Rightarrow> client_strategy res" where
  "gbn_client_run received c =
     (let (buffer, bytes_received) = recvfrom MAX_PKT_SIZE received
      in rbind (data_packet_of_buffer buffer bytes_received) (\<lambda>packet_received.
           let n = seqno packet_received
           in if bytes_received > 0 \<and> n \<ge> expected_seqno c \<and>
                 n < expected_seqno c + word_of_int (cl_window_size c)
              then
                if is_terminal_pkt packet_received then Inr (c\<lparr>cl_done := True\<rparr>)
                else rbind (if n = expected_seqno c
                            then rbind (calculate_checksum packet_received)
                                   (\<lambda>ck. Inr (ck = cksum packet_received))
                            else Inr False) (\<lambda>in_order.
                  if in_order then send_ack n (gbn_deliver_packet packet_received c)
                  else send_ack (expected_seqno c - 1) c)
              else Inr c))"

section \<open>Facts about the writer and the network calls\<close>

lemma send_ack_eq [simp]: "send_ack n c = Inr (c\<lparr>cl_sent := cl_sent c @ [ack_wire n]\<rparr>)"
  by (simp add: send_ack_def)

text \<open>What has been written to the open file.\<close>

definition cl_output :: "client_strategy \<Rightarrow> byte list" where
  "cl_output c =
     (case file_stream (writer c) of
        None \<Rightarrow> []
      | Some name \<Rightarrow> (case files (writer c) name of None \<Rightarrow> [] | Some d \<Rightarrow> d))"

definition writing :: "client_strategy \<Rightarrow> bool" where
  "writing c \<longleftrightarrow> file_stream (writer c) \<noteq> None \<and> \<not> failed (writer c)"

lemma cl_output_cong: "writer c = writer c' \<Longrightarrow> cl_output c = cl_output c'"
  by (simp only: cl_output_def)

lemma cl_output_frames [simp]:
  "cl_output (c\<lparr>cl_window := w\<rparr>) = cl_output c" "cl_output (c\<lparr>cl_sent := x\<rparr>) = cl_output c"
  "cl_output (c\<lparr>cl_done := b\<rparr>) = cl_output c" "writing (c\<lparr>cl_window := w\<rparr>) = writing c"
  "writing (c\<lparr>cl_sent := x\<rparr>) = writing c" "writing (c\<lparr>cl_done := b\<rparr>) = writing c"
  by (auto intro: cl_output_cong simp: writing_def)

lemma fw_write_open:
  "file_stream w \<noteq> None \<Longrightarrow> file_stream (fw_write d w) = file_stream w \<and> failed (fw_write d w) = failed w"
  by (auto simp: fw_write_def split: if_splits)

lemma cl_output_write:
  "writing c \<Longrightarrow> cl_output (c\<lparr>writer := fw_write d (writer c)\<rparr>) = cl_output c @ d"
  by (auto simp: writing_def cl_output_def fw_write_def split: option.splits)

lemma recvfrom_wire:
  assumes "length d \<le> 500"
  shows "recvfrom MAX_PKT_SIZE (Some (wire d n)) = (wire d n, int (length (wire d n)))"
  using assms by (simp add: recvfrom_def MAX_PKT_SIZE_def)

lemma receive_wire:
  assumes "length d \<le> 500"
  shows "data_packet_of_buffer (wire d n) (int (length (wire d n))) = Inr (mk_packet d n)"
  by (rule data_packet_of_wire) (use assms in simp)

end
