(* ===== verification/Client_Inv.thy ===== *)
theory Client_Inv
  imports Client_Strategy
begin

text \<open>
  The invariant of the selective-repeat receiver of a file, and its behaviour on each kind of
  datagram: a data packet of the file, the terminal packet, a damaged datagram.
\<close>

section \<open>The invariant\<close>

definition packet_no :: "byte list list \<Rightarrow> nat \<Rightarrow> data_packet" where
  "packet_no ds i = mk_packet (ds ! (i - 1)) (of_nat i)"

text \<open>Packet \<open>i\<close> has been delivered, or waits in the window.\<close>

definition received :: "client_strategy \<Rightarrow> nat \<Rightarrow> bool" where
  "received c i \<longleftrightarrow> i < unat (expected_seqno c) \<or> of_nat i \<in> seqno ` set (cl_window c)"

text \<open>
  \<open>e\<close> is the number of the packet expected: all before it have been written, in order.
\<close>

definition cl_core :: "byte list list \<Rightarrow> nat \<Rightarrow> client_strategy \<Rightarrow> bool" where
  "cl_core ds e c \<longleftrightarrow>
     payloads_ok ds \<and> 1 \<le> e \<and> e \<le> Suc (length ds) \<and> expected_seqno c = of_nat e \<and>
     writing c \<and> file_data c = [] \<and> cl_output c = concat (take (e - 1) ds) \<and>
     sorted_by seqno (cl_window c) \<and>
     (\<forall>p \<in> set (cl_window c). \<exists>i. e \<le> i \<and> i \<le> length ds \<and> p = packet_no ds i)"

definition acks_ok :: "byte list list \<Rightarrow> client_strategy \<Rightarrow> bool" where
  "acks_ok ds c \<longleftrightarrow>
     (\<forall>x \<in> set (cl_sent c). \<exists>i \<le> length ds. received c i \<and> x = ack_wire (of_nat i))"

definition cl_inv :: "byte list list \<Rightarrow> client_strategy \<Rightarrow> bool" where
  "cl_inv ds c \<longleftrightarrow>
     (\<exists>e. cl_core ds e c \<and> of_nat e \<notin> seqno ` set (cl_window c) \<and>
        (cl_done c \<longrightarrow> e = Suc (length ds))) \<and>
     acks_ok ds c"

section \<open>Delivery\<close>

lemma packet_no_simps [simp]:
  "seqno (packet_no ds i) = of_nat i" "data (packet_no ds i) = ds ! (i - 1)"
  by (simp_all add: packet_no_def)

lemma core_number:
  "cl_core ds e c \<Longrightarrow> unat (expected_seqno c) = e"
  by (simp add: cl_core_def payloads_ok_def unat_of_nat_32)

lemma core_small: "cl_core ds e c \<Longrightarrow> i \<le> Suc (length ds) \<Longrightarrow> i < 2 ^ 32"
  by (simp add: cl_core_def payloads_ok_def)

text \<open>One round of the loop: the front of the window is the packet expected.\<close>

definition deliver_one :: "client_strategy \<Rightarrow> client_strategy" where
  "deliver_one c =
     c\<lparr>cl_window := tl (cl_window c),
       writer := fw_write (file_data c @ data (hd (cl_window c))) (writer c),
       file_data := [], expected_seqno := expected_seqno c + 1\<rparr>"

lemma deliver_loop_Cons:
  "cl_window c = p # ps \<Longrightarrow>
   deliver_loop (p # ps) c =
     (if seqno p = expected_seqno c then deliver_loop ps (deliver_one c) else c)"
  by (simp add: deliver_one_def Let_def)

lemma take_pred_Suc: "1 \<le> e \<Longrightarrow> e \<le> length ds \<Longrightarrow> take e ds = take (e - 1) ds @ [ds ! (e - 1)]"
  by (metis Suc_le_eq Suc_pred' take_Suc_conv_app_nth One_nat_def)

lemma deliver_one_core:
  assumes core: "cl_core ds e c" and w: "cl_window c = p # ps" and p: "seqno p = expected_seqno c"
  shows "cl_core ds (Suc e) (deliver_one c)"
proof -
  obtain i where i: "e \<le> i" "i \<le> length ds" "p = packet_no ds i"
    using core w by (auto simp: cl_core_def)
  with p core have "(of_nat i :: 32 word) = of_nat e" by (simp add: cl_core_def)
  then have ie: "i = e"
    using i core_small [OF core] by (subst (asm) of_nat_32_inj) auto
  have out: "cl_output (deliver_one c) = cl_output c @ ds ! (e - 1)"
  proof -
    have "cl_output (deliver_one c)
        = cl_output (c\<lparr>writer := fw_write (file_data c @ data p) (writer c)\<rparr>)"
      by (rule cl_output_cong) (simp add: deliver_one_def w)
    then show ?thesis using core ie i(3) by (simp add: cl_core_def cl_output_write)
  qed
  have "writing (deliver_one c)"
    using core fw_write_open [of "writer c"] by (simp add: cl_core_def writing_def deliver_one_def)
  moreover have "\<exists>j. Suc e \<le> j \<and> j \<le> length ds \<and> q = packet_no ds j" if q: "q \<in> set ps" for q
  proof -
    obtain j where j: "e \<le> j" "j \<le> length ds" "q = packet_no ds j"
      using core w q by (auto simp: cl_core_def)
    have "seqno p < seqno q" using core w q by (auto simp: cl_core_def sorted_by_Cons)
    then have "j \<noteq> e" using i(3) ie j(3) by auto
    with j show ?thesis by (intro exI [of _ j]) simp
  qed
  moreover have "sorted_by seqno ps" using core w by (simp add: cl_core_def sorted_by_Cons)
  ultimately show ?thesis
    using core i ie w out take_pred_Suc [of e ds] 
    by (simp add: cl_core_def deliver_one_def add.commute)
qed

lemma deliver_one_received:
  assumes core: "cl_core ds e c" and w: "cl_window c = p # ps" and p: "seqno p = expected_seqno c"
    and i: "i \<le> Suc (length ds)"
  shows "received (deliver_one c) i = received c i"
proof -
  have e: "unat (expected_seqno (deliver_one c)) = Suc e" "unat (expected_seqno c) = e"
    using core_number [OF deliver_one_core [OF core w p]] core_number [OF core] .
  have "seqno p = of_nat e" using p core by (simp add: cl_core_def)
  then have 1: "received c i \<longleftrightarrow> i < e \<or> (of_nat i :: 32 word) = of_nat e \<or> of_nat i \<in> seqno ` set ps"
    by (simp add: received_def w e)
  have "cl_window (deliver_one c) = ps" by (simp add: deliver_one_def w)
  then have 2: "received (deliver_one c) i \<longleftrightarrow> i < Suc e \<or> of_nat i \<in> seqno ` set ps"
    by (simp add: received_def e)
  have "(of_nat i :: 32 word) = of_nat e \<longleftrightarrow> i = e"
    using core i core_small [OF core] by (intro of_nat_32_inj) (auto simp: cl_core_def)
  with 1 2 show ?thesis by (auto simp: less_Suc_eq)
qed

lemma deliver_loop_core:
  "cl_core ds e c \<Longrightarrow> cl_window c = ps \<Longrightarrow>
   \<exists>e' \<ge> e. cl_core ds e' (deliver_loop ps c) \<and>
     of_nat e' \<notin> seqno ` set (cl_window (deliver_loop ps c)) \<and>
     (\<forall>i \<le> Suc (length ds). received (deliver_loop ps c) i = received c i) \<and>
     cl_sent (deliver_loop ps c) = cl_sent c \<and> cl_done (deliver_loop ps c) = cl_done c"
proof (induction ps arbitrary: c e)
  case Nil
  then show ?case by auto
next
  case (Cons p ps)
  show ?case
  proof (cases "seqno p = expected_seqno c")
    case False
    obtain i where "e \<le> i" "i \<le> length ds" "p = packet_no ds i"
      using Cons.prems by (auto simp: cl_core_def)
    then have "of_nat e < seqno p"
      using False Cons.prems(1) core_small [OF Cons.prems(1)]
      by (simp add: cl_core_def word_less_nat_alt unat_of_nat_32 payloads_ok_def)
         (metis le_neq_implies_less)
    moreover have "\<forall>q \<in> set ps. seqno p < seqno q"
      using Cons.prems by (simp add: cl_core_def sorted_by_Cons)
    ultimately have "of_nat e \<notin> seqno ` set (p # ps)" by force
    with False Cons.prems show ?thesis by (auto simp: deliver_loop_Cons)
  next
    case True
    note one = deliver_one_core [OF Cons.prems True]
    have "cl_window (deliver_one c) = ps" by (simp add: deliver_one_def Cons.prems(2))
    from Cons.IH [OF one this] obtain e' where e': "Suc e \<le> e'"
      "cl_core ds e' (deliver_loop ps (deliver_one c))"
      "of_nat e' \<notin> seqno ` set (cl_window (deliver_loop ps (deliver_one c)))"
      "\<forall>i \<le> Suc (length ds). received (deliver_loop ps (deliver_one c)) i = received (deliver_one c) i"
      "cl_sent (deliver_loop ps (deliver_one c)) = cl_sent (deliver_one c)"
      "cl_done (deliver_loop ps (deliver_one c)) = cl_done (deliver_one c)" by blast
    have "cl_sent (deliver_one c) = cl_sent c" "cl_done (deliver_one c) = cl_done c"
      by (simp_all add: deliver_one_def)
    with e' deliver_one_received [OF Cons.prems True] show ?thesis
      using Cons.prems True by (intro exI [of _ e']) (auto simp: deliver_loop_Cons simp del: deliver_loop.simps)
  qed
qed

section \<open>One datagram\<close>

text \<open>A packet of the file that arrives: what the handler does, without the wire.\<close>

definition accept :: "byte list \<Rightarrow> 32 word \<Rightarrow> client_strategy \<Rightarrow> client_strategy" where
  "accept d n c =
     (if expected_seqno c \<le> n \<and> below_window_end n c then
        if d = [] then c\<lparr>cl_done := True\<rparr>
        else if n \<in> seqno ` set (cl_window c) then c
        else
          let c1 = c\<lparr>cl_window := set_insert seq_num_comparator (mk_packet d n) (cl_window c)\<rparr>;
              c2 = (if n = expected_seqno c then deliver_buffered_packets c1 else c1)
          in c2\<lparr>cl_sent := cl_sent c2 @ [ack_wire n]\<rparr>
      else if n < expected_seqno c then c\<lparr>cl_sent := cl_sent c @ [ack_wire n]\<rparr>
      else c)"

lemma run_wire:
  assumes "length d \<le> 500" "sorted_by seqno (cl_window c)"
  shows "sr_client_run (Some (wire d n)) c = Inr (accept d n c)"
proof -
  have "set_find seq_num_comparator (mk_packet d n) (cl_window c) = None
      \<longleftrightarrow> n \<notin> seqno ` set (cl_window c)"
    using cxx_set.lookup_None [OF assms(2)] by (simp add: comparators_by_key)
  then show ?thesis
    using recvfrom_wire [OF assms(1)] receive_wire [OF assms(1)]
    by (simp add: sr_client_run_def calculate_checksum_eq is_terminal_pkt_def accept_def Let_def)
qed

text \<open>What a damaged datagram is: it can be read, and its checksum does not match.\<close>

definition damaged :: "byte list \<Rightarrow> bool" where
  "damaged x \<longleftrightarrow>
     (\<exists>p. data_packet_of_buffer (take MAX_PKT_SIZE x) (int (length (take MAX_PKT_SIZE x))) = Inr p \<and>
          calculate_checksum p \<noteq> Inr (cksum p))"

lemma run_damaged: "damaged x \<Longrightarrow> sr_client_run (Some x) c = Inr c"
  by (auto simp: damaged_def sr_client_run_def recvfrom_def calculate_checksum_eq Let_def)

lemma acks_ok_mono:
  assumes "acks_ok ds c" and "\<And>i. i \<le> length ds \<Longrightarrow> received c i \<Longrightarrow> received c' i"
    and "\<And>x. x \<in> set (cl_sent c') \<Longrightarrow> x \<in> set (cl_sent c) \<or>
      (\<exists>i \<le> length ds. received c' i \<and> x = ack_wire (of_nat i))"
  shows "acks_ok ds c'"
  using assms unfolding acks_ok_def by blast

lemma cl_core_sent: "cl_core ds e (c\<lparr>cl_sent := x\<rparr>) = cl_core ds e c"
  by (simp add: cl_core_def)

lemma received_sent [simp]: "received (c\<lparr>cl_sent := x\<rparr>) = received c"
  by (simp add: received_def fun_eq_iff)

lemma received_done [simp]: "received (c\<lparr>cl_done := x\<rparr>) = received c"
  by (simp add: received_def fun_eq_iff)

text \<open>
  The number 0, of the handshake, counts as received. What the server sends to acknowledge the
  request has the number 0 and is an acknowledgement, which the client reads as an empty packet.
\<close>

lemma received_0: "cl_inv ds c \<Longrightarrow> received c 0"
proof -
  assume "cl_inv ds c"
  then obtain e where e: "cl_core ds e c" by (auto simp: cl_inv_def)
  then have "1 \<le> e" by (simp add: cl_core_def)
  then show "received c 0" using core_number [OF e] by (simp add: received_def)
qed

definition stray :: "byte list \<Rightarrow> bool" where
  "stray x \<longleftrightarrow> damaged x \<or> x = ack_wire 0"

text \<open>Acknowledging a packet that has been received.\<close>

lemma cl_inv_ack:
  assumes "cl_inv ds c" "i \<le> length ds" "received c i"
  shows "cl_inv ds (c\<lparr>cl_sent := cl_sent c @ [ack_wire (of_nat i)]\<rparr>)"
proof -
  have "acks_ok ds (c\<lparr>cl_sent := cl_sent c @ [ack_wire (of_nat i)]\<rparr>)"
    by (rule acks_ok_mono [of ds c]) (use assms in \<open>auto simp: cl_inv_def\<close>)
  with assms(1) show ?thesis by (auto simp: cl_inv_def cl_core_sent)
qed

lemma insert_core:
  assumes core: "cl_core ds e c" and i: "e \<le> i" "i \<le> length ds"
    and new: "of_nat i \<notin> seqno ` set (cl_window c)"
  defines "c' \<equiv> c\<lparr>cl_window := set_insert seq_num_comparator (packet_no ds i) (cl_window c)\<rparr>"
  shows "cl_core ds e c'" and "set (cl_window c') = insert (packet_no ds i) (set (cl_window c))"
proof -
  have so: "sorted_by seqno (cl_window c)" using core by (simp add: cl_core_def)
  show w: "set (cl_window c') = insert (packet_no ds i) (set (cl_window c))"
    using cxx_set.ins_fresh [OF so, of "packet_no ds i"] new by (simp add: c'_def comparators_by_key)
  have "sorted_by seqno (cl_window c')"
    using cxx_set.ok_ins [OF so] by (simp add: c'_def comparators_by_key)
  moreover have "writing c' = writing c" "cl_output c' = cl_output c" "file_data c' = file_data c"
    "expected_seqno c' = expected_seqno c"
    by (simp_all add: c'_def)
  ultimately show "cl_core ds e c'"
    using core w i by (auto simp: cl_core_def)
qed


text \<open>A packet of the file keeps the invariant, and what was received stays received.\<close>

lemma accept_packet:
  assumes inv: "cl_inv ds c" and i: "1 \<le> i" "i \<le> length ds"
  defines "c' \<equiv> accept (ds ! (i - 1)) (of_nat i) c"
  shows "cl_inv ds c' \<and> cl_done c' = cl_done c \<and>
    (\<forall>j \<le> length ds. received c j \<longrightarrow> received c' j) \<and>
    (\<forall>j \<le> length ds. received c' j \<longrightarrow> received c j \<or> j = i)"
proof -
  obtain e where core: "cl_core ds e c" and e: "of_nat e \<notin> seqno ` set (cl_window c)"
    and dn: "cl_done c \<longrightarrow> e = Suc (length ds)" and acks: "acks_ok ds c"
    using inv by (auto simp: cl_inv_def)
  have d: "ds ! (i - 1) \<noteq> []" using core i by (auto simp: cl_core_def payloads_ok_def)
  have small: "i < 2 ^ 32" "e < 2 ^ 32" using core i core_small [OF core]
    by (auto simp: cl_core_def payloads_ok_def)
  have ex: "expected_seqno c = of_nat e" using core by (simp add: cl_core_def)
  have ge: "expected_seqno c \<le> (of_nat i :: 32 word) \<longleftrightarrow> e \<le> i"
    using small by (simp add: ex word_le_nat_alt unat_of_nat_32)
  consider (new) "e \<le> i" "below_window_end (of_nat i) c" "of_nat i \<notin> seqno ` set (cl_window c)"
    | (old) "i < e" | (same) "c' = c"
    using d ge by (fastforce simp: c'_def accept_def not_le)
  then show ?thesis
  proof cases
    case same
    then show ?thesis using inv by simp
  next
    case old
    then have "c' = c\<lparr>cl_sent := cl_sent c @ [ack_wire (of_nat i)]\<rparr>"
      using ge by (simp add: c'_def accept_def not_le [symmetric])
    moreover have "received c i" using old small by (simp add: received_def ex unat_of_nat_32)
    ultimately show ?thesis using cl_inv_ack [OF inv i(2)] by simp
  next
    case new
    define c1 where "c1 = c\<lparr>cl_window := set_insert seq_num_comparator (packet_no ds i) (cl_window c)\<rparr>"
    note c1 = insert_core [OF core new(1) i(2) new(3), folded c1_def]
    have r1: "received c j \<Longrightarrow> received c1 j" for j
      using c1(2) by (auto simp: received_def) (simp add: c1_def)
    have q1: "received c1 j \<Longrightarrow> j \<le> length ds \<Longrightarrow> received c j \<or> j = i" for j
      using c1(2) of_nat_32_inj [OF _ small(1), of j] core_small [OF core, of j]
      by (auto simp: received_def) (simp_all add: c1_def)
    have i1: "received c1 i" using c1(2) by (simp add: received_def)
    have f1: "cl_sent c1 = cl_sent c" "cl_done c1 = cl_done c" by (simp_all add: c1_def)
    define c2 where "c2 = (if i = e then deliver_buffered_packets c1 else c1)"
    have c': "c' = c2\<lparr>cl_sent := cl_sent c2 @ [ack_wire (of_nat i)]\<rparr>"
      using new ge d of_nat_32_inj [OF small]
      by (simp add: c'_def accept_def Let_def ex c2_def c1_def packet_no_def)
    have "\<exists>e'. cl_core ds e' c2 \<and> of_nat e' \<notin> seqno ` set (cl_window c2) \<and>
      (cl_done c2 \<longrightarrow> e' = Suc (length ds)) \<and> (\<forall>j \<le> length ds. received c2 j = received c1 j) \<and>
      cl_sent c2 = cl_sent c \<and> cl_done c2 = cl_done c"
    proof (cases "i = e")
      case True
      from deliver_loop_core [OF c1(1) refl] obtain e' where "cl_core ds e' c2"
        "of_nat e' \<notin> seqno ` set (cl_window c2)"
        "\<forall>j \<le> Suc (length ds). received c2 j = received c1 j"
        "cl_sent c2 = cl_sent c1" "cl_done c2 = cl_done c1"
        by (auto simp: c2_def True deliver_buffered_packets_def)
      moreover have "\<not> cl_done c" using dn True i by auto
      ultimately show ?thesis using f1 by auto
    next
      case False
      then have "of_nat e \<notin> seqno ` set (cl_window c1)"
        using e c1(2) of_nat_32_inj [OF small] by auto
      then show ?thesis using False c1(1) dn f1 by (auto simp: c2_def)
    qed
    then obtain e' where e': "cl_core ds e' c2" "of_nat e' \<notin> seqno ` set (cl_window c2)"
      "cl_done c2 \<longrightarrow> e' = Suc (length ds)" and r2: "\<forall>j \<le> length ds. received c2 j = received c1 j"
      and f2: "cl_sent c2 = cl_sent c" "cl_done c2 = cl_done c" by blast
    have "acks_ok ds c2"
      by (rule acks_ok_mono [OF acks]) (use r1 r2 f2 in auto)
    then have "cl_inv ds c2" using e' by (auto simp: cl_inv_def)
    then show ?thesis
      unfolding c' using cl_inv_ack [OF _ i(2), of c2] r1 r2 q1 i1 i f2(2) by simp
  qed
qed

lemma run_packet:
  assumes inv: "cl_inv ds c" and i: "1 \<le> i" "i \<le> length ds"
  shows "\<exists>c'. sr_client_run (Some (data_wire_of ds i)) c = Inr c' \<and> cl_inv ds c' \<and>
    cl_done c' = cl_done c \<and> (\<forall>j \<le> length ds. received c j \<longrightarrow> received c' j)"
proof -
  have "length (ds ! (i - 1)) \<le> 500" "sorted_by seqno (cl_window c)"
    using inv i by (auto simp: cl_inv_def cl_core_def payloads_ok_def)
  from run_wire [OF this] accept_packet [OF inv i] show ?thesis
    by (simp add: data_wire_of_def)
qed

text \<open>The terminal packet, which the sender numbers after the last packet of the file.\<close>

lemma run_terminal:
  assumes inv: "cl_inv ds c" and all: "\<forall>i. 1 \<le> i \<and> i \<le> length ds \<longrightarrow> received c i"
  shows "\<exists>c'. sr_client_run (Some (wire [] (of_nat (Suc (length ds))))) c = Inr c' \<and> cl_inv ds c' \<and>
    received c' = received c \<and> cl_output c' = cl_output c \<and>
    (below_window_end (of_nat (Suc (length ds))) c \<longrightarrow> cl_done c')"
proof -
  let ?n = "of_nat (Suc (length ds)) :: 32 word"
  obtain e where core: "cl_core ds e c" and e: "of_nat e \<notin> seqno ` set (cl_window c)"
    and acks: "acks_ok ds c" using inv by (auto simp: cl_inv_def)
  have ex: "unat (expected_seqno c) = e" by (rule core_number [OF core])
  have "e = Suc (length ds)"
  proof (rule ccontr)
    assume "e \<noteq> Suc (length ds)"
    then have "1 \<le> e" "e \<le> length ds" using core by (auto simp: cl_core_def)
    with all e ex show False by (auto simp: received_def)
  qed
  then have "expected_seqno c = ?n" using core by (simp add: cl_core_def)
  then have a: "accept [] ?n c = (if below_window_end ?n c then c\<lparr>cl_done := True\<rparr> else c)"
    by (simp add: accept_def)
  have "cl_core ds e (c\<lparr>cl_done := True\<rparr>)" using core by (simp add: cl_core_def)
  moreover have "acks_ok ds (c\<lparr>cl_done := True\<rparr>)" using acks by (simp add: acks_ok_def)
  ultimately have "cl_inv ds (c\<lparr>cl_done := True\<rparr>)"
    using e \<open>e = Suc (length ds)\<close> by (auto simp: cl_inv_def)
  moreover have "sorted_by seqno (cl_window c)" using core by (simp add: cl_core_def)
  ultimately show ?thesis using run_wire [of "[]" c ?n] a inv by auto
qed

text \<open>The handshake of the server is acknowledged, as if it were an old packet.\<close>

lemma run_stray:
  assumes inv: "cl_inv ds c" and x: "stray x"
  shows "\<exists>c'. sr_client_run (Some x) c = Inr c' \<and> cl_inv ds c' \<and> received c' = received c \<and>
    cl_done c' = cl_done c \<and> cl_output c' = cl_output c"
proof (cases "damaged x")
  case True
  then show ?thesis using inv by (simp add: run_damaged)
next
  case False
  then have x: "x = wire [] 0" using x by (simp add: stray_def ack_wire_def wire_def)
  obtain e where core: "cl_core ds e c" using inv by (auto simp: cl_inv_def)
  then have "0 < expected_seqno c" "sorted_by seqno (cl_window c)"
    using core_number [OF core] by (auto simp: cl_core_def word_less_nat_alt)
  then have "sr_client_run (Some x) c = Inr (c\<lparr>cl_sent := cl_sent c @ [ack_wire (of_nat 0)]\<rparr>)"
    using run_wire [of "[]" c 0] by (simp add: x accept_def not_le [symmetric])
  then show ?thesis using cl_inv_ack [OF inv _ received_0 [OF inv]] by simp
qed

text \<open>The handler does not change the window size, and what is in the window is accepted.\<close>

lemma deliver_loop_window_size: "cl_window_size (deliver_loop ps c) = cl_window_size c"
  by (induction ps arbitrary: c) (auto simp: Let_def)

lemma run_window_size: "sr_client_run r c = Inr c' \<Longrightarrow> cl_window_size c' = cl_window_size c"
proof (erule yieldsD [rotated])
  show "yields (\<lambda>c'. cl_window_size c' = cl_window_size c) (sr_client_run r c)"
    unfolding sr_client_run_def send_ack_eq
    by (intro yields_intros) (simp_all add: deliver_buffered_packets_def deliver_loop_window_size)
qed

lemma unat_add_small:
  fixes x :: "64 word"
  assumes "unat x < 2 ^ 32" "m < 2 ^ 31"
  shows "unat (x + of_nat m) = unat x + m"
proof -
  have "unat (of_nat m :: 64 word) = m" using assms(2) by (simp add: unat_of_nat)
  then show ?thesis using assms by (subst unat_add_lem [THEN iffD1]) auto
qed

lemma expected_in_window:
  assumes "1 \<le> cl_window_size c" "cl_window_size c < 2 ^ 31"
  shows "below_window_end (expected_seqno c) c"
proof -
  define m where "m = nat (cl_window_size c)"
  have m: "cl_window_size c = int m" "1 \<le> m" "m < 2 ^ 31" using assms by (simp_all add: m_def)
  define x :: "64 word" where "x = ucast (expected_seqno c)"
  have "unat x < 2 ^ 32"
    using unat_bound [of "expected_seqno c"] by (simp add: x_def unat_ucast_up)
  from unat_add_small [OF this m(3)] have "x < x + of_nat m"
    using m(2) by (simp add: word_less_nat_alt)
  moreover have "word_of_int (cl_window_size c) = (of_nat m :: 64 word)" unfolding m(1) by simp
  ultimately show ?thesis by (simp only: below_window_end_def x_def)
qed

text \<open>A packet not after the expected one is acknowledged.\<close>

lemma accept_acks:
  assumes inv: "cl_inv ds c" and i: "1 \<le> i" "i \<le> length ds" "i \<le> unat (expected_seqno c)"
    and w: "1 \<le> cl_window_size c" "cl_window_size c < 2 ^ 31"
  shows "ack_wire (of_nat i) \<in> set (cl_sent (accept (ds ! (i - 1)) (of_nat i) c))"
proof -
  obtain e where core: "cl_core ds e c" and e: "of_nat e \<notin> seqno ` set (cl_window c)"
    using inv by (auto simp: cl_inv_def)
  have d: "ds ! (i - 1) \<noteq> []" using core i by (auto simp: cl_core_def payloads_ok_def)
  have ie: "i \<le> e" "i < 2 ^ 32" using i core core_number [OF core] core_small [OF core, of i] by auto
  have ex: "expected_seqno c = of_nat e" "e < 2 ^ 32"
    using core core_small [OF core, of e] by (auto simp: cl_core_def)
  show ?thesis
  proof (cases "i = e")
    case False
    then have "(of_nat i :: 32 word) < expected_seqno c"
      using ie ex by (simp add: word_less_nat_alt unat_of_nat_32)
    then have "\<not> expected_seqno c \<le> (of_nat i :: 32 word)" "(of_nat i :: 32 word) < expected_seqno c"
      by (simp_all add: not_le)
    then show ?thesis by (simp add: accept_def)
  next
    case True
    then show ?thesis using d e ex expected_in_window [OF w] by (simp add: accept_def Let_def)
  qed
qed

section \<open>The start, and what the invariant says of the output\<close>

lemma client_initial:
  assumes "payloads_ok ds" "file_stream w = None"
  shows "cl_inv ds (new_client_selective_repeat n (fw_open True name w))"
  using assms
  by (auto simp: cl_inv_def cl_core_def acks_ok_def new_client_selective_repeat_def fw_open_def
      writing_def cl_output_def)

lemma cl_inv_prefix: "cl_inv ds c \<Longrightarrow> prefix (cl_output c) (concat ds)"
proof -
  assume "cl_inv ds c"
  then obtain e where "cl_output c = concat (take (e - 1) ds)" by (auto simp: cl_inv_def cl_core_def)
  moreover have "concat ds = concat (take (e - 1) ds) @ concat (drop (e - 1) ds)"
    by (metis append_take_drop_id concat_append)
  ultimately show ?thesis by (simp add: prefix_def)
qed

lemma cl_inv_done: "cl_inv ds c \<Longrightarrow> cl_done c \<Longrightarrow> cl_output c = concat ds"
  by (auto simp: cl_inv_def cl_core_def)

lemma expected_all:
  assumes inv: "cl_inv ds c" and all: "\<forall>i. 1 \<le> i \<and> i \<le> length ds \<longrightarrow> received c i"
  shows "expected_seqno c = of_nat (Suc (length ds))"
proof -
  obtain e where core: "cl_core ds e c" and e: "of_nat e \<notin> seqno ` set (cl_window c)"
    using inv by (auto simp: cl_inv_def)
  have "\<not> e \<le> length ds"
    using all e core core_number [OF core] by (force simp: received_def cl_core_def)
  then have "e = Suc (length ds)" using core by (simp add: cl_core_def)
  then show ?thesis using core by (simp add: cl_core_def)
qed

lemma cl_inv_all:
  assumes inv: "cl_inv ds c" and all: "\<forall>i. 1 \<le> i \<and> i \<le> length ds \<longrightarrow> received c i"
  shows "cl_output c = concat ds"
proof -
  obtain e where core: "cl_core ds e c" and e: "of_nat e \<notin> seqno ` set (cl_window c)"
    using inv by (auto simp: cl_inv_def)
  have "\<not> e \<le> length ds"
    using all e core core_number [OF core] by (force simp: received_def cl_core_def)
  then show ?thesis using core by (auto simp: cl_core_def)
qed

end
