(* ===== verification/Session.thy ===== *)
theory Session
  imports Rdt_Strategy Client_Inv
begin

text \<open>
  A transfer from end to end, whatever strategy the worker of \<open>server/server.cpp\<close>
  (\<open>handle_worker_thread\<close>) has chosen: the worker, the timer thread of its strategy, the loop of
  \<open>client/client.cpp\<close> (\<open>receive_datagrams\<close>) and a network that loses, delays, duplicates,
  reorders and damages datagrams. The virtual operations of \<open>rdt_strategy\<close> the worker and the
  timer call are arguments, and the contract they satisfy is a locale.
\<close>

section \<open>The system\<close>

record 'pc transfer =
  server :: rdt_strategy
  timer_at :: 'pc
  over :: bool
  client :: client_strategy

type_synonym receiver = "byte list option \<Rightarrow> client_strategy \<Rightarrow> client_strategy res"

type_synonym acknowledger = "ack_packet \<Rightarrow> rdt_strategy \<Rightarrow> rdt_strategy res"

type_synonym 'pc ticker = "'pc \<Rightarrow> rdt_strategy \<Rightarrow> ('pc \<times> rdt_strategy) res"

definition handle_ack :: "acknowledger \<Rightarrow> byte list \<Rightarrow> rdt_strategy \<Rightarrow> rdt_strategy res" where
  "handle_ack acknowledge_packet buffer s =
     rbind (ack_packet_of_buffer buffer) (\<lambda>ack. acknowledge_packet ack s)"

definition finish :: "rdt_strategy \<Rightarrow> rdt_strategy res" where
  "finish s = send_empty_packet (snd (is_done s))"

text \<open>
  The network is the two logs of everything sent: a datagram can be delivered at any later
  time, any number of times, or never. Besides, a damaged datagram can arrive at either end:
  at the client what \<open>noise\<close> allows, at the server what \<open>damage\<close> allows. The
  buffer the server receives into keeps old bytes after the eight of an acknowledgement.
  The state of the link is static data of the server's process: the other workers use it too.
\<close>

inductive session_step ::
    "receiver \<Rightarrow> (byte list \<Rightarrow> bool) \<Rightarrow> acknowledger \<Rightarrow> 'pc ticker \<Rightarrow> (byte list \<Rightarrow> bool) \<Rightarrow>
     'pc transfer \<Rightarrow> 'pc transfer \<Rightarrow> bool"
  for client_run :: receiver and noise :: "byte list \<Rightarrow> bool" and
    acknowledge_packet :: acknowledger and handle_time_out :: "'pc ticker" and
    damage :: "byte list \<Rightarrow> bool" where
  deliver_data:
    "\<not> cl_done (client t) \<Longrightarrow> x \<in> set (sent (server t)) \<or> noise x \<Longrightarrow>
     client_run (Some x) (client t) = Inr c \<Longrightarrow>
     session_step client_run noise acknowledge_packet handle_time_out damage t (t\<lparr>client := c\<rparr>)"
| deliver_ack:
    "\<not> over t \<Longrightarrow> \<not> fst (is_done (server t)) \<Longrightarrow>
     (\<exists>x \<in> set (cl_sent (client t)). \<exists>old. buffer = x @ old) \<or> damage buffer \<Longrightarrow>
     handle_ack acknowledge_packet buffer (server t) = Inr s \<Longrightarrow>
     session_step client_run noise acknowledge_packet handle_time_out damage t (t\<lparr>server := s\<rparr>)"
| timer_thread:
    "handle_time_out (timer_at t) (server t) = Inr (pc, s) \<Longrightarrow>
     session_step client_run noise acknowledge_packet handle_time_out damage t (t\<lparr>timer_at := pc, server := s\<rparr>)"
| link_used:
    "sender_ok link \<Longrightarrow> loss_probability link = loss_probability (sender (server t)) \<Longrightarrow>
     session_step client_run noise acknowledge_packet handle_time_out damage t
       (t\<lparr>server := (server t)\<lparr>sender := link\<rparr>\<rparr>)"
| end_of_file:
    "\<not> over t \<Longrightarrow> fst (is_done (server t)) \<Longrightarrow> finish (server t) = Inr s \<Longrightarrow>
     session_step client_run noise acknowledge_packet handle_time_out damage t (t\<lparr>server := s, over := True\<rparr>)"

text \<open>An acknowledgement whose checksum does not match.\<close>

definition damaged_ack :: "byte list \<Rightarrow> bool" where
  "damaged_ack buffer \<longleftrightarrow>
     (\<exists>a. ack_packet_of_buffer buffer = Inr a \<and> calculate_ack_checksum a \<noteq> Inr (ack_cksum a))"

text \<open>
  A request of the client, when the server takes it for an acknowledgement, has the number 0,
  as has the client's answer to the handshake.
\<close>

definition zero_ack :: "byte list \<Rightarrow> bool" where
  "zero_ack buffer \<longleftrightarrow> (\<exists>a. ack_packet_of_buffer buffer = Inr a \<and> ackno a = 0)"

section \<open>The invariant of a session\<close>

definition terminal_wire :: "byte list list \<Rightarrow> byte list" where
  "terminal_wire ds = wire [] (of_nat (Suc (length ds)))"

definition all_received :: "byte list list \<Rightarrow> (nat \<Rightarrow> bool) \<Rightarrow> bool" where
  "all_received ds R \<longleftrightarrow> (\<forall>i. 1 \<le> i \<and> i \<le> length ds \<longrightarrow> R i)"

definition is_data_wire :: "byte list list \<Rightarrow> byte list \<Rightarrow> bool" where
  "is_data_wire ds x \<longleftrightarrow> (\<exists>i. 1 \<le> i \<and> i \<le> length ds \<and> x = data_wire_of ds i)"

definition ended :: "byte list list \<Rightarrow> (nat \<Rightarrow> bool) \<Rightarrow> rdt_strategy \<Rightarrow> bool" where
  "ended ds R s \<longleftrightarrow>
     all_received ds R \<and> terminal_wire ds \<in> set (sent s) \<and>
     (\<forall>x \<in> set (sent s). x = terminal_wire ds \<or> is_data_wire ds x)"

text \<open>
  \<open>sinv ds R pc s\<close> is the sender's own invariant while it runs, for the payloads \<open>ds\<close> of the
  file, the packets \<open>R\<close> the client has received and the place of the timer thread; \<open>quiet pc s\<close>
  holds afterwards.
\<close>

type_synonym 'pc sender_inv = "byte list list \<Rightarrow> (nat \<Rightarrow> bool) \<Rightarrow> 'pc \<Rightarrow> rdt_strategy \<Rightarrow> bool"

definition session_inv ::
    "'pc sender_inv \<Rightarrow> ('pc \<Rightarrow> rdt_strategy \<Rightarrow> bool) \<Rightarrow> byte list list \<Rightarrow> 'pc transfer \<Rightarrow> bool" where
  "session_inv sinv quiet ds t \<longleftrightarrow>
     cl_inv ds (client t) \<and> (cl_done (client t) \<longrightarrow> over t) \<and>
     (if over t then ended ds (received (client t)) (server t) \<and> quiet (timer_at t) (server t)
      else sinv ds (received (client t)) (timer_at t) (server t))"

lemma session_client: "session_inv sinv quiet ds t \<Longrightarrow> cl_inv ds (client t)"
  by (simp add: session_inv_def)

lemma ended_mono: "ended ds R s \<Longrightarrow> (\<And>i. i \<le> length ds \<Longrightarrow> R i \<Longrightarrow> R' i) \<Longrightarrow> ended ds R' s"
  unfolding ended_def all_received_def by blast

text \<open>What the client has acknowledged it has received.\<close>

lemma client_acks:
  assumes "cl_inv ds c" "x \<in> set (cl_sent c)"
  obtains i where "i \<le> length ds" "received c i" "x = ack_wire (of_nat i)" "unat (of_nat i :: 32 word) = i"
proof -
  obtain i where i: "i \<le> length ds" "received c i" "x = ack_wire (of_nat i)"
    using assms by (auto simp: cl_inv_def acks_ok_def)
  have "length ds < 2 ^ 32 - 1" using assms(1) by (auto simp: cl_inv_def cl_core_def payloads_ok_def)
  then have "unat (of_nat i :: 32 word) = i" using i by (intro unat_of_nat_32) simp
  with i show ?thesis by (intro that)
qed

lemma acknowledged_received:
  assumes cl: "cl_inv ds c" and i: "i \<le> length ds" and a: "ack_wire (of_nat i) \<in> set (cl_sent c)"
  shows "received c i"
proof -
  obtain j where j: "j \<le> length ds" "received c j" "ack_wire (of_nat i) = ack_wire (of_nat j)"
    "unat (of_nat j :: 32 word) = j"
    by (rule client_acks [OF cl a])
  have "length ds < 2 ^ 32 - 1" using cl by (auto simp: cl_inv_def cl_core_def payloads_ok_def)
  then have "unat (of_nat i :: 32 word) = i" using i by (intro unat_of_nat_32) simp
  moreover have "(of_nat i :: 32 word) = of_nat j"
    using arg_cong [OF j(3), of ack_packet_of_buffer] ack_packet_of_wire [of "of_nat i" "[]"]
      ack_packet_of_wire [of "of_nat j" "[]"] by (simp add: mk_ack_def)
  ultimately show ?thesis using j(2,4) by metis
qed

section \<open>The contract of a sending strategy\<close>

text \<open>
  \<open>trusts a\<close>: the strategy acts on the acknowledgement \<open>a\<close>. Its laws: the invariant does not
  depend on what else the client receives; only packets of the file have been sent; an empty
  window means that everything has been received; an acknowledgement that is not trusted, or
  that says the truth, is handled; the timer thread keeps the invariant, and sends nothing
  once the worker has finished; and another worker may have used the link.
\<close>

locale sending_strategy =
  fixes acknowledge_packet :: acknowledger
    and handle_time_out :: "'pc ticker"
    and damage :: "byte list \<Rightarrow> bool"
    and trusts :: "ack_packet \<Rightarrow> bool"
    and sinv :: "'pc sender_inv"
    and quiet :: "'pc \<Rightarrow> rdt_strategy \<Rightarrow> bool"
  assumes inv_mono:
      "sinv ds R pc s \<Longrightarrow> (\<And>i. i \<le> length ds \<Longrightarrow> R i \<Longrightarrow> R' i) \<Longrightarrow> sinv ds R' pc s"
    and inv_sent: "sinv ds R pc s \<Longrightarrow> x \<in> set (sent s) \<Longrightarrow> is_data_wire ds x"
    and inv_empty: "sinv ds R pc s \<Longrightarrow> window s = [] \<Longrightarrow>
      all_received ds R \<and> next_seq_number s = of_nat (Suc (length ds))"
    and inv_quiet: "sinv ds R pc s \<Longrightarrow> window s = [] \<Longrightarrow>
      quiet pc (s\<lparr>ticks := k, stats := v, sent := l\<rparr>)"
    and inv_ack: "sinv ds R pc s \<Longrightarrow> (trusts a \<Longrightarrow> R (unat (ackno a))) \<Longrightarrow>
      \<exists>s'. acknowledge_packet a s = Inr s' \<and> sinv ds R pc s'"
    and inv_tick: "sinv ds R pc s \<Longrightarrow> handle_time_out pc s = Inr (pc', s') \<Longrightarrow> sinv ds R pc' s'"
    and quiet_tick: "quiet pc s \<Longrightarrow> handle_time_out pc s = Inr (pc', s') \<Longrightarrow>
      quiet pc' s' \<and> sent s' = sent s \<and> sender s' = sender s"
    and quiet_window: "quiet pc s \<Longrightarrow> window s = []"
    and inv_sender: "sinv ds R pc s \<Longrightarrow> sender_ok (sender s)"
    and inv_check: "sinv ds R pc s \<Longrightarrow> sinv ds R pc (snd (is_done s))"
    and damage_ignored: "damage buffer \<Longrightarrow>
      \<exists>a. ack_packet_of_buffer buffer = Inr a \<and> (trusts a \<longrightarrow> ackno a = 0)"
    and inv_link: "sinv ds R pc s \<Longrightarrow> sender_ok link \<Longrightarrow> sinv ds R pc (s\<lparr>sender := link\<rparr>)"
    and quiet_link: "quiet pc s \<Longrightarrow> quiet pc (s\<lparr>sender := link\<rparr>)"
begin

text \<open>The terminal packet, when the window is empty.\<close>

lemma send_empty_ended:
  assumes inv: "sinv ds R pc s" and w: "window s = []"
  shows "\<exists>s'. send_empty_packet s = Inr s' \<and> ended ds R s' \<and> quiet pc s' \<and> sender s' = sender s"
proof -
  note e = inv_empty [OF inv w]
  let ?s = "s\<lparr>sent := sent s @ [terminal_wire ds]\<rparr>"
  have "send_empty_packet s = Inr ?s"
    using e by (simp add: send_empty_packet_def pack_mk_packet terminal_wire_def)
  moreover have "quiet pc ?s" using inv_quiet [OF inv w, where k = "ticks s" and v = "stats s"] by simp
  moreover have "ended ds R ?s" using e inv_sent [OF inv] by (auto simp: ended_def)
  ultimately show ?thesis by (intro exI [of _ ?s]) simp
qed

lemma finish_ended:
  assumes inv: "sinv ds R pc s" and w: "fst (is_done s)"
  shows "\<exists>s'. finish s = Inr s' \<and> ended ds R s' \<and> quiet pc s'"
proof -
  have "window (snd (is_done s)) = []" using w by (simp add: is_done_def now_def Let_def split: if_splits)
  from send_empty_ended [OF inv_check [OF inv] this] show ?thesis unfolding finish_def by blast
qed

text \<open>Every datagram the client can receive is handled, and keeps the invariant.\<close>

lemma deliver_data_ok:
  assumes inv: "session_inv sinv quiet ds t" and x: "x \<in> set (sent (server t)) \<or> stray x"
  shows "\<exists>c. sr_client_run (Some x) (client t) = Inr c \<and> session_inv sinv quiet ds (t\<lparr>client := c\<rparr>)"
proof -
  note c = session_client [OF inv]
  consider (stray) "stray x" | (packet) "is_data_wire ds x" | (terminal) "over t" "x = terminal_wire ds"
    using x inv inv_sent by (fastforce simp: session_inv_def ended_def split: if_splits)
  then show ?thesis
  proof cases
    case stray
    from run_stray [OF c this] obtain c' where "sr_client_run (Some x) (client t) = Inr c'" "cl_inv ds c'"
      "received c' = received (client t)" "cl_done c' = cl_done (client t)" by blast
    then show ?thesis using inv by (simp add: session_inv_def)
  next
    case packet
    then obtain c' where c': "sr_client_run (Some x) (client t) = Inr c'" "cl_inv ds c'"
      "cl_done c' = cl_done (client t)" "\<forall>j \<le> length ds. received (client t) j \<longrightarrow> received c' j"
      using run_packet [OF c] unfolding is_data_wire_def by metis
    then have "session_inv sinv quiet ds (t\<lparr>client := c'\<rparr>)"
      using inv inv_mono [of ds "received (client t)" "timer_at t" "server t" "received c'"]
        ended_mono [of ds "received (client t)" "server t" "received c'"]
      by (auto simp: session_inv_def)
    with c' show ?thesis by blast
  next
    case terminal
    then have e: "ended ds (received (client t)) (server t)" using inv by (simp add: session_inv_def)
    then have "\<forall>i. 1 \<le> i \<and> i \<le> length ds \<longrightarrow> received (client t) i"
      by (simp add: ended_def all_received_def)
    from run_terminal [OF c this] obtain c' where c': "sr_client_run (Some x) (client t) = Inr c'"
      "cl_inv ds c'" "received c' = received (client t)" using terminal(2) unfolding terminal_wire_def by blast
    then have "session_inv sinv quiet ds (t\<lparr>client := c'\<rparr>)"
      using inv terminal(1) by (simp add: session_inv_def)
    with c' show ?thesis by blast
  qed
qed

text \<open>Every acknowledgement the server can receive is handled.\<close>

lemma ack_meaning:
  assumes inv: "session_inv sinv quiet ds t"
    and x: "(\<exists>x \<in> set (cl_sent (client t)). \<exists>old. buffer = x @ old) \<or> damage buffer"
  shows "\<exists>a. ack_packet_of_buffer buffer = Inr a \<and> (trusts a \<longrightarrow> received (client t) (unat (ackno a)))"
  using x
proof
  assume "\<exists>x \<in> set (cl_sent (client t)). \<exists>old. buffer = x @ old"
  then obtain x old where x: "x \<in> set (cl_sent (client t))" "buffer = x @ old" by blast
  obtain i where "received (client t) i" "x = ack_wire (of_nat i)" "unat (of_nat i :: 32 word) = i"
    by (rule client_acks [OF session_client [OF inv] x(1)])
  then show ?thesis using x(2) by (simp add: unat_of_nat)
next
  assume "damage buffer"
  then show ?thesis using damage_ignored received_0 [OF session_client [OF inv]] by fastforce
qed

lemma deliver_ack_ok:
  assumes inv: "session_inv sinv quiet ds t" and run: "\<not> over t"
    and x: "(\<exists>x \<in> set (cl_sent (client t)). \<exists>old. buffer = x @ old) \<or> damage buffer"
  shows "\<exists>s. handle_ack acknowledge_packet buffer (server t) = Inr s \<and>
    session_inv sinv quiet ds (t\<lparr>server := s\<rparr>)"
proof -
  let ?R = "received (client t)"
  obtain a where a: "ack_packet_of_buffer buffer = Inr a" "trusts a \<Longrightarrow> ?R (unat (ackno a))"
    using ack_meaning [OF inv x] by blast
  have "sinv ds ?R (timer_at t) (server t)" using inv run by (simp add: session_inv_def)
  from inv_ack [OF this a(2)] obtain s where
    "acknowledge_packet a (server t) = Inr s" "sinv ds ?R (timer_at t) s" by blast
  then show ?thesis using a(1) inv run by (auto simp: handle_ack_def session_inv_def)
qed

text \<open>What the other workers do to the link does not matter.\<close>

lemma session_link:
  "session_inv sinv quiet ds t \<Longrightarrow> sender_ok link \<Longrightarrow>
   session_inv sinv quiet ds (t\<lparr>server := (server t)\<lparr>sender := link\<rparr>\<rparr>)"
  using inv_link [of ds _ "timer_at t" "server t" link] quiet_link
  by (cases "over t") (auto simp: session_inv_def ended_def)

lemma session_step_inv:
  assumes inv: "session_inv sinv quiet ds t"
    and st: "session_step sr_client_run stray acknowledge_packet handle_time_out damage t t'"
  shows "session_inv sinv quiet ds t'"
  using st
proof (cases rule: session_step.cases)
  case (deliver_data x c)
  then show ?thesis using deliver_data_ok [OF inv, of x] by auto
next
  case (deliver_ack buffer s)
  then show ?thesis using deliver_ack_ok [OF inv, of buffer] by auto
next
  case (timer_thread pc s)
  show ?thesis
  proof (cases "over t")
    case True
    then have q: "quiet (timer_at t) (server t)" using inv by (simp add: session_inv_def)
    from quiet_tick [OF q timer_thread(2)] True show ?thesis
      using timer_thread(1) inv by (simp add: session_inv_def ended_def)
  next
    case False
    then have "sinv ds (received (client t)) (timer_at t) (server t)" using inv by (simp add: session_inv_def)
    from inv_tick [OF this timer_thread(2)] False show ?thesis
      using timer_thread(1) inv by (simp add: session_inv_def)
  qed
next
  case (link_used link)
  then show ?thesis using session_link [OF inv] by simp
next
  case (end_of_file s)
  then show ?thesis using inv finish_ended [of ds _ "timer_at t" "server t"]
    by (auto simp: session_inv_def)
qed

text \<open>Hence what every reachable state satisfies, from any start that establishes the invariant.\<close>

lemma session_reachable_inv:
  assumes "\<And>t. start t \<Longrightarrow> session_inv sinv quiet ds t"
    and "reachable start (session_step sr_client_run stray acknowledge_packet handle_time_out damage) t"
  shows "session_inv sinv quiet ds t"
  using assms(2) by (induction rule: reachable.induct) (auto intro: assms(1) session_step_inv)

lemma session_prefix: "session_inv sinv quiet ds t \<Longrightarrow> prefix (cl_output (client t)) (concat ds)"
  by (rule cl_inv_prefix [OF session_client])

lemma session_over: "session_inv sinv quiet ds t \<Longrightarrow> over t \<Longrightarrow> cl_output (client t) = concat ds"
  by (rule cl_inv_all [OF session_client]) (auto simp: session_inv_def ended_def all_received_def)

lemma session_done: "session_inv sinv quiet ds t \<Longrightarrow> cl_done (client t) \<Longrightarrow> cl_output (client t) = concat ds"
  by (rule cl_inv_done [OF session_client])

lemma session_survives:
  assumes "session_inv sinv quiet ds t"
  shows "x \<in> set (sent (server t)) \<Longrightarrow> succeeds (sr_client_run (Some x) (client t))"
    and "\<not> over t \<Longrightarrow> x \<in> set (cl_sent (client t)) \<Longrightarrow>
      succeeds (handle_ack acknowledge_packet (x @ old) (server t))"
  using deliver_data_ok [OF assms, of x] deliver_ack_ok [OF assms, of "x @ old"]
  by (auto simp: succeeds_def)

end

text \<open>The start of a session: the client's strategy constructed, its output file open.\<close>

definition client_start :: "int \<Rightarrow> client_strategy \<Rightarrow> bool" where
  "client_start n c \<longleftrightarrow>
     (\<exists>w output_name. file_stream w = None \<and>
        c = new_client_selective_repeat n (fw_open True output_name w))"

lemma client_start_new: "client_start n (new_client_selective_repeat n (fw_open True [] new_file_writer))"
  unfolding client_start_def by (intro exI [of _ new_file_writer] exI [of _ "[]"]) (simp add: new_file_writer_def)

lemma session_initial:
  assumes "payloads_ok ds" "client_start n (client t)" "\<not> over t"
    and "sinv ds (received (client t)) (timer_at t) (server t)"
  shows "session_inv sinv quiet ds t"
proof -
  obtain w f where c: "file_stream w = None" "client t = new_client_selective_repeat n (fw_open True f w)"
    using assms(2) by (auto simp: client_start_def)
  then have "cl_inv ds (client t)" using client_initial [OF assms(1)] by simp
  moreover have "\<not> cl_done (client t)" by (simp add: c(2) new_client_selective_repeat_def)
  ultimately show ?thesis using assms(3,4) by (simp add: session_inv_def)
qed

end
