(* ===== verification/Stop_And_Wait_Inv.thy ===== *)
theory Stop_And_Wait_Inv
  imports Selective_Repeat_Inv Stop_And_Wait Session
begin

text \<open>
  The stop-and-wait sender, constructed with a window of one packet, keeps the contract of a
  sending strategy, except that it trusts every acknowledgement. Its timer thread sends through
  the pointer it took at the start of its round, so the invariant also says what that pointer
  can point to: a packet of the window, or a deleted one.
\<close>

section \<open>Pointers the timer thread holds\<close>

definition held_ok :: "ptr \<Rightarrow> rdt_strategy \<Rightarrow> bool" where
  "held_ok b s \<longleftrightarrow> b < next_addr (mem s) \<and> (cells (mem s) b \<noteq> None \<longrightarrow> b \<in> set (window s))"

text \<open>No operation turns a pointer that is fine into one that is not.\<close>

definition keeps_held :: "rdt_strategy \<Rightarrow> rdt_strategy \<Rightarrow> bool" where
  "keeps_held s s' \<longleftrightarrow> (\<forall>b. held_ok b s \<longrightarrow> held_ok b s')"

lemma keeps_heldD: "keeps_held s s' \<Longrightarrow> held_ok b s \<Longrightarrow> held_ok b s'"
  by (simp add: keeps_held_def)

lemma keeps_held_refl [simp]: "keeps_held s s"
  by (simp add: keeps_held_def)

lemma keeps_held_trans [trans]: "keeps_held s s' \<Longrightarrow> keeps_held s' s'' \<Longrightarrow> keeps_held s s''"
  by (simp add: keeps_held_def)

lemma keeps_held_cells:
  assumes "next_addr (mem s) \<le> next_addr (mem s')" "set (window s) \<subseteq> set (window s')"
    and "\<And>b. b < next_addr (mem s) \<Longrightarrow> cells (mem s) b = None \<Longrightarrow> cells (mem s') b = None"
  shows "keeps_held s s'"
  unfolding keeps_held_def held_ok_def using assms by (meson less_le_trans subsetD)

lemma set_packet_held: "set_packet a f s = Inr s' \<Longrightarrow> keeps_held s s'"
  by (rule keeps_held_cells)
     (auto simp: set_packet_def update_def deref_def rbind_Inr_iff split: option.splits if_splits)

lemma locked_erase_held: "locked_erase_unacked a s = Inr s' \<Longrightarrow> keeps_held s s'"
  by (rule keeps_held_cells)
     (auto simp: locked_erase_unacked_def lock_set_mutex_def erase_unacked_def unlock_set_mutex_def
       rbind_Inr_iff split: if_splits)

lemma transmit_held:
  assumes "transmit a s = Inr (dup, s')"
  shows "keeps_held s s'"
proof -
  from assms obtain ps out s2 where
    1: "set_packet a (set_time_stamp (clock s (ticks s)))
      (s\<lparr>sender := ps, sent := sent s @ out, ticks := Suc (ticks s)\<rparr>) = Inr s2"
    and 2: "locked_insert_unacked a s2 = Inr s'"
    by (auto simp: transmit_def now_def Let_def rbind_Inr_iff split: prod.splits)
  have "keeps_held s (s\<lparr>sender := ps, sent := sent s @ out, ticks := Suc (ticks s)\<rparr>)"
    by (rule keeps_held_cells) auto
  also have "keeps_held \<dots> s2" by (rule set_packet_held [OF 1])
  also have "keeps_held s2 s'" using 2
    by (intro keeps_held_cells)
       (auto simp: locked_insert_unacked_def lock_set_mutex_def insert_unacked_def unlock_set_mutex_def
         rbind_Inr_iff split: if_splits)
  finally show ?thesis .
qed

lemma sw_send_held: "sw_send_packet a s = Inr s' \<Longrightarrow> keeps_held s s'"
  by (auto simp: sw_send_packet_def rbind_Inr_iff intro: transmit_held)

lemma pop_held:
  assumes "delete_packet a (s\<lparr>packets_sent := k, window := as\<rparr>) = Inr s'" "window s = a # as"
  shows "keeps_held s s'"
  using assms
  by (auto simp: keeps_held_def held_ok_def delete_packet_def free_def deref_def rbind_Inr_iff
      split: option.splits if_splits)

lemma next_packet_held: "next_packet s = Inr (a, s') \<Longrightarrow> keeps_held s (s'\<lparr>window := window s' @ [b]\<rparr>)"
  by (rule keeps_held_cells)
     (auto simp: next_packet_def rbind_Inr_iff grows_def dest!: get_next_packet_grows)

lemma sw_advance_held: "sw_advance_window s = Inr s' \<Longrightarrow> keeps_held s s'"
proof (induction s rule: sw_advance_window.induct)
  case (1 s)
  show ?case
  proof (cases "window s = []")
    case True
    then show ?thesis using "1.prems" by (simp add: sw_advance_window.simps)
  next
    case False
    with "1.prems" obtain p where p: "packet_at (hd (window s)) s = Inr p"
      by (subst (asm) sw_advance_window.simps) (auto simp: rbind_Inr_iff)
    show ?thesis
    proof (cases "acked p")
      case ack: False
      then show ?thesis using "1.prems" False p by (subst (asm) sw_advance_window.simps) simp
    next
      case ack: True
      with "1.prems" False p obtain s1 where s1: "delete_packet (hd (window s))
          (s\<lparr>packets_sent := packets_sent s + 1, window := tl (window s)\<rparr>) = Inr s1"
        and r: "(if has_next (pkt_builder s1) then
            rbind (next_packet s1) (\<lambda>x.
              rbind (sw_send_packet (fst x) ((snd x)\<lparr>window := window (snd x) @ [fst x]\<rparr>)) sw_advance_window)
            else sw_advance_window s1) = Inr s'"
        by (subst (asm) sw_advance_window.simps) (auto simp: rbind_Inr_iff)
      have "keeps_held s s1" using pop_held [OF s1] False by simp
      also have "keeps_held s1 s'"
      proof (cases "has_next (pkt_builder s1)")
        case hn: False
        then show ?thesis using "1.IH"(2) [OF False p ack s1] r by simp
      next
        case hn: True
        with r obtain a s2 s3 where n: "next_packet s1 = Inr (a, s2)"
          and s3: "sw_send_packet a (s2\<lparr>window := window s2 @ [a]\<rparr>) = Inr s3"
          and fin: "sw_advance_window s3 = Inr s'"
          by (auto simp: rbind_Inr_iff)
        have "keeps_held s1 (s2\<lparr>window := window s2 @ [a]\<rparr>)" by (rule next_packet_held [OF n])
        also have "keeps_held \<dots> s3" by (rule sw_send_held [OF s3])
        also have "keeps_held s3 s'" using "1.IH"(1) [OF False p ack s1 hn n _ fin] s3 by simp
        finally show ?thesis .
      qed
      finally show ?thesis .
    qed
  qed
qed

lemma sw_acknowledge_held: "sw_acknowledge_packet a s = Inr s' \<Longrightarrow> keeps_held s s'"
  by (auto simp: sw_acknowledge_packet_def sw_ack_found_def rbind_Inr_iff split: option.splits if_splits
      intro: keeps_held_trans [OF keeps_held_trans [OF set_packet_held locked_erase_held] sw_advance_held]
        keeps_held_trans [OF set_packet_held locked_erase_held])

section \<open>Its operations keep the invariant of the window\<close>

text \<open>
  The invariant is the one of \<open>Selective_Repeat_Inv\<close> for a window of at most one packet and an
  auxiliary window that is never used.
\<close>

definition sw_core :: "byte list list \<Rightarrow> (nat \<Rightarrow> bool) \<Rightarrow> rdt_strategy \<Rightarrow> bool" where
  "sw_core ds R s \<longleftrightarrow> sr_core ds R s \<and> max_window_size s = 1 \<and> aux_window s = []"

lemma sw_core_window:
  assumes "sw_core ds R s" "a \<in> set (window s)"
  shows "window s = [a]" "set (unacked_packets s) \<subseteq> {a}"
proof -
  have "length (window s) \<le> 1" "set (unacked_packets s) \<subseteq> set (window s)"
    using assms(1) by (auto simp: sw_core_def sr_core_def sr_sizes_def sr_timed_def)
  then show "window s = [a]" "set (unacked_packets s) \<subseteq> {a}"
    using assms(2) by (cases "window s"; auto)+
qed

lemma sw_core_packet:
  assumes "sw_core ds R s" "a \<in> set (window s)"
  obtains p where "packet_at a s = Inr p" "acked p = acked_at s a"
proof -
  have "all_live [a] s"
    by (rule core_live [of ds R s]) (use assms in \<open>simp_all add: sw_core_def in_flight_def\<close>)
  then show ?thesis by (intro that) (auto simp: all_live_def packet_at_def deref_def acked_at_def)
qed

lemma sw_send_core:
  assumes core: "sw_core ds R s" and a: "a \<in> set (window s)" and na: "\<not> acked_at s a"
  shows "\<exists>s'. sw_send_packet a s = Inr s' \<and> sw_core ds R s' \<and> acked_at s' = acked_at s \<and>
    wnd_mutex s' = wnd_mutex s \<and> window s' = window s"
proof -
  from transmit_core [of ds R s a, OF _ a na] sw_core_window [OF core a] core obtain dup s' where
    t: "transmit a s = Inr (dup, s')" "sr_core ds R s'" "acked_at s' = acked_at s" "wnd_mutex s' = wnd_mutex s"
    by (auto simp: sw_core_def)
  then show ?thesis using core transmit_frame [OF t(1)]
    by (intro exI [of _ s']) (simp add: sw_send_packet_def sw_core_def)
qed

lemma sw_pop_core:
  assumes core: "sw_core ds R s" and w: "window s = a # as" and ak: "acked_at s a"
  shows "\<exists>s1. delete_packet a (s\<lparr>packets_sent := packets_sent s + 1, window := as\<rparr>) = Inr s1 \<and>
    sw_core ds R s1 \<and> window s1 = as \<and> wnd_mutex s1 = wnd_mutex s"
proof -
  have "sr_core ds R s" using core by (simp add: sw_core_def)
  from pop_core [OF this w ak] obtain s1 where
    s1: "delete_packet a (s\<lparr>window := as\<rparr>) = Inr s1" "window s1 = as" "wnd_mutex s1 = wnd_mutex s"
      "sr_core ds R (s1\<lparr>packets_sent := packets_sent s1 + 1\<rparr>)" by blast
  let ?s = "s1\<lparr>packets_sent := packets_sent s1 + 1\<rparr>"
  have "delete_packet a (s\<lparr>packets_sent := packets_sent s + 1, window := as\<rparr>) = Inr ?s"
    and "max_window_size s1 = max_window_size s" "aux_window s1 = aux_window s"
    using s1(1) by (auto simp: delete_packet_def rbind_Inr_iff)
  then show ?thesis using s1 core by (intro exI [of _ ?s]) (simp add: sw_core_def)
qed

lemma sw_push_core:
  assumes core: "sw_core ds R s" and w: "window s = []" and more: "has_next (pkt_builder s)"
  shows "\<exists>a s1 s2. next_packet s = Inr (a, s1) \<and>
    sw_send_packet a (s1\<lparr>window := window s1 @ [a]\<rparr>) = Inr s2 \<and> sw_core ds R s2 \<and>
    window s2 = [a] \<and> \<not> acked_at s2 a \<and> wnd_mutex s2 = wnd_mutex s"
proof -
  have c: "sr_core ds R s" "aux_window s = []" "max_window_size s = 1" using core by (simp_all add: sw_core_def)
  then have room: "length (window s) < nat (window_size s)" using w by (simp add: sr_core_def sr_sizes_def)
  from next_packet_core [OF c(1,2) more room] obtain a s1 where
    n: "next_packet s = Inr (a, s1)" "sr_core ds R (s1\<lparr>window := window s1 @ [a]\<rparr>)" "\<not> acked_at s1 a"
      "window s1 = window s" "aux_window s1 = []" "wnd_mutex s1 = wnd_mutex s" by blast
  let ?w = "s1\<lparr>window := window s1 @ [a]\<rparr>"
  have "sw_core ds R ?w" using n c next_packet_frame [OF n(1)] by (simp add: sw_core_def)
  from sw_send_core [OF this, of a] n(3) obtain s2 where
    "sw_send_packet a ?w = Inr s2" "sw_core ds R s2" "acked_at s2 = acked_at ?w"
    "wnd_mutex s2 = wnd_mutex ?w" "window s2 = window ?w" by (auto simp: acked_at_def)
  then show ?thesis using n w by (intro exI [of _ a] exI [of _ s1] exI [of _ s2]) (simp add: acked_at_def)
qed

text \<open>
  With a window of one, \<open>advance_window\<close> goes round at most twice: it pops the packet, and then
  finds the new one, if there is one, not acknowledged.
\<close>

lemma sw_advance_unacked:
  assumes "sw_core ds R s" "window s = [a]" "\<not> acked_at s a"
  shows "sw_advance_window s = Inr s"
proof -
  obtain p where "packet_at a s = Inr p" "acked p = acked_at s a"
    by (rule sw_core_packet [OF assms(1), of a]) (use assms(2) in simp_all)
  then show ?thesis using assms by (subst sw_advance_window.simps) simp
qed

lemma sw_advance_core:
  assumes core: "sw_core ds R s" and set: "settled s"
  shows "\<exists>s'. sw_advance_window s = Inr s' \<and> sw_core ds R s' \<and> front_ok s' \<and> settled s' \<and>
    wnd_mutex s' = wnd_mutex s"
proof (cases "window s = [] \<or> \<not> acked_at s (hd (window s))")
  case True
  then have "sw_advance_window s = Inr s"
    using sw_advance_unacked [OF core] sw_core_window [OF core, of "hd (window s)"]
    by (cases "window s = []") (auto simp: sw_advance_window.simps)
  then show ?thesis using core set True by (auto simp: front_ok_def)
next
  case False
  define a where "a = hd (window s)"
  have w: "window s = [a]" and ak: "acked_at s a"
    using False sw_core_window [OF core, of a] by (simp_all add: a_def)
  obtain p where p: "packet_at a s = Inr p" "acked p"
    by (rule sw_core_packet [OF core, of a]) (use w ak in simp_all)
  obtain s1 where s1: "delete_packet a (s\<lparr>packets_sent := packets_sent s + 1, window := []\<rparr>) = Inr s1"
    "sw_core ds R s1" "window s1 = []" "wnd_mutex s1 = wnd_mutex s"
    using sw_pop_core [OF core w ak] by blast
  have step: "sw_advance_window s = (if has_next (pkt_builder s1) then
      rbind (next_packet s1) (\<lambda>x.
        rbind (sw_send_packet (fst x) ((snd x)\<lparr>window := window (snd x) @ [fst x]\<rparr>)) sw_advance_window)
      else sw_advance_window s1)"
    using p s1(1) w by (subst sw_advance_window.simps) simp
  show ?thesis
  proof (cases "has_next (pkt_builder s1)")
    case hn: False
    then have "sw_advance_window s = Inr s1" using step s1(3) by (simp add: sw_advance_window.simps)
    then show ?thesis using s1 hn by (simp add: front_ok_def settled_def sw_core_def)
  next
    case hn: True
    obtain b s2 s3 where n: "next_packet s1 = Inr (b, s2)"
      "sw_send_packet b (s2\<lparr>window := window s2 @ [b]\<rparr>) = Inr s3" "sw_core ds R s3"
      "window s3 = [b]" "\<not> acked_at s3 b" "wnd_mutex s3 = wnd_mutex s1"
      using sw_push_core [OF s1(2,3) hn] by blast
    then have "sw_advance_window s = Inr s3" using step hn sw_advance_unacked [OF n(3-5)] by simp
    then show ?thesis using n s1(4) by (simp add: front_ok_def settled_def)
  qed
qed

section \<open>Acknowledging\<close>

definition sw_live :: "byte list list \<Rightarrow> (nat \<Rightarrow> bool) \<Rightarrow> rdt_strategy \<Rightarrow> bool" where
  "sw_live ds R s \<longleftrightarrow> sw_core ds R s \<and> front_ok s \<and> settled s \<and> \<not> wnd_mutex s"

lemma sw_live_sr_inv: "sw_live ds R s \<Longrightarrow> sr_inv ds R s"
  by (simp add: sw_live_def sw_core_def sr_inv_settled)

lemma sw_acknowledge_live:
  assumes live: "sw_live ds R s" and r: "R (unat (ackno a))"
  shows "\<exists>s'. sw_acknowledge_packet a s = Inr s' \<and> sw_live ds R s'"
proof -
  have core: "sw_core ds R s" and f: "front_ok s" and wm: "\<not> wnd_mutex s" using live by (simp_all add: sw_live_def)
  then have sc: "sr_core ds R s" and mx: "max_window_size s = 1" "aux_window s = []"
    by (simp_all add: sw_core_def)
  have "all_live (window s) s" by (rule core_live [OF sc]) (simp add: in_flight_def)
  from find_seqno_succeeds [OF this, of "ackno a" 0] obtain res where
    fr: "find_seqno (ackno a) 0 (window s) s = Inr res" by blast
  show ?thesis
  proof (cases res)
    case None
    then show ?thesis using fr live by (simp add: sw_acknowledge_packet_def)
  next
    case (Some kb)
    obtain k b where kb: "kb = (k, b)" by (cases kb)
    with fr Some have "find_seqno (ackno a) 0 (window s) s = Inr (Some (k, b))" by simp
    from find_seqno_Some [OF this] have k: "k < length (window s)" "b = window s ! k"
      and n: "seqno (the (cells (mem s) b)) = ackno a" by auto
    then have b: "b \<in> set (window s)" by simp
    note w = sw_core_window [OF core b]
    have k0: "k = 0" using k(1) w(1) by simp
    obtain p where p: "packet_at b s = Inr p" "acked p = acked_at s b" by (rule sw_core_packet [OF core b])
    have na: "\<not> acked_at s b" using f w(1) by (simp add: front_ok_def)
    obtain s1 s2 where s2: "set_packet b (set_ack True) s = Inr s1" "locked_erase_unacked b s1 = Inr s2"
      "sr_core ds R s2" "window s2 = window s" "wnd_mutex s2 = wnd_mutex s"
      using mark_acked_core [OF sc b] r n by auto
    have "sw_core ds R s2"
      using s2 mx by (auto simp: sw_core_def set_packet_def locked_erase_unacked_def lock_set_mutex_def
          erase_unacked_def unlock_set_mutex_def rbind_Inr_iff split: if_splits)
    moreover have "settled s2" using s2(4) w(1) by (simp add: settled_def)
    ultimately obtain s' where "sw_advance_window s2 = Inr s'" "sw_core ds R s'" "front_ok s'" "settled s'"
      "wnd_mutex s' = wnd_mutex s2" using sw_advance_core by blast
    then show ?thesis
      using fr Some kb k0 p na s2 wm by (simp add: sw_acknowledge_packet_def sw_ack_found_def sw_live_def)
  qed
qed

section \<open>The timer thread\<close>

fun sw_pointer :: "sw_timer_pc \<Rightarrow> ptr option" where
  "sw_pointer W_Loop = None"
| "sw_pointer W_Begin = None"
| "sw_pointer (W_Compare a) = Some a"
| "sw_pointer (W_Erase a) = Some a"
| "sw_pointer (W_Resend a) = Some a"

definition sw_inv :: "byte list list \<Rightarrow> (nat \<Rightarrow> bool) \<Rightarrow> sw_timer_pc \<Rightarrow> rdt_strategy \<Rightarrow> bool" where
  "sw_inv ds R pc s \<longleftrightarrow> sw_live ds R s \<and> (case sw_pointer pc of None \<Rightarrow> True | Some a \<Rightarrow> held_ok a s)"

definition sw_quiet :: "sw_timer_pc \<Rightarrow> rdt_strategy \<Rightarrow> bool" where
  "sw_quiet pc s \<longleftrightarrow> window s = [] \<and> unacked_packets s = [] \<and>
     (case sw_pointer pc of None \<Rightarrow> True | Some a \<Rightarrow> cells (mem s) a = None)"

lemma sw_unacked_held:
  assumes "sw_live ds R s" "unacked_packets s = a # as"
  shows "held_ok a s"
proof -
  have sc: "sr_core ds R s" using assms(1) by (simp add: sw_live_def sw_core_def)
  then have w: "a \<in> set (window s)" using assms(2) by (auto simp: sr_core_def sr_timed_def)
  then have "all_live [a] s" by (intro core_live [OF sc]) (auto simp: in_flight_def)
  moreover have "store_ok (mem s)" using sc by (auto simp: sr_core_def sr_data_def sr_layout_def)
  ultimately show ?thesis using w by (auto simp: held_ok_def all_live_def dest: store_ok_less)
qed

lemma sw_live_ticks: "sw_live ds R (s\<lparr>ticks := n\<rparr>) = sw_live ds R s"
  using core_cong [of "s\<lparr>ticks := n\<rparr>" s] by (simp add: sw_live_def sw_core_def front_ok_def settled_def acked_at_def)

lemma sw_live_erase:
  assumes live: "sw_live ds R s" and e: "locked_erase_unacked a s = Inr s'"
  shows "sw_live ds R s'"
proof -
  have sc: "sr_core ds R s" using live by (simp add: sw_live_def sw_core_def)
  have "all_live (a # unacked_packets s) s" "\<not> set_mutex s"
    using e by (auto simp: locked_erase_unacked_def lock_set_mutex_def erase_unacked_def all_live_def
        rbind_Inr_iff split: if_splits)
  then have "s' = s\<lparr>unacked_packets := set_erase (by_key (stamp s)) a (unacked_packets s)\<rparr>"
    using e locked_erase_eq by simp
  then show ?thesis using erase_core [OF sc, of a] live
    by (simp add: sw_live_def sw_core_def front_ok_def settled_def acked_at_def)
qed

lemma sw_timer_step_inv:
  assumes inv: "sw_inv ds R pc s" and st: "sw_timer_step pc s = Inr (pc', s')"
  shows "sw_inv ds R pc' s'"
proof (cases pc)
  case W_Loop
  then show ?thesis using st inv by (auto simp: sw_inv_def)
next
  case W_Begin
  then show ?thesis using st inv sw_unacked_held
    by (fastforce simp: sw_inv_def rbind_Inr_iff timer_first_Inr)
next
  case (W_Compare a)
  then have "s' = s\<lparr>ticks := Suc (ticks s)\<rparr>" "pc' = W_Erase a \<or> pc' = W_Loop" using st
    by (auto simp: timer_expired_def now_def Let_def rbind_Inr_iff split: if_splits)
  then show ?thesis using inv W_Compare by (auto simp: sw_inv_def sw_live_ticks held_ok_def)
next
  case (W_Erase a)
  then have e: "locked_erase_unacked a s = Inr s'" "pc' = W_Resend a" using st by (auto simp: rbind_Inr_iff)
  have "held_ok a s" using inv W_Erase by (simp add: sw_inv_def)
  then have "held_ok a s'" by (rule keeps_heldD [OF locked_erase_held [OF e(1)]])
  then show ?thesis using sw_live_erase [OF _ e(1)] inv e(2) by (simp add: sw_inv_def)
next
  case (W_Resend a)
  then have e: "sw_send_packet a s = Inr s'" "pc' = W_Loop" using st by (auto simp: rbind_Inr_iff)
  have live: "sw_live ds R s" and h: "held_ok a s" using inv W_Resend by (simp_all add: sw_inv_def)
  have core: "sw_core ds R s" using live by (simp add: sw_live_def)
  have "cells (mem s) a \<noteq> None"
    using e(1) by (auto simp: sw_send_packet_def transmit_def packet_at_def deref_def rbind_Inr_iff
        split: option.splits)
  then have a: "a \<in> set (window s)" using h by (simp add: held_ok_def)
  have na: "\<not> acked_at s a" using sw_core_window(1) [OF core a] live by (simp add: sw_live_def front_ok_def)
  from sw_send_core [OF core a na] e(1) have "sw_core ds R s'" "acked_at s' = acked_at s"
    "wnd_mutex s' = wnd_mutex s" "window s' = window s" by auto
  then show ?thesis using live e(2) a by (auto simp: sw_inv_def sw_live_def front_ok_def settled_def)
qed

text \<open>After the end the timer can no longer send: the pointer it may hold is dead.\<close>

lemma sw_quiet_tick:
  assumes q: "sw_quiet pc s" and st: "sw_timer_step pc s = Inr (pc', s')"
  shows "sw_quiet pc' s' \<and> sent s' = sent s \<and> sender s' = sender s"
proof (cases pc)
  case W_Loop
  then show ?thesis using st q by (auto simp: sw_quiet_def)
next
  case W_Begin
  then show ?thesis using st q by (auto simp: sw_quiet_def rbind_Inr_iff timer_first_Inr)
next
  case (W_Compare a)
  then show ?thesis using st q
    by (auto simp: sw_quiet_def timer_expired_def now_def Let_def packet_at_def deref_def rbind_Inr_iff)
next
  case (W_Erase a)
  then show ?thesis using st q
    by (auto simp: sw_quiet_def locked_erase_unacked_def lock_set_mutex_def erase_unacked_def all_live_def
        rbind_Inr_iff split: if_splits)
next
  case (W_Resend a)
  then show ?thesis using st q
    by (auto simp: sw_quiet_def sw_send_packet_def transmit_def packet_at_def deref_def rbind_Inr_iff)
qed

section \<open>The contract\<close>

lemma sw_acknowledge_inv:
  assumes "sw_inv ds R pc s" "R (unat (ackno a))"
  shows "\<exists>s'. sw_acknowledge_packet a s = Inr s' \<and> sw_inv ds R pc s'"
proof -
  have "sw_live ds R s" using assms(1) by (simp add: sw_inv_def)
  from sw_acknowledge_live [of ds R s, OF this assms(2)] obtain s' where
    s': "sw_acknowledge_packet a s = Inr s'" "sw_live ds R s'" by blast
  then show ?thesis using assms(1) keeps_heldD [OF sw_acknowledge_held [OF s'(1)]]
    by (auto simp: sw_inv_def split: option.splits)
qed

interpretation stop_and_wait: sending_strategy sw_acknowledge_packet sw_timer_step zero_ack
    "\<lambda>_. True" sw_inv sw_quiet
proof (unfold_locales, goal_cases)
  case (1 ds R pc s R')
  then have "sr_inv ds R' s" using sr_inv_mono [of ds R s R'] sw_live_sr_inv by (auto simp: sw_inv_def)
  then show ?case using 1(1) by (simp add: sw_inv_def sw_live_def sw_core_def sr_inv_settled)
next
  case (2 ds R pc s x)
  then have "sr_inv ds R s" by (simp add: sw_inv_def sw_live_sr_inv)
  then show ?case using sr_inv_sent 2(2) by (simp add: is_data_wire_def)
next
  case (3 ds R pc s)
  then have "sr_inv ds R s" by (simp add: sw_inv_def sw_live_sr_inv)
  then show ?case using sr_inv_empty 3(2) by (simp add: all_received_def)
next
  case (4 ds R pc s)
  then have "sr_inv ds R s" by (simp add: sw_inv_def sw_live_sr_inv)
  then show ?case using sr_inv_empty(1) 4
    by (auto simp: sw_quiet_def sw_inv_def held_ok_def split: option.splits)
next
  case 5
  then show ?case by (intro sw_acknowledge_inv) simp_all
next
  case 6
  then show ?case by (rule sw_timer_step_inv)
next
  case 7
  then show ?case by (rule sw_quiet_tick)
next
  case 8
  then show ?case by (simp add: sw_quiet_def)
next
  case 9
  then show ?case by (simp add: sw_inv_def sw_live_def sw_core_def sr_core_def)
next
  case (10 ds R pc s)
  then show ?case
    by (simp add: sw_inv_def sw_live_def sw_core_def sr_core_check front_ok_def settled_def held_ok_def
        is_done_frame split: option.splits)
next
  case 11
  then show ?case by (simp add: zero_ack_def)
next
  case 12
  then show ?case
    by (simp add: sw_inv_def sw_live_def sw_core_def sr_core_link front_ok_def acked_at_def settled_def
        held_ok_def split: option.splits)
next
  case 13
  then show ?case by (simp add: sw_quiet_def split: option.splits)
qed

end
