(* ===== verification/File_Transfer.thy ===== *)
theory File_Transfer
  imports Selective_Repeat_Inv Session
begin

text \<open>
  The session of \<open>Session\<close> with the selective-repeat sender: the sender satisfies the contract of
  a sending strategy, so what the contract gives holds in every reachable state.
\<close>

section \<open>The sender keeps the contract\<close>

definition idle_ack :: "byte list \<Rightarrow> bool" where
  "idle_ack buffer \<longleftrightarrow> damaged_ack buffer \<or> zero_ack buffer"

abbreviation transfer_step :: "timer_pc transfer \<Rightarrow> timer_pc transfer \<Rightarrow> bool" where
  "transfer_step \<equiv> session_step sr_client_run stray sr_acknowledge_packet sr_timer_step idle_ack"

definition sr_quiet :: "timer_pc \<Rightarrow> rdt_strategy \<Rightarrow> bool" where
  "sr_quiet pc s \<longleftrightarrow> window s = [] \<and> unacked_packets s = []"

text \<open>When the transfer is over the timer thread changes nothing but the clock.\<close>

lemma sr_quiet_tick:
  assumes s: "sr_quiet pc s" and st: "sr_timer_step pc s = Inr (pc', s')"
  shows "sr_quiet pc' s' \<and> sent s' = sent s \<and> sender s' = sender s"
proof -
  have w: "window s = []" "unacked_packets s = []" using s by (simp_all add: sr_quiet_def)
  have "s' = s \<or> s' = s\<lparr>ticks := Suc (ticks s)\<rparr>"
  proof (cases pc)
    case T_Loop
    then show ?thesis using st by simp
  next
    case T_Begin
    then show ?thesis using st w by (auto simp: rbind_Inr_iff timer_first_Inr)
  next
    case (T_Compare a)
    then show ?thesis using st
      by (auto simp: timer_expired_def now_def Let_def rbind_Inr_iff split: if_splits)
  next
    case (T_Erase a)
    then show ?thesis using st w
      by (auto simp: sr_timer_erase_def lock_set_mutex_def rbind_Inr_iff all_live_def split: if_splits)
  next
    case T_Print
    then show ?thesis using st w
      by (auto simp: sr_timer_print_def lock_wnd_mutex_def rbind_Inr_iff all_live_def split: if_splits)
  next
    case T_Resend
    then show ?thesis using st w
      by (auto simp: sr_timer_resend_def lock_wnd_mutex_def rbind_Inr_iff shrink_window_def Let_def
          split: if_splits)
  qed
  then show ?thesis using s by (auto simp: sr_quiet_def)
qed

interpretation selective_repeat: sending_strategy sr_acknowledge_packet sr_timer_step idle_ack
    "\<lambda>a. ack_cksum a = checksum_of (ack_len a) (ackno a) []" "\<lambda>ds R pc. sr_inv ds R" sr_quiet
proof (unfold_locales, goal_cases)
  case 1
  then show ?case by (rule sr_inv_mono)
next
  case 2
  then show ?case using sr_inv_sent by (simp add: is_data_wire_def)
next
  case 3
  then show ?case using sr_inv_empty by (simp add: all_received_def)
next
  case 4
  then show ?case using sr_inv_empty(1) by (simp add: sr_quiet_def)
next
  case 5
  then show ?case by (rule sr_acknowledge_inv)
next
  case 6
  then show ?case by (rule sr_timer_step_inv)
next
  case 7
  then show ?case by (rule sr_quiet_tick)
next
  case 8
  then show ?case by (simp add: sr_quiet_def)
next
  case 9
  then show ?case by (simp add: sr_inv_def sr_core_def)
next
  case 10
  then show ?case by (rule sr_inv_check)
next
  case 11
  then show ?case by (auto simp: idle_ack_def damaged_ack_def zero_ack_def calculate_ack_checksum_eq)
next
  case 12
  then show ?case by (rule sr_inv_link)
next
  case 13
  then show ?case by (simp add: sr_quiet_def)
qed

abbreviation transfer_inv :: "byte list list \<Rightarrow> timer_pc transfer \<Rightarrow> bool" where
  "transfer_inv \<equiv> session_inv (\<lambda>ds R pc. sr_inv ds R) sr_quiet"

text \<open>
  The start: the server's strategy constructed on the file and started over the link
  \<open>link\<close>, the client's constructed with its window size, its output file open.
\<close>

definition start_server ::
    "path \<Rightarrow> (path \<rightharpoonup> byte list) \<Rightarrow> path \<Rightarrow> int \<Rightarrow> packet_sender \<Rightarrow> (nat \<Rightarrow> nat) \<Rightarrow> rdt_strategy res" where
  "start_server cwd fs name mx link clk = rbind (new_selective_repeat cwd fs name mx link clk) sr_start"

definition transfer_start :: "byte list \<Rightarrow> packet_sender \<Rightarrow> int \<Rightarrow> timer_pc transfer \<Rightarrow> bool" where
  "transfer_start contents link client_window t \<longleftrightarrow>
     (\<exists>cwd fs name mx clk.
        usable cwd fs name mx link \<and> fs (c_str (cwd @ [47] @ name)) = Some contents \<and>
        start_server cwd fs name mx link clk = Inr (server t)) \<and>
     timer_at t = T_Loop \<and> \<not> over t \<and> client_start client_window (client t)"

lemma usable_payloads_ok:
  "usable cwd fs name mx link \<Longrightarrow> fs (c_str (cwd @ [47] @ name)) = Some contents \<Longrightarrow>
   payloads_ok (chunks contents)"
  using chunks_bounds [of _ contents] by (auto simp: payloads_ok_def usable_def)

lemma transfer_startI:
  assumes "usable cwd fs name mx link" "fs (c_str (cwd @ [47] @ name)) = Some contents"
    and "start_server cwd fs name mx link clk = Inr s"
  shows "transfer_start contents link n \<lparr>server = s, timer_at = T_Loop, over = False,
    client = new_client_selective_repeat n (fw_open True [] new_file_writer)\<rparr>"
  unfolding transfer_start_def
  by (intro conjI exI [of _ cwd] exI [of _ fs] exI [of _ name] exI [of _ mx] exI [of _ clk])
     (use assms client_start_new in simp_all)

lemma transfer_start_inv:
  assumes "transfer_start contents link n t"
  shows "transfer_inv (chunks contents) t"
proof -
  from assms obtain cwd fs name mx clk where
    u: "usable cwd fs name mx link" and f: "fs (c_str (cwd @ [47] @ name)) = Some contents" and
    s: "start_server cwd fs name mx link clk = Inr (server t)" and t: "\<not> over t" "client_start n (client t)"
    by (auto simp: transfer_start_def)
  show ?thesis
  proof (rule session_initial [OF _ t(2,1)])
    show "payloads_ok (chunks contents)" by (rule usable_payloads_ok [where fs = fs, OF u f])
    show "sr_inv (chunks contents) (received (client t)) (server t)"
      using sr_initial_inv [where fs = fs and clk = clk, OF u f, of "received (client t)"] s
      by (simp add: start_server_def)
  qed
qed

definition transfer_reachable :: "byte list \<Rightarrow> packet_sender \<Rightarrow> int \<Rightarrow> timer_pc transfer \<Rightarrow> bool" where
  "transfer_reachable contents link n t \<longleftrightarrow> reachable (transfer_start contents link n) transfer_step t"

lemma reachable_inv:
  assumes "transfer_reachable contents link n t"
  shows "transfer_inv (chunks contents) t"
  by (rule selective_repeat.session_reachable_inv [OF _ assms [unfolded transfer_reachable_def]])
     (rule transfer_start_inv)

end
