(* ===== verification/Session_Progress.thy ===== *)
theory Session_Progress
  imports Session
begin

text \<open>
  Completing a session: a sending strategy that keeps the first packet of its window on the
  network, and moves on when that packet is acknowledged, can always bring the file to the
  client, whatever has happened before.
\<close>

section \<open>Sequence numbers and acknowledgements of the client\<close>

lemma received_expected:
  assumes cl: "cl_inv ds c" and R: "\<forall>i. 1 \<le> i \<and> i \<le> k \<longrightarrow> received c i" and k: "k < length ds"
  shows "k < unat (expected_seqno c)"
proof -
  obtain e where ec: "cl_core ds e c" and e: "of_nat e \<notin> seqno ` set (cl_window c)"
    using cl by (auto simp: cl_inv_def)
  have "\<not> e \<le> k"
    using R e ec core_number [OF ec] by (force simp: received_def cl_core_def)
  then show ?thesis using core_number [OF ec] by simp
qed

lemma run_acks:
  assumes cl: "cl_inv ds c" and i: "1 \<le> i" "i \<le> length ds" "i \<le> unat (expected_seqno c)"
    and n: "1 \<le> cl_window_size c" "cl_window_size c < 2 ^ 31"
  shows "\<exists>c'. sr_client_run (Some (data_wire_of ds i)) c = Inr c' \<and> ack_wire (of_nat i) \<in> set (cl_sent c')"
proof -
  have "length (ds ! (i - 1)) \<le> 500" "sorted_by seqno (cl_window c)"
    using cl i by (auto simp: cl_inv_def cl_core_def payloads_ok_def)
  from run_wire [OF this] accept_acks [OF cl i n] show ?thesis by (simp add: data_wire_of_def)
qed

section \<open>The contract\<close>

text \<open>
  \<open>live ds s\<close>: what the sender keeps on the network; \<open>front s\<close>: how many packets have left
  its window.
\<close>

definition session_live ::
    "'pc sender_inv \<Rightarrow> ('pc \<Rightarrow> rdt_strategy \<Rightarrow> bool) \<Rightarrow> (byte list list \<Rightarrow> rdt_strategy \<Rightarrow> bool) \<Rightarrow>
     byte list list \<Rightarrow> int \<Rightarrow> 'pc transfer \<Rightarrow> bool" where
  "session_live sinv quiet live ds n t \<longleftrightarrow>
     session_inv sinv quiet ds t \<and> cl_window_size (client t) = n \<and> (\<not> over t \<longrightarrow> live ds (server t))"

locale posting_strategy = sending_strategy +
  fixes live :: "byte list list \<Rightarrow> rdt_strategy \<Rightarrow> bool"
    and front :: "rdt_strategy \<Rightarrow> nat"
  assumes live_ack: "sinv ds R pc s \<Longrightarrow> live ds s \<Longrightarrow> (trusts a \<Longrightarrow> R (unat (ackno a))) \<Longrightarrow>
      acknowledge_packet a s = Inr s' \<Longrightarrow> live ds s'"
    and live_tick: "sinv ds R pc s \<Longrightarrow> live ds s \<Longrightarrow> handle_time_out pc s = Inr (pc', s') \<Longrightarrow> live ds s'"
    and front_posted: "sinv ds R pc s \<Longrightarrow> live ds s \<Longrightarrow> window s \<noteq> [] \<Longrightarrow>
      front s < length ds \<and> (\<forall>i. 1 \<le> i \<and> i \<le> front s \<longrightarrow> R i) \<and>
      data_wire_of ds (Suc (front s)) \<in> set (sent s)"
    and front_moves: "sinv ds R pc s \<Longrightarrow> live ds s \<Longrightarrow> window s \<noteq> [] \<Longrightarrow> R (Suc (front s)) \<Longrightarrow>
      acknowledge_packet (mk_ack (of_nat (Suc (front s)))) s = Inr s' \<Longrightarrow> front s < front s'"
    and live_link: "live ds s \<Longrightarrow> loss_probability link = loss_probability (sender s) \<Longrightarrow>
      live ds (s\<lparr>sender := link\<rparr>)"
begin

lemma live_step:
  assumes inv: "session_live sinv quiet live ds n t"
    and st: "session_step sr_client_run stray acknowledge_packet handle_time_out damage t t'"
  shows "session_live sinv quiet live ds n t'"
proof -
  have ti: "session_inv sinv quiet ds t" using inv by (simp add: session_live_def)
  have "session_inv sinv quiet ds t'" using session_step_inv [OF ti st] .
  moreover have "cl_window_size (client t') = n \<and> (\<not> over t' \<longrightarrow> live ds (server t'))"
    using st
  proof (cases rule: session_step.cases)
    case (deliver_data x c)
    then show ?thesis using inv run_window_size by (simp add: session_live_def)
  next
    case (deliver_ack buffer s)
    then obtain a where a: "ack_packet_of_buffer buffer = Inr a"
      "trusts a \<Longrightarrow> received (client t) (unat (ackno a))"
      using ack_meaning [OF ti deliver_ack(4)] by auto
    have ack: "acknowledge_packet a (server t) = Inr s"
      using deliver_ack(5) a(1) by (simp add: handle_ack_def)
    have si: "sinv ds (received (client t)) (timer_at t) (server t)" and lv: "live ds (server t)"
      using inv deliver_ack(2) by (simp_all add: session_live_def session_inv_def)
    have "live ds s" by (rule live_ack [OF si lv _ ack]) (rule a(2))
    then show ?thesis using deliver_ack inv by (simp add: session_live_def)
  next
    case (timer_thread pc s)
    show ?thesis
    proof (cases "over t")
      case True
      then show ?thesis using timer_thread inv by (simp add: session_live_def)
    next
      case False
      then have "sinv ds (received (client t)) (timer_at t) (server t)" "live ds (server t)"
        using inv by (simp_all add: session_live_def session_inv_def)
      from live_tick [OF this timer_thread(2)] have "live ds s" .
      then show ?thesis using timer_thread inv False by (simp add: session_live_def)
    qed
  next
    case (link_used link)
    then show ?thesis using inv live_link by (simp add: session_live_def)
  next
    case (end_of_file s)
    then show ?thesis using inv by (simp add: session_live_def)
  qed
  ultimately show ?thesis by (simp add: session_live_def)
qed

text \<open>
  One round: the first packet of the window is delivered, acknowledged, and its
  acknowledgement processed.
\<close>

lemma round_trip_step:
  assumes inv: "session_live sinv quiet live ds n t" and n: "1 \<le> n" "n < 2 ^ 31" and run: "\<not> over t"
    and w: "window (server t) \<noteq> []"
  shows "\<exists>t'. (session_step sr_client_run stray acknowledge_packet handle_time_out damage)\<^sup>*\<^sup>* t t' \<and>
    session_live sinv quiet live ds n t' \<and> \<not> over t' \<and>
    length ds - front (server t') < length ds - front (server t) \<and> timer_at t' = timer_at t \<and>
    acknowledge_packet (mk_ack (of_nat (Suc (front (server t))))) (server t) = Inr (server t')"
proof -
  let ?s = "server t" let ?c = "client t" let ?step = "session_step sr_client_run stray acknowledge_packet handle_time_out damage"
  have ti: "session_inv sinv quiet ds t" and lv: "live ds ?s" and nw: "cl_window_size ?c = n"
    using inv run by (simp_all add: session_live_def)
  then have cl: "cl_inv ds ?c" and sr: "sinv ds (received ?c) (timer_at t) ?s" and nd: "\<not> cl_done ?c"
    using run by (auto simp: session_inv_def)
  define i where "i = Suc (front ?s)"
  note fp = front_posted [OF sr lv w]
  have i: "1 \<le> i" "i \<le> length ds" and sent: "data_wire_of ds i \<in> set (sent ?s)"
    using fp by (simp_all add: i_def)
  have ie: "i \<le> unat (expected_seqno ?c)" using received_expected [OF cl, of "front ?s"] fp by (simp add: i_def Suc_le_eq)
  obtain c where c: "sr_client_run (Some (data_wire_of ds i)) ?c = Inr c"
    and ac: "ack_wire (of_nat i) \<in> set (cl_sent c)"
    using run_acks [OF cl i ie] n nw by auto
  let ?t1 = "t\<lparr>client := c\<rparr>"
  have s1: "?step t ?t1" using nd sent c by (intro session_step.deliver_data) auto
  have inv1: "session_live sinv quiet live ds n ?t1" using live_step [OF inv s1] .
  then have ti1: "session_inv sinv quiet ds ?t1" by (simp add: session_live_def)
  have tr: "\<exists>x \<in> set (cl_sent (client ?t1)). \<exists>old. ack_wire (of_nat i) = x @ old"
    using ac by (intro bexI [of _ "ack_wire (of_nat i)"] exI [of _ "[]"]) simp_all
  have ap: "ack_packet_of_buffer (ack_wire (of_nat i)) = Inr (mk_ack (of_nat i))"
    using ack_packet_of_wire [of "of_nat i" "[]"] by simp
  obtain s where s: "handle_ack acknowledge_packet (ack_wire (of_nat i)) ?s = Inr s"
    using deliver_ack_ok [OF ti1 _ disjI1 [OF tr]] run by auto
  let ?t2 = "?t1\<lparr>server := s\<rparr>"
  have "\<not> fst (is_done (server ?t1))" using w by (simp add: is_done_def)
  then have s2: "?step ?t1 ?t2"
    using run tr s by (intro session_step.deliver_ack [of ?t1 "ack_wire (of_nat i)"]) auto
  have ack: "acknowledge_packet (mk_ack (of_nat i)) ?s = Inr s" using s ap by (simp add: handle_ack_def)
  have sr1: "sinv ds (received c) (timer_at t) ?s" using ti1 run by (simp add: session_inv_def)
  have "cl_inv ds c" using session_client [OF ti1] by simp
  from acknowledged_received [OF this i(2) ac] have "received c (Suc (front ?s))" by (simp add: i_def)
  from front_moves [OF sr1 lv w this] ack have "front ?s < front s" by (simp add: i_def)
  moreover have "front ?s < length ds" using i by (simp add: i_def)
  ultimately have "length ds - front s < length ds - front ?s" by simp
  moreover have "?step\<^sup>*\<^sup>* t ?t2" using s1 s2 by (meson converse_rtranclp_into_rtranclp rtranclp.rtrancl_refl)
  ultimately show ?thesis using live_step [OF inv1 s2] run ack
    by (intro exI [of _ ?t2]) (simp add: i_def)
qed

lemma run_to_empty:
  "session_live sinv quiet live ds n t \<Longrightarrow> 1 \<le> n \<Longrightarrow> n < 2 ^ 31 \<Longrightarrow> \<not> over t \<Longrightarrow>
   \<exists>t'. (session_step sr_client_run stray acknowledge_packet handle_time_out damage)\<^sup>*\<^sup>* t t' \<and>
     session_live sinv quiet live ds n t' \<and> \<not> over t' \<and> window (server t') = []"
proof (induction "length ds - front (server t)" arbitrary: t rule: less_induct)
  case less
  show ?case
  proof (cases "window (server t) = []")
    case True
    then show ?thesis using less.prems by blast
  next
    case False
    from round_trip_step [OF less.prems False] obtain t1 where
      t1: "(session_step sr_client_run stray acknowledge_packet handle_time_out damage)\<^sup>*\<^sup>* t t1"
      "session_live sinv quiet live ds n t1" "\<not> over t1"
      "length ds - front (server t1) < length ds - front (server t)" by blast
    from less.hyps [OF t1(4,2) less.prems(2,3) t1(3)] t1(1) show ?thesis
      by (meson rtranclp_trans)
  qed
qed

lemma run_to_over:
  assumes inv: "session_live sinv quiet live ds n t" and n: "1 \<le> n" "n < 2 ^ 31"
  shows "\<exists>t'. (session_step sr_client_run stray acknowledge_packet handle_time_out damage)\<^sup>*\<^sup>* t t' \<and>
    session_live sinv quiet live ds n t' \<and> over t'"
proof (cases "over t")
  case True
  then show ?thesis using inv by blast
next
  case False
  from run_to_empty [OF inv n False] obtain t1 where
    t1: "(session_step sr_client_run stray acknowledge_packet handle_time_out damage)\<^sup>*\<^sup>* t t1"
      "session_live sinv quiet live ds n t1" "\<not> over t1" "window (server t1) = []" by blast
  have d: "fst (is_done (server t1))" using t1(4) by (simp add: is_done_def Let_def now_def)
  have "sinv ds (received (client t1)) (timer_at t1) (server t1)"
    using t1(2,3) by (simp add: session_live_def session_inv_def)
  from finish_ended [OF this d] obtain s where "finish (server t1) = Inr s" by blast
  from session_step.end_of_file [OF t1(3) d this, of sr_client_run stray acknowledge_packet handle_time_out damage] have
    st: "session_step sr_client_run stray acknowledge_packet handle_time_out damage t1 (t1\<lparr>server := s, over := True\<rparr>)" .
  from live_step [OF t1(2) st] st t1(1) show ?thesis
    by (intro exI [of _ "t1\<lparr>server := s, over := True\<rparr>"]) simp
qed

lemma run_to_done:
  assumes inv: "session_live sinv quiet live ds n t" and n: "1 \<le> n" "n < 2 ^ 31" and o: "over t"
  shows "\<exists>t'. (session_step sr_client_run stray acknowledge_packet handle_time_out damage)\<^sup>*\<^sup>* t t' \<and>
    session_live sinv quiet live ds n t' \<and> cl_done (client t')"
proof (cases "cl_done (client t)")
  case True
  then show ?thesis using inv by blast
next
  case False
  let ?x = "terminal_wire ds"
  have e: "ended ds (received (client t)) (server t)" and cl: "cl_inv ds (client t)"
    and nw: "cl_window_size (client t) = n"
    using inv o by (simp_all add: session_live_def session_inv_def)
  then have all: "\<forall>i. 1 \<le> i \<and> i \<le> length ds \<longrightarrow> received (client t) i" and x: "?x \<in> set (sent (server t))"
    by (simp_all add: ended_def all_received_def)
  have "expected_seqno (client t) = of_nat (Suc (length ds))" using expected_all [OF cl all] .
  then have "below_window_end (of_nat (Suc (length ds))) (client t)"
    using expected_in_window [of "client t"] n nw by simp
  then obtain c where c: "sr_client_run (Some ?x) (client t) = Inr c" "cl_done c"
    using run_terminal [OF cl all] by (auto simp: terminal_wire_def)
  have st: "session_step sr_client_run stray acknowledge_packet handle_time_out damage t (t\<lparr>client := c\<rparr>)"
    using False x c(1) by (intro session_step.deliver_data) auto
  then show ?thesis using live_step [OF inv st] c(2)
    by (intro exI [of _ "t\<lparr>client := c\<rparr>"]) simp
qed

text \<open>From every state with the invariant, the session can be completed.\<close>

lemma can_complete:
  assumes "session_live sinv quiet live ds n t" "1 \<le> n" "n < 2 ^ 31"
  shows "\<exists>t'. (session_step sr_client_run stray acknowledge_packet handle_time_out damage)\<^sup>*\<^sup>* t t' \<and>
    cl_done (client t') \<and> over t' \<and> cl_output (client t') = concat ds"
proof -
  obtain t1 where t1: "(session_step sr_client_run stray acknowledge_packet handle_time_out damage)\<^sup>*\<^sup>* t t1"
    "session_live sinv quiet live ds n t1" "over t1" using run_to_over [OF assms] by blast
  obtain t2 where t2: "(session_step sr_client_run stray acknowledge_packet handle_time_out damage)\<^sup>*\<^sup>* t1 t2"
    "session_live sinv quiet live ds n t2" "cl_done (client t2)"
    using run_to_done [OF t1(2) assms(2,3) t1(3)] by blast
  then have "session_inv sinv quiet ds t2" by (simp add: session_live_def)
  then have "over t2" "cl_output (client t2) = concat ds"
    using t2(3) session_done by (auto simp: session_inv_def)
  then show ?thesis using rtranclp_trans [OF t1(1) t2(1)] t2(3) by blast
qed

lemma session_reachable_live:
  assumes "\<And>t. start t \<Longrightarrow> session_live sinv quiet live ds n t"
    and "reachable start (session_step sr_client_run stray acknowledge_packet handle_time_out damage) t"
  shows "session_live sinv quiet live ds n t"
  by (rule inv_system.inv_reachable [OF _ assms(2)]) (unfold_locales; fact assms(1) live_step)

end

section \<open>The contract of a strategy that waits only for what it has sent\<close>

text \<open>The timer thread alone never empties the window, and the worker's look at it changes nothing.\<close>

locale waiting_strategy = posting_strategy +
  assumes front_all: "sinv ds R pc s \<Longrightarrow> live ds s \<Longrightarrow> window s = [] \<Longrightarrow> front s = length ds"
    and front_tick: "sinv ds R pc s \<Longrightarrow> live ds s \<Longrightarrow> handle_time_out pc s = Inr (pc', s') \<Longrightarrow> front s' = front s"
    and live_check: "live ds s \<Longrightarrow> live ds (snd (is_done s)) \<and> front (snd (is_done s)) = front s"
begin

lemma tick_keeps_window:
  assumes inv: "sinv ds R pc s" and lv: "live ds s" and w: "window s \<noteq> []"
    and t: "handle_time_out pc s = Inr (pc', s')"
  shows "window s' \<noteq> []"
proof
  assume "window s' = []"
  then have "front s' = length ds" using front_all inv_tick [OF inv t] live_tick [OF inv lv t] by blast
  then show False using front_tick [OF inv lv t] front_posted [OF inv lv w] by simp
qed

end

end
