(* ===== verification/Progress.thy ===== *)
theory Progress
  imports File_Transfer Session_Progress
begin

text \<open>
  Over a link that loses nothing every transfer can be completed: whatever has happened so far,
  the datagrams on the network suffice to bring the whole file to the client.
\<close>

section \<open>Every packet of the window has been sent\<close>

definition posted :: "byte list list \<Rightarrow> rdt_strategy \<Rightarrow> bool" where
  "posted ds s \<longleftrightarrow>
     (\<forall>j < length (window s). data_wire_of ds (Suc (unat (packets_sent s) + j)) \<in> set (sent s))"

definition lossless :: "rdt_strategy \<Rightarrow> bool" where
  "lossless s \<longleftrightarrow> loss_probability (sender s) \<le> 0"

text \<open>Between two states the log grows, and nothing is popped.\<close>

definition later :: "rdt_strategy \<Rightarrow> rdt_strategy \<Rightarrow> bool" where
  "later s s' \<longleftrightarrow> set (sent s) \<subseteq> set (sent s') \<and> packets_sent s' = packets_sent s \<and>
     loss_probability (sender s') = loss_probability (sender s)"

lemma later_refl [simp]: "later s s"
  by (simp add: later_def)

lemma later_trans: "later s s' \<Longrightarrow> later s' s'' \<Longrightarrow> later s s''"
  by (auto simp: later_def)

lemma later_lossless: "later s s' \<Longrightarrow> lossless s \<Longrightarrow> lossless s'"
  by (simp add: later_def lossless_def)

lemma posted_later:
  "posted ds s \<Longrightarrow> later s s' \<Longrightarrow> length (window s') \<le> length (window s) \<Longrightarrow> posted ds s'"
  by (auto simp: posted_def later_def)

lemma packets_sent_number:
  assumes "payloads_ok ds" "sr_layout ds dd dw rest s"
  shows "unat (packets_sent s) = length dd"
  using assms layout_bound [OF assms] by (simp add: sr_layout_def unat_of_nat_32)

lemma send_packet_lossless:
  assumes "sender_ok s" "loss_probability s \<le> 0" "pack p = Inr d"
    and "send_packet p s = Inr (dup, out, s')"
  shows "out = Some d" "loss_probability s' = loss_probability s"
proof -
  obtain x g where dr: "draw (generator s) = (x, g)" by (cases "draw (generator s)")
  then have "0 < x" using assms(1) draw_bounds(1) by (auto simp: sender_ok_def)
  then have "loss_probability s < x" using assms(2) by simp
  then show "out = Some d" "loss_probability s' = loss_probability s"
    using assms(3,4) dr by (auto simp: send_packet_def Let_def split: if_splits)
qed

lemma transmit_posts:
  assumes core: "sr_core ds R s" and ll: "lossless s" and j: "j < length (window s)"
    and t: "transmit (window s ! j) s = Inr (dup, s')"
  shows "later s s'" "data_wire_of ds (Suc (unat (packets_sent s) + j)) \<in> set (sent s')"
proof -
  from core obtain dd dw rest where pay: "payloads_ok ds" and l: "sr_layout ds dd dw rest s"
    by (auto simp: sr_core_def sr_data_def)
  have jd: "j < length dw" and w: "in_flight s ! j = window s ! j"
    using j layout_length [OF l] by (auto simp: in_flight_def nth_append)
  obtain q where q: "cells (mem s) (window s ! j) = Some q"
    "pack q = Inr (data_wire_of ds (Suc (unat (packets_sent s) + j)))"
    using layout_packet [OF pay l jd] w packets_sent_number [OF pay l] by metis
  from t q obtain dup' out ps where sp: "send_packet q (sender s) = Inr (dup', out, ps)"
    and s': "packets_sent s' = packets_sent s" "sender s' = ps"
      "sent s' = sent s @ (case out of None \<Rightarrow> [] | Some d \<Rightarrow> [d])"
    by (auto simp: transmit_def packet_at_def deref_def now_def set_packet_def update_def
        locked_insert_unacked_def lock_set_mutex_def insert_unacked_def unlock_set_mutex_def Let_def
        rbind_Inr_iff split: if_splits)
  have "sender_ok (sender s)" using core by (simp add: sr_core_def)
  from send_packet_lossless [OF this _ q(2) sp] ll
  have "out = Some (data_wire_of ds (Suc (unat (packets_sent s) + j)))"
    "loss_probability ps = loss_probability (sender s)" by (auto simp: lossless_def)
  then show "later s s'" "data_wire_of ds (Suc (unat (packets_sent s) + j)) \<in> set (sent s')"
    using s' by (auto simp: later_def)
qed

lemma shrink_later:
  assumes "sr_core ds R s" "n < 2 ^ 31" "shrink_window n s = Inr s'"
  shows "later s s'" "\<exists>k. window s' = take k (window s)"
proof -
  have "s' = shrunk n s" using shrink_window_eq [OF assms(1,2)] assms(3) by simp
  then show "later s s'" "\<exists>k. window s' = take k (window s)"
    by (auto simp: shrunk_def Let_def later_def)
qed

lemma sr_send_posts:
  assumes core: "sr_core ds R s" and ll: "lossless s" and j: "j < length (window s)"
    and a: "a = window s ! j" "\<not> acked_at s a"
      "a \<notin> set (unacked_packets s) \<or> set (unacked_packets s) \<subseteq> {a}"
    and t: "sr_send_packet a s = Inr s'"
  shows "later s s'" "data_wire_of ds (Suc (unat (packets_sent s) + j)) \<in> set (sent s')"
    "length (window s') \<le> length (window s)"
proof -
  from t obtain dup s1 where tr: "transmit a s = Inr (dup, s1)"
    and r: "(if dup then shrink_window (half (window_size s1)) s1 else Inr s1) = Inr s'"
    by (auto simp: sr_send_packet_def rbind_Inr_iff)
  have "a \<in> set (window s)" using a(1) j by simp
  from transmit_core [OF core this a(2,3)] tr have c1: "sr_core ds R s1" by auto
  note 1 = transmit_posts [OF core ll j tr [unfolded a(1)]]
  have "window s1 = window s" using transmit_frame [OF tr] by simp
  moreover have "later s1 s' \<and> (\<exists>k. window s' = take k (window s1))"
  proof (cases dup)
    case True
    have "1 \<le> window_size s1" "window_size s1 < 2 ^ 31" using c1 by (simp_all add: sr_core_def sr_sizes_def)
    then have "half (window_size s1) < 2 ^ 31" using half_le by fastforce
    with shrink_later [OF c1] r True show ?thesis by auto
  next
    case False
    with r show ?thesis by (auto intro: exI [of _ "length (window s1)"])
  qed
  ultimately show "later s s'" "data_wire_of ds (Suc (unat (packets_sent s) + j)) \<in> set (sent s')"
    "length (window s') \<le> length (window s)"
    using 1 later_trans by (auto simp: later_def)
qed

text \<open>A packet appended to the window and sent.\<close>

lemma push_posts:
  assumes core: "sr_core ds R (s\<lparr>window := window s @ [a]\<rparr>)" and ll: "lossless s" and p: "posted ds s"
    and a: "\<not> acked_at s a" "a \<notin> set (unacked_packets s)"
    and t: "sr_send_packet a (s\<lparr>window := window s @ [a]\<rparr>) = Inr s'"
  shows "later s s' \<and> posted ds s'"
proof -
  let ?w = "s\<lparr>window := window s @ [a]\<rparr>"
  have "lossless ?w" "\<not> acked_at ?w a" using ll a by (simp_all add: lossless_def acked_at_def)
  note 1 = sr_send_posts [OF core this(1) _ _ this(2) _ t, of "length (window s)"]
  have l: "later ?w s'" and n: "data_wire_of ds (Suc (unat (packets_sent s) + length (window s))) \<in> set (sent s')"
    and len: "length (window s') \<le> Suc (length (window s))"
    using 1 a(2) by simp_all
  have "posted ds s'"
    unfolding posted_def
  proof (intro allI impI)
    fix j
    assume "j < length (window s')"
    then have "j < length (window s) \<or> j = length (window s)" using len by auto
    then show "data_wire_of ds (Suc (unat (packets_sent s') + j)) \<in> set (sent s')"
      using l n p by (auto simp: later_def posted_def)
  qed
  with l show ?thesis by (simp add: later_def)
qed

lemma next_to_send_later: "next_to_send s = Inr (a, s') \<Longrightarrow> later s s' \<and> window s' = window s"
  by (auto simp: next_to_send_def next_packet_def later_def rbind_Inr_iff split: list.splits)

lemma set_packet_later: "set_packet a f s = Inr s' \<Longrightarrow> later s s' \<and> window s' = window s"
  by (auto simp: set_packet_def later_def rbind_Inr_iff)

lemma expand_posts:
  "sr_core ds R s \<Longrightarrow> lossless s \<Longrightarrow> posted ds s \<Longrightarrow> expand_window s = Inr s' \<Longrightarrow>
   later s s' \<and> posted ds s'"
proof (induction s rule: expand_window.induct)
  case (1 s)
  note core = "1.prems"(1)
  show ?case
  proof (cases "window_open s \<and> (aux_window s \<noteq> [] \<or> has_next (pkt_builder s))")
    case False
    then have "expand_window s = Inr s" by (subst expand_window.simps) (simp only: if_False)
    then show ?thesis using "1.prems" by simp
  next
    case True
    with core_window_open [OF core] have room: "length (window s) < nat (window_size s)" by simp
    from True have more: "aux_window s \<noteq> [] \<or> has_next (pkt_builder s)" by simp
    obtain a s1 s2 where n: "next_to_send s = Inr (a, s1)" and p: "set_packet a (set_ack False) s1 = Inr s2" and
      c2: "sr_core ds R (s2\<lparr>window := window s2 @ [a]\<rparr>)" and na: "\<not> acked_at s2 a" and
      nu: "a \<notin> set (unacked_packets s2)"
      using take_next_core [OF core more room] by blast
    have l2: "later s s2" and w2: "window s2 = window s"
      using next_to_send_later [OF n] set_packet_later [OF p] later_trans by auto
    have "\<not> acked_at (s2\<lparr>window := window s2 @ [a]\<rparr>) a" using na by (simp add: acked_at_def)
    then obtain s3 where s3: "sr_send_packet a (s2\<lparr>window := window s2 @ [a]\<rparr>) = Inr s3" "sr_core ds R s3"
      using sr_send_packet_core [OF c2, of a] nu by auto
    have "posted ds s2" by (rule posted_later [OF "1.prems"(3) l2]) (simp add: w2)
    with push_posts [OF c2 later_lossless [OF l2 "1.prems"(2)] _ na nu s3(1)]
    have l3: "later s2 s3" "posted ds s3" by simp_all
    have ex: "expand_window s = expand_window s3"
      using True n p s3(1) by (subst expand_window.simps) simp
    have "later s3 s' \<and> posted ds s'"
    proof (rule "1.IH" [OF True n, of s2])
      show "set_packet (fst (a, s1)) (set_ack False) (snd (a, s1)) = Inr s2" using p by simp
      show "sr_send_packet (fst (a, s1)) (s2\<lparr>window := window s2 @ [fst (a, s1)]\<rparr>) = Inr s3"
        using s3(1) by simp
      show "sr_core ds R s3" by (rule s3(2))
      show "lossless s3" using later_lossless [OF later_trans [OF l2 l3(1)] "1.prems"(2)] .
      show "posted ds s3" by (rule l3(2))
      show "expand_window s3 = Inr s'" using "1.prems"(4) ex by simp
    qed
    then show ?thesis using l2 l3(1) later_trans by blast
  qed
qed

section \<open>Acknowledgements\<close>

definition onward :: "rdt_strategy \<Rightarrow> rdt_strategy \<Rightarrow> bool" where
  "onward s s' \<longleftrightarrow> set (sent s) \<subseteq> set (sent s') \<and> unat (packets_sent s) \<le> unat (packets_sent s') \<and>
     loss_probability (sender s') = loss_probability (sender s)"

lemma later_onward: "later s s' \<Longrightarrow> onward s s'"
  by (simp add: later_def onward_def)

lemma onward_trans: "onward s s' \<Longrightarrow> onward s' s'' \<Longrightarrow> onward s s''"
  by (auto simp: onward_def)

lemma onward_lossless: "onward s s' \<Longrightarrow> lossless s \<Longrightarrow> lossless s'"
  by (simp add: onward_def lossless_def)

lemma core_packets_sent:
  assumes "sr_core ds R s" "window s = a # as"
  shows "unat (packets_sent s + 1) = Suc (unat (packets_sent s))" "unat (packets_sent s) < length ds"
proof -
  from assms(1) obtain dd dw rest where pay: "payloads_ok ds" and l: "sr_layout ds dd dw rest s"
    by (auto simp: sr_core_def sr_data_def)
  have "dw \<noteq> []" using layout_length [OF l] assms(2) by (auto simp: in_flight_def)
  then have b: "Suc (length dd) \<le> length ds" using l by (cases dw) (auto simp: sr_layout_def)
  then show "unat (packets_sent s) < length ds" using packets_sent_number [OF pay l] by simp
  have "packets_sent s + 1 = of_nat (Suc (length dd))" using l by (simp add: sr_layout_def)
  then show "unat (packets_sent s + 1) = Suc (unat (packets_sent s))"
    using b pay packets_sent_number [OF pay l]
    by (simp add: payloads_ok_def unat_of_nat_32 del: of_nat_Suc)
qed

lemma advance_posts:
  "sr_core ds R s \<Longrightarrow> window s = as \<Longrightarrow> posted ds s \<Longrightarrow> sr_advance_loop as s = Inr s' \<Longrightarrow>
   onward s s' \<and> posted ds s' \<and>
   (as \<noteq> [] \<and> acked_at s (hd as) \<longrightarrow> unat (packets_sent s) < unat (packets_sent s'))"
proof (induction as arbitrary: s)
  case Nil
  then show ?case by (simp add: onward_def)
next
  case (Cons a as)
  note core = Cons.prems(1) and w = Cons.prems(2)
  have "all_live [a] s" by (rule core_live [OF core]) (simp add: in_flight_def w)
  then obtain p where p: "packet_at a s = Inr p" "acked p = acked_at s a"
    by (auto simp: all_live_def packet_at_def deref_def acked_at_def)
  show ?case
  proof (cases "acked_at s a")
    case False
    then show ?thesis using Cons.prems p by (simp add: onward_def)
  next
    case True
    obtain s1 where s1: "delete_packet a (s\<lparr>window := as\<rparr>) = Inr s1" "window s1 = as"
      "packets_sent s1 = packets_sent s"
      and c: "sr_core ds R (s1\<lparr>packets_sent := packets_sent s1 + 1\<rparr>)" (is "sr_core ds R ?s2")
      using pop_core [OF core w True] by blast
    have f: "sent s1 = sent s" "sender s1 = sender s"
      using s1(1) by (auto simp: delete_packet_def rbind_Inr_iff)
    note n = core_packets_sent(1) [OF core w]
    have po: "posted ds ?s2"
      unfolding posted_def
    proof (intro allI impI)
      fix j
      assume "j < length (window ?s2)"
      then have "Suc j < length (window s)" using s1(2) w by simp
      then have "data_wire_of ds (Suc (unat (packets_sent s) + Suc j)) \<in> set (sent s)"
        using Cons.prems(3) unfolding posted_def by blast
      then show "data_wire_of ds (Suc (unat (packets_sent ?s2) + j)) \<in> set (sent ?s2)"
        using n f s1(3) by simp
    qed
    have "sr_advance_loop as ?s2 = Inr s'" using Cons.prems(4) p True s1(1) by simp
    from Cons.IH [OF c _ po this] have "onward ?s2 s'" "posted ds s'" using s1(2) by auto
    then show ?thesis using n f s1(3) by (auto simp: onward_def)
  qed
qed

text \<open>An acknowledgement keeps the windows's packets posted; one for the front moves on.\<close>

lemma ack_found_posts:
  assumes core: "sr_core ds R s" and ll: "lossless s" and po: "posted ds s"
    and i: "i < length (window s)" "a = window s ! i"
    and r: "R (unat (seqno (the (cells (mem s) a))))"
    and s': "sr_ack_found i a s = Inr s'"
  shows "onward s s' \<and> posted ds s' \<and>
    (i = 0 \<and> \<not> acked_at s a \<longrightarrow> unat (packets_sent s) < unat (packets_sent s'))"
proof -
  have a: "a \<in> set (window s)" using i by simp
  have "all_live [a] s" by (rule core_live [OF core]) (use a in \<open>simp add: in_flight_def\<close>)
  then obtain p where p: "packet_at a s = Inr p" "acked p = acked_at s a"
    by (auto simp: all_live_def packet_at_def deref_def acked_at_def)
  show ?thesis
  proof (cases "acked_at s a")
    case True
    then show ?thesis using p s' po by (simp add: sr_ack_found_def onward_def)
  next
    case False
    obtain s1 s2 where s2: "set_packet a (set_ack True) s = Inr s1" "locked_erase_unacked a s1 = Inr s2"
      and c2: "sr_core ds R s2" "window s2 = window s" "acked_at s2 a"
      using mark_acked_core [of ds R s a, OF core a r] by blast
    have l2: "later s s2"
      using s2 by (auto simp: set_packet_def locked_erase_unacked_def lock_set_mutex_def
          erase_unacked_def unlock_set_mutex_def later_def rbind_Inr_iff split: if_splits)
    have po2: "posted ds s2" by (rule posted_later [OF po l2]) (simp add: c2(2))
    from s' p False s2 obtain s3 where
      s3: "(if i = 0 then sr_advance_window s2 else Inr s2) = Inr s3" and
      ex: "expand_window (adjust_window_size s3) = Inr s'"
      by (auto simp: sr_ack_found_def rbind_Inr_iff)
    have s3': "sr_core ds R s3 \<and> onward s2 s3 \<and> posted ds s3 \<and>
        (i = 0 \<longrightarrow> unat (packets_sent s2) < unat (packets_sent s3))"
    proof (cases "i = 0")
      case True
      then have adv: "sr_advance_loop (window s2) s2 = Inr s3" using s3 by (simp add: sr_advance_window_def)
      have "sr_core ds R s3" using sr_advance_core [OF c2(1) refl] adv by auto
      moreover have "window s2 \<noteq> []" "hd (window s2) = a"
        using i True c2(2) by (auto simp: hd_conv_nth)
      ultimately show ?thesis using advance_posts [OF c2(1) refl po2 adv] c2(3) by auto
    next
      case False
      then show ?thesis using s3 c2(1) po2 by (simp add: onward_def)
    qed
    let ?s4 = "adjust_window_size s3"
    have l4: "later s3 ?s4" "length (window ?s4) \<le> length (window s3)"
      by (simp_all add: adjust_window_size_def Let_def later_def)
    have on3: "onward s s3" using l2 s3' later_onward onward_trans by blast
    have "lossless s3" using onward_lossless [OF on3 ll] .
    then have "lossless ?s4" "posted ds ?s4"
      using s3' posted_later [OF _ l4] later_lossless [OF l4(1)] by auto
    with expand_posts [OF adjust_core _ _ ex] s3' have "later ?s4 s'" "posted ds s'" by blast+
    then show ?thesis
      using on3 s3' l2 l4(1) by (auto simp: onward_def later_def)
  qed
qed

lemma front_seqno:
  assumes "sr_core ds R s" "window s = a # as"
  obtains q where "packet_at a s = Inr q" "seqno q = of_nat (Suc (unat (packets_sent s)))"
    "cells (mem s) a = Some q"
proof -
  from assms(1) obtain dd dw rest where pay: "payloads_ok ds" and l: "sr_layout ds dd dw rest s"
    by (auto simp: sr_core_def sr_data_def)
  have j: "0 < length dw" and f: "in_flight s ! 0 = a"
    using layout_length [OF l] assms(2) by (auto simp: in_flight_def)
  obtain q where "cells (mem s) a = Some q" "seqno q = of_nat (Suc (unat (packets_sent s)))"
    using layout_packet [OF pay l j] f packets_sent_number [OF pay l] by (metis add_0_right)
  then show ?thesis by (intro that [of q]) (simp_all add: packet_at_def deref_def)
qed

lemma ack_posts:
  assumes inv: "sr_inv ds R s" and ll: "lossless s" and po: "posted ds s"
    and r: "ack_cksum a = checksum_of (ack_len a) (ackno a) [] \<Longrightarrow> R (unat (ackno a))"
    and s': "sr_acknowledge_packet a s = Inr s'"
  shows "onward s s' \<and> posted ds s' \<and>
    (window s \<noteq> [] \<and> ack_cksum a = checksum_of (ack_len a) (ackno a) [] \<and>
     ackno a = of_nat (Suc (unat (packets_sent s))) \<longrightarrow>
     unat (packets_sent s) < unat (packets_sent s'))"
proof -
  let ?h = "s\<lparr>window_size_history := window_size_history s @ [window_size s]\<rparr>"
  let ?s = "?h\<lparr>wnd_mutex := True\<rparr>"
  have ch: "sr_core ds R ?s = sr_core ds R s" by (rule core_cong; simp)+
  have same: "onward s ?h" "onward s ?s" "posted ds ?h = posted ds s" "posted ds ?s = posted ds s"
    "lossless ?s = lossless s" by (simp_all add: onward_def posted_def lossless_def)
  show ?thesis
  proof (cases "ack_cksum a = checksum_of (ack_len a) (ackno a) []")
    case False
    then have "s' = ?h"
      using s' by (simp add: sr_acknowledge_packet_def calculate_ack_checksum_eq)
    then show ?thesis using False same po by simp
  next
    case True
    have core: "sr_core ds R ?s" and wm: "\<not> wnd_mutex s" using inv ch by (auto simp: sr_inv_def)
    from s' True wm obtain res s1 where
      fr: "find_seqno (ackno a) 0 (window ?s) ?s = Inr res" and
      s1: "(case res of None \<Rightarrow> Inr ?s | Some (i, b) \<Rightarrow> sr_ack_found i b ?s) = Inr s1" and
      u: "s' = unlock_wnd_mutex s1"
      by (auto simp: sr_acknowledge_packet_def calculate_ack_checksum_eq lock_wnd_mutex_def
          rbind_Inr_iff Let_def)
    have un: "onward s1 s'" "posted ds s' = posted ds s1" "packets_sent s' = packets_sent s1"
      by (simp_all add: u unlock_wnd_mutex_def onward_def posted_def)
    show ?thesis
    proof (cases res)
      case None
      have "ackno a \<noteq> of_nat (Suc (unat (packets_sent s)))" if w: "window s \<noteq> []"
      proof
        assume n: "ackno a = of_nat (Suc (unat (packets_sent s)))"
        obtain b bs where b: "window s = b # bs" using w by (cases "window s") auto
        obtain q where "packet_at b ?s = Inr q" "seqno q = ackno a"
          using front_seqno [OF core, of b bs] b n by auto
        then have "find_seqno (ackno a) 0 (window ?s) ?s = Inr (Some (0, b))" using b by simp
        with fr None show False by simp
      qed
      moreover have "s1 = ?s" using None s1 by simp
      ultimately show ?thesis using onward_trans [OF same(2)] un same po by auto
    next
      case (Some kb)
      obtain k b where kb: "kb = (k, b)" by (cases kb)
      with Some fr have f: "find_seqno (ackno a) 0 (window ?s) ?s = Inr (Some (k, b))" by simp
      from find_seqno_Some [OF f] have k: "k < length (window ?s)" "b = window ?s ! k"
        and n: "seqno (the (cells (mem ?s) b)) = ackno a" by auto
      have R: "R (unat (seqno (the (cells (mem ?s) b))))" unfolding n using r [OF True] .
      have "sr_ack_found k b ?s = Inr s1" using s1 Some kb by simp
      from ack_found_posts [OF core _ _ k R this] have
        o: "onward ?s s1" "posted ds s1" and
        st: "k = 0 \<and> \<not> acked_at ?s b \<longrightarrow> unat (packets_sent s) < unat (packets_sent s1)"
        using same ll po by auto
      have "unat (packets_sent s) < unat (packets_sent s')"
        if w: "window s \<noteq> []" and no: "ackno a = of_nat (Suc (unat (packets_sent s)))"
      proof -
        obtain c cs where c: "window s = c # cs" using w by (cases "window s") auto
        obtain q where "packet_at c ?s = Inr q" "seqno q = ackno a"
          using front_seqno [OF core, of c cs] c no by auto
        then have "find_seqno (ackno a) 0 (window ?s) ?s = Inr (Some (0, c))" using c by simp
        with f have "k = 0" "b = c" by auto
        moreover have "\<not> acked_at s c" using inv c by (simp add: sr_inv_def front_ok_def)
        then have "\<not> acked_at ?s c" by (simp add: acked_at_def)
        ultimately show ?thesis using st un by simp
      qed
      then show ?thesis using o un same onward_trans by blast
    qed
  qed
qed

section \<open>The timer, and the start\<close>

lemma timer_posts:
  assumes inv: "sr_inv ds R s" and ll: "lossless s" and po: "posted ds s"
    and st: "sr_timer_step pc s = Inr (pc', s')"
  shows "later s s' \<and> posted ds s'"
proof -
  have "later s s' \<and> length (window s') \<le> length (window s)"
  proof (cases pc)
    case T_Loop
    then show ?thesis using st by simp
  next
    case T_Begin
    then show ?thesis using st by (auto simp: rbind_Inr_iff timer_first_Inr)
  next
    case (T_Compare a)
    then show ?thesis using st
      by (auto simp: timer_expired_def now_def Let_def later_def rbind_Inr_iff split: if_splits)
  next
    case (T_Erase a)
    then show ?thesis using st
      by (auto simp: sr_timer_erase_def lock_set_mutex_def erase_unacked_def unlock_set_mutex_def
          later_def rbind_Inr_iff split: if_splits)
  next
    case T_Print
    then show ?thesis using st
      by (auto simp: sr_timer_print_def lock_wnd_mutex_def unlock_wnd_mutex_def later_def
          rbind_Inr_iff split: if_splits)
  next
    case T_Resend
    let ?l = "s\<lparr>wnd_mutex := True\<rparr>"
    from T_Resend st obtain s1 where 1: "shrink_window 1 ?l = Inr s1" and
      c: "(case window s1 of [] \<Rightarrow> Inl Empty_Container
        | a # _ \<Rightarrow> rbind (sr_send_packet a s1) (\<lambda>s. Inr (unlock_wnd_mutex s))) = Inr s'"
      by (auto simp: sr_timer_resend_def lock_wnd_mutex_def rbind_Inr_iff split: if_splits)
    from c obtain a as s2 where w: "window s1 = a # as" and 2: "sr_send_packet a s1 = Inr s2"
      and s': "s' = unlock_wnd_mutex s2"
      by (cases "window s1") (auto simp: rbind_Inr_iff)
    have "sr_core ds R ?l = sr_core ds R s" by (rule core_cong) simp_all
    then have core: "sr_core ds R ?l" using inv by (simp add: sr_inv_def)
    have l1: "later ?l s1" using shrink_later [OF core _ 1] by simp
    have s1: "s1 = shrunk 1 ?l" using shrink_window_eq [OF core, of 1] 1 by simp
    have w1: "window s1 = take 1 (window s)" by (simp add: s1 shrunk_def Let_def)
    have "1 \<le> max_window_size ?l" using core by (simp add: sr_core_def sr_sizes_def)
    then have c1: "sr_core ds R s1" using shrunk_core [OF core, of 1] s1 by simp
    have hd: "as = []" "hd (window s) = a" "window s \<noteq> []" using w w1 by (cases "window s"; simp)+
    then have u: "set (unacked_packets s1) \<subseteq> {a}" using c1 w by (simp add: sr_core_def sr_timed_def)
    from hd have "\<not> acked_at s1 a" using inv by (simp add: sr_inv_def front_ok_def s1 shrunk_def Let_def acked_at_def)
    note na = this
    have "lossless s1" using later_lossless [OF l1] ll by (simp add: lossless_def)
    note sp = sr_send_posts [OF c1 this _ _ na _ 2, of 0]
    have "0 < length (window s1)" "a = window s1 ! 0" by (simp_all add: w)
    with sp u have "later s1 s2" "length (window s2) \<le> length (window s1)" by simp_all
    moreover have "length (window s1) \<le> length (window s)" by (simp add: w1)
    ultimately show ?thesis using l1 s' by (auto simp: later_def unlock_wnd_mutex_def)
  qed
  then show ?thesis using posted_later [OF po] by simp
qed

lemma start_posts:
  assumes core: "sr_core ds R s" and f: "front_ok s" and len: "length (window s) \<le> 1"
    and u: "unacked_packets s = []" and ll: "lossless s" and st: "sr_start s = Inr s'"
  shows "posted ds s' \<and> lossless s'"
proof -
  let ?n = "s\<lparr>ticks := Suc (ticks s), start_time_stamp := clock s (ticks s), wnd_mutex := True\<rparr>"
  have "sr_core ds R ?n = sr_core ds R s" by (rule core_cong) simp_all
  then have c: "sr_core ds R ?n" using core by simp
  have ln: "lossless ?n" using ll by (simp add: lossless_def)
  from st obtain s1 where l: "sr_start_loop True (window s) ?n = Inr s1" and s': "s' = unlock_wnd_mutex s1"
    by (auto simp: sr_start_def now_def lock_wnd_mutex_def rbind_Inr_iff Let_def split: if_splits)
  have "posted ds s1 \<and> lossless s1"
  proof (cases "window s")
    case Nil
    then show ?thesis using l ln by (auto simp: posted_def)
  next
    case (Cons a as)
    with len have w: "window s = [a]" by simp
    with l obtain s2 where s2: "sr_send_packet a ?n = Inr s2" "s1 = s2\<lparr>timer := True\<rparr>" "window s2 = [a]"
      by (auto simp: rbind_Inr_iff split: if_splits)
    have na: "\<not> acked_at ?n a" using f w by (simp add: front_ok_def acked_at_def)
    have "0 < length (window ?n)" "a = window ?n ! 0" "a \<notin> set (unacked_packets ?n)" using w u by simp_all
    from sr_send_posts [OF c ln this(1,2) na disjI1 [OF this(3)] s2(1)]
    have "later ?n s2" "data_wire_of ds (Suc (unat (packets_sent s))) \<in> set (sent s2)" by simp_all
    then show ?thesis using s2(2,3) ln by (auto simp: posted_def later_def lossless_def)
  qed
  then show ?thesis by (simp add: s' posted_def lossless_def unlock_wnd_mutex_def)
qed

lemma initial_posts:
  assumes u: "usable cwd fs name mx link" and f: "fs (c_str (cwd @ [47] @ name)) = Some contents"
    and ll: "loss_probability link \<le> 0" and st: "start_server cwd fs name mx link clk = Inr s"
  shows "posted (chunks contents) s \<and> lossless s"
proof -
  obtain s1 where s1: "new_selective_repeat cwd fs name mx link clk = Inr s1"
    "sr_core (chunks contents) (\<lambda>_. True) s1" "unacked_packets s1 = []" "front_ok s1"
    "length (window s1) \<le> 1" "sender s1 = link"
    using new_sr_core [where fs = fs, OF u f] by blast
  moreover have "sr_start s1 = Inr s" using st s1(1) by (simp add: start_server_def)
  moreover have "lossless s1" using s1(6) ll by (simp add: lossless_def)
  ultimately show ?thesis using start_posts by blast
qed

section \<open>The system over a lossless link\<close>

abbreviation live_inv :: "byte list list \<Rightarrow> int \<Rightarrow> timer_pc transfer \<Rightarrow> bool" where
  "live_inv \<equiv> session_live (\<lambda>ds R pc. sr_inv ds R) sr_quiet (\<lambda>ds s. posted ds s \<and> lossless s)"

lemma live_start:
  assumes "loss_probability link \<le> 0" "transfer_start contents link n t"
  shows "live_inv (chunks contents) n t"
proof -
  from assms(2) obtain cwd fs name mx clk where
    u: "usable cwd fs name mx link" and f: "fs (c_str (cwd @ [47] @ name)) = Some contents" and
    s: "start_server cwd fs name mx link clk = Inr (server t)" and c: "client_start n (client t)"
    by (auto simp: transfer_start_def)
  have "cl_window_size (client t) = n"
    using c by (auto simp: client_start_def new_client_selective_repeat_def)
  then show ?thesis
    using initial_posts [where fs = fs, OF u f assms(1) s] transfer_start_inv [OF assms(2)]
    by (simp add: session_live_def)
qed

text \<open>An acknowledged packet at the front of the window, and what is before it.\<close>

lemma sr_front:
  assumes core: "sr_core ds R s" and w: "window s \<noteq> []" and po: "posted ds s"
  shows "unat (packets_sent s) < length ds" "\<forall>i. 1 \<le> i \<and> i \<le> unat (packets_sent s) \<longrightarrow> R i"
    "data_wire_of ds (Suc (unat (packets_sent s))) \<in> set (sent s)"
proof -
  obtain a as where aw: "window s = a # as" using w by (cases "window s") auto
  show "unat (packets_sent s) < length ds" using core_packets_sent(2) [OF core aw] .
  from core obtain dd dw rest where "payloads_ok ds" "sr_layout ds dd dw rest s"
    and R: "\<forall>i. 1 \<le> i \<and> i \<le> length dd \<longrightarrow> R i" by (rule coreE)
  then show "\<forall>i. 1 \<le> i \<and> i \<le> unat (packets_sent s) \<longrightarrow> R i" by (simp add: packets_sent_number)
  show "data_wire_of ds (Suc (unat (packets_sent s))) \<in> set (sent s)"
    using po w by (force simp: posted_def)
qed

lemma core_number_32: "sr_core ds R s \<Longrightarrow> k \<le> length ds \<Longrightarrow> unat (of_nat k :: 32 word) = k"
  by (rule unat_of_nat_32) (auto simp: sr_core_def payloads_ok_def)

interpretation selective_repeat_live: posting_strategy sr_acknowledge_packet sr_timer_step idle_ack
    "\<lambda>a. ack_cksum a = checksum_of (ack_len a) (ackno a) []" "\<lambda>ds R pc. sr_inv ds R" sr_quiet
    "\<lambda>ds s. posted ds s \<and> lossless s" "\<lambda>s. unat (packets_sent s)"
proof (unfold_locales, goal_cases)
  case (1 ds R pc s a s')
  then have "onward s s'" "posted ds s'" using ack_posts [of ds R s a s'] by simp_all
  then show ?case using 1(2) onward_lossless by blast
next
  case (2 ds R pc s pc' s')
  then have "later s s'" "posted ds s'" using timer_posts [of ds R s pc pc' s'] by simp_all
  then show ?case using 2(2) later_lossless by blast
next
  case (3 ds R pc s)
  then show ?case using sr_front [of ds R s] by (simp add: sr_inv_def)
next
  case (4 ds R pc s s')
  have "sr_core ds R s" using 4(1) by (simp add: sr_inv_def)
  then have n: "unat (of_nat (Suc (unat (packets_sent s))) :: 32 word) = Suc (unat (packets_sent s))"
    using sr_front(1) 4(2,3) by (intro core_number_32) (auto simp: Suc_le_eq)
  have ll: "lossless s" and po: "posted ds s" using 4(2) by simp_all
  from ack_posts [OF 4(1) ll po _ 4(5)] 4(3,4) n show ?case by (simp add: mk_ack_def)
next
  case 5
  then show ?case by (simp add: posted_def lossless_def)
qed

lemma sr_front_all:
  assumes inv: "sr_inv ds R s" and w: "window s = []"
  shows "unat (packets_sent s) = length ds"
proof -
  have core: "sr_core ds R s" and a: "aux_window s = []" and h: "\<not> has_next (pkt_builder s)"
    using inv w by (auto simp: sr_inv_def)
  from core obtain dd dw rest where pay: "payloads_ok ds" and l: "sr_layout ds dd dw rest s"
    by (auto simp: sr_core_def sr_data_def)
  have "dw = []" using layout_length [OF l] w a by (simp add: in_flight_def)
  moreover have "rest = []" using builder_has_next l h unfolding sr_layout_def by blast
  ultimately show ?thesis using packets_sent_number [OF pay l] l by (simp add: sr_layout_def)
qed

lemma posted_check [simp]: "posted ds (snd (is_done s)) = posted ds s" "lossless (snd (is_done s)) = lossless s"
  "packets_sent (snd (is_done s)) = packets_sent s"
  by (simp_all add: posted_def lossless_def is_done_def now_def)

interpretation selective_repeat_waits: waiting_strategy sr_acknowledge_packet sr_timer_step idle_ack
    "\<lambda>a. ack_cksum a = checksum_of (ack_len a) (ackno a) []" "\<lambda>ds R pc. sr_inv ds R" sr_quiet
    "\<lambda>ds s. posted ds s \<and> lossless s" "\<lambda>s. unat (packets_sent s)"
proof (unfold_locales, goal_cases)
  case (2 ds R pc s pc' s')
  then show ?case using timer_posts [of ds R s pc pc' s'] by (simp add: later_def)
qed (simp_all add: sr_front_all)

lemma reachable_live:
  assumes "loss_probability link \<le> 0" "transfer_reachable contents link n t"
  shows "live_inv (chunks contents) n t"
proof (rule selective_repeat_live.session_reachable_live [OF _ assms(2) [unfolded transfer_reachable_def]])
  show "live_inv (chunks contents) n t" if "transfer_start contents link n t" for t
    using live_start [OF assms(1) that] .
qed

section \<open>A small configuration\<close>

text \<open>
  A server in \<open>/\<close> with a file \<open>f\<close> of two bytes, over a link without losses that reports a
  triple duplicate every thousandth packet.
\<close>

definition example_link :: packet_sender where
  "example_link = set_loss_sequence [1000] initial_sender"

definition example_file :: "byte list" where
  "example_file = [104, 105]"

definition example_files :: "path \<rightharpoonup> byte list" where
  "example_files = [[47, 47, 102] \<mapsto> example_file]"

lemma example_usable:
  "usable [47] example_files [102] 4 example_link"
  "example_files (c_str ([47] @ [47] @ [102])) = Some example_file"
  "loss_probability example_link \<le> 0"
  by (simp_all add: usable_def sender_ok_def example_link_def set_loss_sequence_def initial_sender_def
      generator_ok_def MINSTD_MODULUS_def c_str_def example_files_def length_chunks example_file_def)

lemma transfer_steps:
  "transfer_reachable contents link n t \<Longrightarrow> transfer_step\<^sup>*\<^sup>* t t' \<Longrightarrow> transfer_reachable contents link n t'"
  unfolding transfer_reachable_def by (rule reachable_steps)

lemma example_start:
  obtains t where "transfer_reachable example_file example_link 4 t" "\<not> over t"
proof -
  obtain s where s: "start_server [47] example_files [102] 4 example_link (\<lambda>k. k) = Inr s"
    using sr_initial_inv [OF example_usable(1,2), of "\<lambda>k. k"] by (auto simp: start_server_def)
  let ?t = "\<lparr>server = s, timer_at = T_Loop, over = False,
    client = new_client_selective_repeat 4 (fw_open True [] new_file_writer)\<rparr>"
  have "transfer_start example_file example_link 4 ?t"
    by (rule transfer_startI [OF example_usable(1,2) s])
  then have "transfer_reachable example_file example_link 4 ?t"
    unfolding transfer_reachable_def by (rule reachable_start)
  then show ?thesis by (rule that) simp
qed

lemma example_over:
  obtains t where "transfer_reachable example_file example_link 4 t" "over t"
proof -
  obtain t where t: "transfer_reachable example_file example_link 4 t" by (rule example_start)
  from selective_repeat_live.run_to_over [OF reachable_live [OF example_usable(3) t]] obtain t' where
    t': "transfer_step\<^sup>*\<^sup>* t t'" "over t'" by auto
  show ?thesis by (rule that [OF transfer_steps [OF t t'(1)] t'(2)])
qed

lemma example_done:
  obtains t where "transfer_reachable example_file example_link 4 t" "cl_done (client t)"
proof -
  obtain t where t: "transfer_reachable example_file example_link 4 t" "over t" by (rule example_over)
  from selective_repeat_live.run_to_done [OF reachable_live [OF example_usable(3) t(1)] _ _ t(2)] obtain t' where
    t': "transfer_step\<^sup>*\<^sup>* t t'" "cl_done (client t')" by auto
  show ?thesis by (rule that [OF transfer_steps [OF t(1) t'(1)] t'(2)])
qed

end
