(* ===== verification/Stop_And_Wait_Transfer.thy ===== *)
theory Stop_And_Wait_Transfer
  imports Stop_And_Wait_Inv Progress
begin

text \<open>
  The session of \<open>Session\<close> with the stop-and-wait sender, which the server constructs with a
  window of one packet, and the selective-repeat client with which \<open>client/client.cpp\<close> answers
  it. The parameter \<open>damage\<close> says what else than acknowledgements may arrive at the server.
\<close>

section \<open>The system\<close>

definition sw_start_server ::
    "path \<Rightarrow> (path \<rightharpoonup> byte list) \<Rightarrow> path \<Rightarrow> packet_sender \<Rightarrow> (nat \<Rightarrow> nat) \<Rightarrow> rdt_strategy res" where
  "sw_start_server cwd fs name link clk =
     rbind (new_stop_and_wait cwd fs name 1 1 link clk) sw_start"

definition sw_transfer_start :: "byte list \<Rightarrow> packet_sender \<Rightarrow> int \<Rightarrow> sw_timer_pc transfer \<Rightarrow> bool" where
  "sw_transfer_start contents link client_window t \<longleftrightarrow>
     (\<exists>cwd fs name clk.
        usable cwd fs name 1 link \<and> fs (c_str (cwd @ [47] @ name)) = Some contents \<and>
        sw_start_server cwd fs name link clk = Inr (server t)) \<and>
     timer_at t = W_Loop \<and> \<not> over t \<and> client_start client_window (client t)"

definition sw_transfer_step ::
    "(byte list \<Rightarrow> bool) \<Rightarrow> sw_timer_pc transfer \<Rightarrow> sw_timer_pc transfer \<Rightarrow> bool" where
  "sw_transfer_step damage = session_step sr_client_run stray sw_acknowledge_packet sw_timer_step damage"

definition sw_transfer_reachable ::
    "(byte list \<Rightarrow> bool) \<Rightarrow> byte list \<Rightarrow> packet_sender \<Rightarrow> int \<Rightarrow> sw_timer_pc transfer \<Rightarrow> bool" where
  "sw_transfer_reachable damage contents link n t \<longleftrightarrow>
     reachable (sw_transfer_start contents link n) (sw_transfer_step damage) t"

lemma sw_transfer_startI:
  assumes "usable cwd fs name 1 link" "fs (c_str (cwd @ [47] @ name)) = Some contents"
    and "sw_start_server cwd fs name link clk = Inr s"
  shows "sw_transfer_start contents link n \<lparr>server = s, timer_at = W_Loop, over = False,
    client = new_client_selective_repeat n (fw_open True [] new_file_writer)\<rparr>"
  unfolding sw_transfer_start_def
  by (intro conjI exI [of _ cwd] exI [of _ fs] exI [of _ name] exI [of _ clk])
     (use assms client_start_new in simp_all)

section \<open>The start establishes the invariant\<close>

lemma sw_start_live:
  assumes core: "sw_core ds R s" and f: "front_ok s" and st: "settled s" and wm: "\<not> wnd_mutex s"
  shows "\<exists>s'. sw_start s = Inr s' \<and> sw_live ds R s' \<and> window s' = window s \<and> acked_at s' = acked_at s"
proof (cases "window s")
  case Nil
  then show ?thesis using assms by (simp add: sw_start_def sw_live_def)
next
  case (Cons a as)
  then have a: "a \<in> set (window s)" and w: "window s = [a]" using sw_core_window(1) [OF core, of a] by simp_all
  then have "\<not> acked_at s a" using f by (simp add: front_ok_def)
  from sw_send_core [OF core a this] obtain s1 where s1: "sw_send_packet a s = Inr s1" "sw_core ds R s1"
    "acked_at s1 = acked_at s" "wnd_mutex s1 = wnd_mutex s" "window s1 = window s" by blast
  let ?t = "s1\<lparr>timer := True\<rparr>"
  have "sw_core ds R ?t" using s1(2) core_cong [of ?t s1 ds R] by (simp add: sw_core_def)
  then show ?thesis using s1 w f wm
    by (intro exI [of _ ?t])
       (simp add: sw_start_def sw_live_def front_ok_def settled_def acked_at_def [abs_def] fun_eq_iff)
qed

lemma sw_initial_live:
  assumes u: "usable cwd fs name 1 link" and f: "fs (c_str (cwd @ [47] @ name)) = Some contents"
  shows "\<exists>s. sw_start_server cwd fs name link clk = Inr s \<and> sw_live (chunks contents) R s"
proof -
  obtain b s where s: "new_packet_builder cwd fs name 1 = Inr b"
    "fill_window (base_strategy b link clk 1 1 1 1) = Inr s" "sr_core (chunks contents) R s"
    "front_ok s" "settled s" "\<not> wnd_mutex s" "max_window_size s = 1" "aux_window s = []"
    using base_fill_core [where fs = fs, OF u f, of clk 1 R] by blast
  then have "sw_core (chunks contents) R s" by (simp add: sw_core_def)
  from sw_start_live [OF this s(4-6)] s(1,2) show ?thesis
    by (auto simp: sw_start_server_def new_stop_and_wait_def)
qed

lemma sw_transfer_start_inv:
  assumes "sw_transfer_start contents link n t"
  shows "session_inv sw_inv sw_quiet (chunks contents) t"
proof -
  from assms obtain cwd fs name clk where
    u: "usable cwd fs name 1 link" and f: "fs (c_str (cwd @ [47] @ name)) = Some contents" and
    s: "sw_start_server cwd fs name link clk = Inr (server t)" and
    t: "timer_at t = W_Loop" "\<not> over t" "client_start n (client t)"
    by (auto simp: sw_transfer_start_def)
  show ?thesis
  proof (rule session_initial [OF _ t(3,2)])
    show "payloads_ok (chunks contents)" by (rule usable_payloads_ok [where fs = fs, OF u f])
    show "sw_inv (chunks contents) (received (client t)) (timer_at t) (server t)"
      using sw_initial_live [where fs = fs and clk = clk, OF u f, of "received (client t)"] s t(1)
      by (simp add: sw_inv_def)
  qed
qed

lemma sw_reachable_inv:
  assumes "sw_transfer_reachable zero_ack contents link n t"
  shows "session_inv sw_inv sw_quiet (chunks contents) t"
  by (rule stop_and_wait.session_reachable_inv
        [OF _ assms [unfolded sw_transfer_reachable_def sw_transfer_step_def]])
     (rule sw_transfer_start_inv)

section \<open>Over a lossless link\<close>

lemma sw_send_posts:
  assumes core: "sw_core ds R s" and ll: "lossless s" and w: "window s = [a]"
    and t: "sw_send_packet a s = Inr s'"
  shows "later s s' \<and> posted ds s'"
proof -
  from t obtain dup where tr: "transmit (window s ! 0) s = Inr (dup, s')"
    using w by (auto simp: sw_send_packet_def rbind_Inr_iff)
  have "sr_core ds R s" using core by (simp add: sw_core_def)
  from transmit_posts [OF this ll _ tr] w have l: "later s s'"
    "data_wire_of ds (Suc (unat (packets_sent s))) \<in> set (sent s')" by simp_all
  moreover have "window s' = [a]" using transmit_frame [OF tr] w by simp
  ultimately show ?thesis by (simp add: posted_def later_def)
qed

lemma next_packet_later: "next_packet s = Inr (a, s') \<Longrightarrow> later s s'"
  by (auto simp: next_packet_def later_def rbind_Inr_iff)

lemma sw_advance_posts:
  assumes core: "sw_core ds R s" and ll: "lossless s" and po: "posted ds s"
    and st: "sw_advance_window s = Inr s'"
  shows "onward s s' \<and> posted ds s' \<and>
    (window s \<noteq> [] \<and> acked_at s (hd (window s)) \<longrightarrow> unat (packets_sent s) < unat (packets_sent s'))"
proof (cases "window s = [] \<or> \<not> acked_at s (hd (window s))")
  case True
  then have "s' = s"
    using st sw_advance_unacked [OF core] sw_core_window [OF core, of "hd (window s)"]
    by (cases "window s = []") (auto simp: sw_advance_window.simps)
  then show ?thesis using po True by (auto simp: onward_def)
next
  case False
  define a where "a = hd (window s)"
  have w: "window s = [a]" and ak: "acked_at s a"
    using False sw_core_window [OF core, of a] by (simp_all add: a_def)
  obtain p where p: "packet_at a s = Inr p" "acked p"
    by (rule sw_core_packet [OF core, of a]) (use w ak in simp_all)
  have sc: "sr_core ds R s" using core by (simp add: sw_core_def)
  note n = core_packets_sent(1) [OF sc w]
  obtain s1 where s1: "delete_packet a (s\<lparr>packets_sent := packets_sent s + 1, window := []\<rparr>) = Inr s1"
    "sw_core ds R s1" "window s1 = []"
    using sw_pop_core [OF core w ak] by blast
  then have f: "packets_sent s1 = packets_sent s + 1" "sent s1 = sent s" "sender s1 = sender s"
    by (auto simp: delete_packet_def rbind_Inr_iff)
  have "onward s s'" and "posted ds s'" and "packets_sent s' = packets_sent s1"
  proof -
    have step: "(if has_next (pkt_builder s1) then
      rbind (next_packet s1) (\<lambda>x.
        rbind (sw_send_packet (fst x) ((snd x)\<lparr>window := window (snd x) @ [fst x]\<rparr>)) sw_advance_window)
      else sw_advance_window s1) = Inr s'"
      using p s1(1) w st by (subst (asm) sw_advance_window.simps) simp
    have "later s1 s' \<and> posted ds s'"
    proof (cases "has_next (pkt_builder s1)")
      case hn: False
      then show ?thesis using step s1(3) by (simp add: sw_advance_window.simps posted_def)
    next
      case hn: True
      obtain b s2 s3 where np: "next_packet s1 = Inr (b, s2)"
        "sw_send_packet b (s2\<lparr>window := window s2 @ [b]\<rparr>) = Inr s3" "sw_core ds R s3"
        "window s3 = [b]" "\<not> acked_at s3 b"
        using sw_push_core [OF s1(2,3) hn] by blast
      then have s': "s' = s3" using step hn sw_advance_unacked [OF np(3-5)] by simp
      let ?w = "s2\<lparr>window := window s2 @ [b]\<rparr>"
      have "window s2 = []" using next_packet_frame [OF np(1)] s1(3) by simp
      moreover have "later s1 s2" by (rule next_packet_later [OF np(1)])
      moreover have "lossless s1" using ll f by (simp add: lossless_def)
      ultimately have "lossless ?w" "window ?w = [b]" "later s1 ?w"
        using later_lossless by (auto simp: lossless_def later_def)
      moreover have "sw_core ds R ?w"
        using next_packet_core [of ds R s1] np(1) s1(2,3) hn next_packet_frame [OF np(1)]
        by (auto simp: sw_core_def sr_core_def sr_sizes_def)
      ultimately show ?thesis using sw_send_posts [OF _ _ _ np(2)] s' later_trans by blast
    qed
    then show "onward s s'" "posted ds s'" "packets_sent s' = packets_sent s1"
      using f n by (simp_all add: later_def onward_def)
  qed
  then show ?thesis using f n by simp
qed

lemma sw_ack_posts:
  assumes live: "sw_live ds R s" and ll: "lossless s" and po: "posted ds s"
    and r: "R (unat (ackno a))" and st: "sw_acknowledge_packet a s = Inr s'"
  shows "onward s s' \<and> posted ds s' \<and>
    (window s \<noteq> [] \<and> ackno a = of_nat (Suc (unat (packets_sent s))) \<longrightarrow>
       unat (packets_sent s) < unat (packets_sent s'))"
proof (cases "window s")
  case Nil
  then have "s' = s" using st by (simp add: sw_acknowledge_packet_def)
  then show ?thesis using po Nil by (simp add: onward_def)
next
  case (Cons b bs)
  have core: "sw_core ds R s" using live by (simp add: sw_live_def)
  then have sc: "sr_core ds R s" by (simp add: sw_core_def)
  have b: "b \<in> set (window s)" using Cons by simp
  have w: "window s = [b]" by (rule sw_core_window(1) [OF core b])
  have na: "\<not> acked_at s b" using live w by (simp add: sw_live_def front_ok_def)
  obtain q where q: "packet_at b s = Inr q" "seqno q = of_nat (Suc (unat (packets_sent s)))"
    using front_seqno [OF sc, of b "[]"] w by auto
  have ac: "acked q = acked_at s b" using q(1) by (auto simp: packet_at_def deref_def acked_at_def split: option.splits)
  show ?thesis
  proof (cases "ackno a = seqno q")
    case False
    then have "s' = s" using st w q by (simp add: sw_acknowledge_packet_def)
    then show ?thesis using po False q by (simp add: onward_def)
  next
    case True
    have "seqno (the (cells (mem s) b)) = ackno a"
      using q(1) True by (auto simp: packet_at_def deref_def split: option.splits)
    then obtain s1 s2 where s2: "set_packet b (set_ack True) s = Inr s1" "locked_erase_unacked b s1 = Inr s2"
      "sr_core ds R s2" "window s2 = window s" "acked_at s2 b"
      using mark_acked_core [OF sc b] r by auto
    then have c2: "sw_core ds R s2" and l2: "later s s2"
      using core by (auto simp: sw_core_def later_def set_packet_def locked_erase_unacked_def
          lock_set_mutex_def erase_unacked_def unlock_set_mutex_def rbind_Inr_iff split: if_splits)
    have "sw_advance_window s2 = Inr s'"
      using st w q(1) True na ac s2(1,2) by (simp add: sw_acknowledge_packet_def sw_ack_found_def)
    from sw_advance_posts [OF c2 later_lossless [OF l2 ll] _ this] s2(4,5) w
    have "onward s2 s' \<and> posted ds s' \<and> unat (packets_sent s2) < unat (packets_sent s')"
      using posted_later [OF po l2] by simp
    then show ?thesis using l2 later_onward onward_trans by (fastforce simp: later_def)
  qed
qed

lemma sw_timer_posts:
  assumes inv: "sw_inv ds R pc s" and ll: "lossless s" and po: "posted ds s"
    and st: "sw_timer_step pc s = Inr (pc', s')"
  shows "later s s' \<and> posted ds s'"
proof (cases pc)
  case W_Loop
  then show ?thesis using st po by simp
next
  case W_Begin
  then show ?thesis using st po by (auto simp: rbind_Inr_iff timer_first_Inr)
next
  case (W_Compare a)
  then have "later s s'" "window s' = window s" using st
    by (auto simp: timer_expired_def now_def Let_def later_def rbind_Inr_iff split: if_splits)
  then show ?thesis using posted_later [OF po] by simp
next
  case (W_Erase a)
  then have "later s s'" "window s' = window s" using st
    by (auto simp: locked_erase_unacked_def lock_set_mutex_def erase_unacked_def unlock_set_mutex_def
        later_def rbind_Inr_iff split: if_splits)
  then show ?thesis using posted_later [OF po] by simp
next
  case (W_Resend a)
  then have e: "sw_send_packet a s = Inr s'" using st by (auto simp: rbind_Inr_iff)
  have core: "sw_core ds R s" and h: "held_ok a s" using inv W_Resend by (simp_all add: sw_inv_def sw_live_def)
  have "cells (mem s) a \<noteq> None"
    using e by (auto simp: sw_send_packet_def transmit_def packet_at_def deref_def rbind_Inr_iff
        split: option.splits)
  then have "window s = [a]" using h sw_core_window(1) [OF core] by (simp add: held_ok_def)
  from sw_send_posts [OF core ll this e] show ?thesis .
qed

interpretation stop_and_wait_live: posting_strategy sw_acknowledge_packet sw_timer_step zero_ack
    "\<lambda>_. True" sw_inv sw_quiet "\<lambda>ds s. posted ds s \<and> lossless s" "\<lambda>s. unat (packets_sent s)"
proof (unfold_locales, goal_cases)
  case (1 ds R pc s a s')
  then have "onward s s'" "posted ds s'" using sw_ack_posts [of ds R s a s'] by (simp_all add: sw_inv_def)
  then show ?case using 1(2) onward_lossless by blast
next
  case (2 ds R pc s pc' s')
  then have "later s s'" "posted ds s'" using sw_timer_posts [of ds R pc s pc' s'] by simp_all
  then show ?case using 2(2) later_lossless by blast
next
  case (3 ds R pc s)
  then show ?case using sr_front [of ds R s] by (simp add: sw_inv_def sw_live_def sw_core_def)
next
  case (4 ds R pc s s')
  have live: "sw_live ds R s" using 4(1) by (simp add: sw_inv_def)
  then have "sr_core ds R s" by (simp add: sw_live_def sw_core_def)
  then have n: "unat (of_nat (Suc (unat (packets_sent s))) :: 32 word) = Suc (unat (packets_sent s))"
    using sr_front(1) 4(2,3) by (intro core_number_32) (auto simp: Suc_le_eq)
  have ll: "lossless s" and po: "posted ds s" using 4(2) by simp_all
  from sw_ack_posts [OF live ll po _ 4(5)] 4(3,4) n show ?case by simp
next
  case 5
  then show ?case by (simp add: posted_def lossless_def)
qed

interpretation stop_and_wait_waits: waiting_strategy sw_acknowledge_packet sw_timer_step zero_ack
    "\<lambda>_. True" sw_inv sw_quiet "\<lambda>ds s. posted ds s \<and> lossless s" "\<lambda>s. unat (packets_sent s)"
proof (unfold_locales, goal_cases)
  case (1 ds R pc s)
  then show ?case using sr_front_all [of ds R s] sw_live_sr_inv [of ds R s] by (simp add: sw_inv_def)
next
  case (2 ds R pc s pc' s')
  then show ?case using sw_timer_posts [of ds R pc s pc' s'] by (simp add: later_def)
qed simp_all

lemma sw_initial_posts:
  assumes u: "usable cwd fs name 1 link" and f: "fs (c_str (cwd @ [47] @ name)) = Some contents"
    and ll: "loss_probability link \<le> 0" and st: "sw_start_server cwd fs name link clk = Inr s"
  shows "posted (chunks contents) s \<and> lossless s"
proof -
  obtain b s1 where s1: "new_packet_builder cwd fs name 1 = Inr b"
    "fill_window (base_strategy b link clk 1 1 1 1) = Inr s1" "sr_core (chunks contents) (\<lambda>_. True) s1"
    "sender s1 = link" "max_window_size s1 = 1" "aux_window s1 = []"
    using base_fill_core [where fs = fs, OF u f, of clk 1 "\<lambda>_. True"] by blast
  then have core: "sw_core (chunks contents) (\<lambda>_. True) s1" and l1: "lossless s1"
    using ll by (simp_all add: sw_core_def lossless_def)
  have "sw_start s1 = Inr s" using st s1(1,2) by (simp add: sw_start_server_def new_stop_and_wait_def)
  then show ?thesis
  proof (cases "window s1")
    case Nil
    then show ?thesis using \<open>sw_start s1 = Inr s\<close> l1 by (simp add: sw_start_def posted_def)
  next
    case (Cons a as)
    then have w: "window s1 = [a]" using sw_core_window(1) [OF core, of a] by simp
    with \<open>sw_start s1 = Inr s\<close> obtain s2 where s2: "sw_send_packet a s1 = Inr s2" "s = s2\<lparr>timer := True\<rparr>"
      by (auto simp: sw_start_def rbind_Inr_iff)
    from sw_send_posts [OF core l1 w s2(1)] show ?thesis
      using s2(2) later_lossless [OF _ l1] by (auto simp: posted_def lossless_def)
  qed
qed

lemma sw_live_start:
  assumes "loss_probability link \<le> 0" "sw_transfer_start contents link n t"
  shows "session_live sw_inv sw_quiet (\<lambda>ds s. posted ds s \<and> lossless s) (chunks contents) n t"
proof -
  from assms(2) obtain cwd fs name clk where
    u: "usable cwd fs name 1 link" and f: "fs (c_str (cwd @ [47] @ name)) = Some contents" and
    s: "sw_start_server cwd fs name link clk = Inr (server t)" and c: "client_start n (client t)"
    by (auto simp: sw_transfer_start_def)
  have "cl_window_size (client t) = n"
    using c by (auto simp: client_start_def new_client_selective_repeat_def)
  then show ?thesis
    using sw_initial_posts [where fs = fs, OF u f assms(1) s] sw_transfer_start_inv [OF assms(2)]
    by (simp add: session_live_def)
qed

lemma sw_reachable_live:
  assumes "loss_probability link \<le> 0" "sw_transfer_reachable zero_ack contents link n t"
  shows "session_live sw_inv sw_quiet (\<lambda>ds s. posted ds s \<and> lossless s) (chunks contents) n t"
  by (rule stop_and_wait_live.session_reachable_live
        [OF _ assms(2) [unfolded sw_transfer_reachable_def sw_transfer_step_def]])
     (rule sw_live_start [OF assms(1)])

section \<open>A damaged acknowledgement is believed\<close>

definition forged_ack :: "32 word \<Rightarrow> ack_packet" where
  "forged_ack n = \<lparr>ack_cksum = checksum_of 8 n [] + 1, ack_len = 8, ackno = n\<rparr>"

definition forged_wire :: "32 word \<Rightarrow> byte list" where
  "forged_wire n = header_bytes n 8 (checksum_of 8 n [] + 1)"

lemma forged_wire:
  "ack_packet_of_buffer (forged_wire n) = Inr (forged_ack n)" "damaged_ack (forged_wire n)"
proof -
  show 1: "ack_packet_of_buffer (forged_wire n) = Inr (forged_ack n)"
    using ack_wire.round_trip [of "forged_ack n"]
    by (simp add: forged_ack_def forged_wire_def pack_ack_eq wf_ack_packet_def)
  then show "damaged_ack (forged_wire n)"
    by (simp add: damaged_ack_def calculate_ack_checksum_eq forged_ack_def)
qed

text \<open>A run in which only forged acknowledgements arrive empties the window.\<close>

lemma forged_run:
  "sw_live ds (\<lambda>_. True) (server t) \<Longrightarrow> posted ds (server t) \<Longrightarrow> lossless (server t) \<Longrightarrow> \<not> over t \<Longrightarrow>
   \<exists>t'. (sw_transfer_step damaged_ack)\<^sup>*\<^sup>* t t' \<and> sw_live ds (\<lambda>_. True) (server t') \<and>
     window (server t') = [] \<and> \<not> over t' \<and> client t' = client t"
proof (induction "length ds - unat (packets_sent (server t))" arbitrary: t rule: less_induct)
  case less
  let ?s = "server t"
  show ?case
  proof (cases "window ?s = []")
    case True
    then show ?thesis using less.prems by blast
  next
    case False
    have core: "sr_core ds (\<lambda>_. True) ?s" using less.prems(1) by (simp add: sw_live_def sw_core_def)
    define n where "n = (of_nat (Suc (unat (packets_sent ?s))) :: 32 word)"
    obtain s where s: "sw_acknowledge_packet (forged_ack n) ?s = Inr s" "sw_live ds (\<lambda>_. True) s"
      using sw_acknowledge_live [OF less.prems(1)] by blast
    have "onward ?s s" "posted ds s" "unat (packets_sent ?s) < unat (packets_sent s)"
      using sw_ack_posts [OF less.prems(1,3,2) _ s(1)] False by (simp_all add: forged_ack_def n_def)
    moreover have "unat (packets_sent ?s) < length ds" using sr_front(1) [OF core False less.prems(2)] .
    ultimately have dec: "length ds - unat (packets_sent s) < length ds - unat (packets_sent ?s)"
      "posted ds s" "lossless s" using onward_lossless less.prems(3) by auto
    have "sw_transfer_step damaged_ack t (t\<lparr>server := s\<rparr>)"
      unfolding sw_transfer_step_def
      by (rule session_step.deliver_ack [of t "forged_wire n"])
         (use less.prems(4) False forged_wire s(1) in \<open>simp_all add: is_done_def handle_ack_def\<close>)
    moreover obtain t' where "(sw_transfer_step damaged_ack)\<^sup>*\<^sup>* (t\<lparr>server := s\<rparr>) t'"
      "sw_live ds (\<lambda>_. True) (server t')" "window (server t') = []" "\<not> over t'" "client t' = client t"
      using less.hyps [of "t\<lparr>server := s\<rparr>"] dec s(2) less.prems(4) by auto
    ultimately show ?thesis by (meson converse_rtranclp_into_rtranclp)
  qed
qed

lemma forged_session:
  assumes u: "usable cwd fs name 1 link" and f: "fs (c_str (cwd @ [47] @ name)) = Some contents"
    and ll: "loss_probability link \<le> 0"
  shows "\<exists>t. sw_transfer_reachable damaged_ack contents link n t \<and> over t \<and>
    cl_sent (client t) = [] \<and> cl_output (client t) = []"
proof -
  let ?c = "new_client_selective_repeat n (fw_open True [] new_file_writer)"
  obtain s where s: "sw_start_server cwd fs name link (\<lambda>k. k) = Inr s" "sw_live (chunks contents) (\<lambda>_. True) s"
    using sw_initial_live [where fs = fs, OF u f] by blast
  let ?t = "\<lparr>server = s, timer_at = W_Loop, over = False, client = ?c\<rparr>"
  have r: "sw_transfer_reachable damaged_ack contents link n ?t"
    unfolding sw_transfer_reachable_def
    by (rule reachable_start) (rule sw_transfer_startI [where fs = fs, OF u f s(1)])
  obtain t where t: "(sw_transfer_step damaged_ack)\<^sup>*\<^sup>* ?t t" "sw_live (chunks contents) (\<lambda>_. True) (server t)"
    "window (server t) = []" "\<not> over t" "client t = ?c"
    using forged_run [of "chunks contents" ?t] s sw_initial_posts [where fs = fs, OF u f ll s(1)] by auto
  have d: "fst (is_done (server t))" using t(3) by (simp add: is_done_def Let_def now_def)
  have "sw_inv (chunks contents) (\<lambda>_. True) W_Loop (server t)" using t(2) by (simp add: sw_inv_def)
  from stop_and_wait.finish_ended [OF this d] obtain s' where "finish (server t) = Inr s'" by blast
  from session_step.end_of_file [OF t(4) d this] have
    "sw_transfer_step damaged_ack t (t\<lparr>server := s', over := True\<rparr>)" by (simp add: sw_transfer_step_def)
  with t(1) have "(sw_transfer_step damaged_ack)\<^sup>*\<^sup>* ?t (t\<lparr>server := s', over := True\<rparr>)" by simp
  from reachable_steps [OF r [unfolded sw_transfer_reachable_def] this] show ?thesis
    using t(5) by (intro exI [of _ "t\<lparr>server := s', over := True\<rparr>"])
      (simp add: sw_transfer_reachable_def new_client_selective_repeat_def fw_open_def cl_output_def
        new_file_writer_def)
qed

section \<open>A small configuration\<close>

lemma sw_example_usable: "usable [47] example_files [102] 1 example_link"
  using example_usable(1) by (simp add: usable_def)

lemma sw_example_start:
  obtains t where "sw_transfer_reachable damage example_file example_link 1 t" "\<not> over t"
proof -
  obtain s where s: "sw_start_server [47] example_files [102] example_link (\<lambda>k. k) = Inr s"
    using sw_initial_live [OF sw_example_usable example_usable(2), of "\<lambda>k. k"] by blast
  let ?t = "\<lparr>server = s, timer_at = W_Loop, over = False,
    client = new_client_selective_repeat 1 (fw_open True [] new_file_writer)\<rparr>"
  have "sw_transfer_reachable damage example_file example_link 1 ?t"
    unfolding sw_transfer_reachable_def
    by (rule reachable_start) (rule sw_transfer_startI [OF sw_example_usable example_usable(2) s])
  then show ?thesis by (rule that) simp
qed

lemma sw_transfer_steps:
  "sw_transfer_reachable damage contents link n t \<Longrightarrow>
   (session_step sr_client_run stray sw_acknowledge_packet sw_timer_step damage)\<^sup>*\<^sup>* t t' \<Longrightarrow>
   sw_transfer_reachable damage contents link n t'"
  unfolding sw_transfer_reachable_def sw_transfer_step_def by (rule reachable_steps)

lemma sw_example_done:
  obtains t where "sw_transfer_reachable zero_ack example_file example_link 1 t" "cl_done (client t)"
proof -
  obtain t where t: "sw_transfer_reachable zero_ack example_file example_link 1 t"
    by (rule sw_example_start)
  from stop_and_wait_live.can_complete [OF sw_reachable_live [OF example_usable(3) t]] obtain t' where
    t': "(session_step sr_client_run stray sw_acknowledge_packet sw_timer_step zero_ack)\<^sup>*\<^sup>* t t'" "cl_done (client t')"
    by auto
  show ?thesis by (rule that [OF sw_transfer_steps [OF t t'(1)] t'(2)])
qed

end
