(* ===== verification/Stop_And_Wait_Properties.thy ===== *)
theory Stop_And_Wait_Properties
  imports Stop_And_Wait_Transfer
begin

text \<open>Properties of the stop-and-wait strategy, alone and in a session.\<close>

section \<open>The session\<close>

text \<open>
  C12: with the stop-and-wait sender, over a network that may lose, delay, duplicate, reorder and
  damage the data but does not damage acknowledgements, what the client has written is always a
  prefix of the file, and it is the file when either side has ended.
\<close>

theorem stop_and_wait_delivers:
  assumes "sw_transfer_reachable zero_ack contents link n t"
  shows "prefix (cl_output (client t)) contents \<and>
    (over t \<or> cl_done (client t) \<longrightarrow> cl_output (client t) = contents)"
  using stop_and_wait.session_prefix [OF sw_reachable_inv [OF assms]]
    stop_and_wait.session_over [OF sw_reachable_inv [OF assms]]
    stop_and_wait.session_done [OF sw_reachable_inv [OF assms]]
  by (auto simp: concat_chunks)

theorem stop_and_wait_delivers_witness:
  "\<exists>t. sw_transfer_reachable zero_ack example_file example_link 1 t \<and> cl_done (client t) \<and>
     cl_output (client t) = [104, 105]"
proof -
  obtain t where t: "sw_transfer_reachable zero_ack example_file example_link 1 t" "cl_done (client t)"
    by (rule sw_example_done)
  from stop_and_wait_delivers [OF t(1)] t show ?thesis by (auto simp: example_file_def)
qed

text \<open>
  Over such a network that loses nothing, and with a client window of at least one packet,
  a stop-and-wait transfer can be completed from every state it can get into.
\<close>

theorem stop_and_wait_can_complete:
  assumes "sw_transfer_reachable zero_ack contents link n t" "loss_probability link \<le> 0"
    and "1 \<le> n" "n < 2 ^ 31"
  shows "\<exists>t'. (sw_transfer_step zero_ack)\<^sup>*\<^sup>* t t' \<and> cl_done (client t') \<and> over t' \<and>
    cl_output (client t') = contents"
  using stop_and_wait_live.can_complete [OF sw_reachable_live [OF assms(2,1)] assms(3,4)]
  by (simp add: concat_chunks sw_transfer_step_def)

theorem stop_and_wait_can_complete_witness:
  "\<exists>t t'. sw_transfer_reachable zero_ack example_file example_link 1 t \<and> \<not> over t \<and>
     (sw_transfer_step zero_ack)\<^sup>*\<^sup>* t t' \<and> cl_output (client t') = [104, 105]"
proof -
  obtain t where t: "sw_transfer_reachable zero_ack example_file example_link 1 t" "\<not> over t"
    by (rule sw_example_start)
  from stop_and_wait_can_complete [OF t(1) example_usable(3)] t show ?thesis
    by (auto simp: example_file_def)
qed

text \<open>
  C19: stop-and-wait acts on an acknowledgement without looking at its checksum, so a network
  that damages acknowledgements can make it drop every file it sends: for every file, even over
  a link that loses no packet, a state is reachable in which the server has sent the terminal
  packet and the client has received nothing.
\<close>

theorem stop_and_wait_believes_damage:
  assumes "usable cwd fs name 1 link" "fs (c_str (cwd @ [47] @ name)) = Some contents"
    and "loss_probability link \<le> 0"
  shows "\<exists>t. sw_transfer_reachable damaged_ack contents link n t \<and> over t \<and>
    cl_sent (client t) = [] \<and> cl_output (client t) = []"
  by (rule forged_session [where fs = fs, OF assms])

theorem stop_and_wait_believes_damage_witness:
  "\<exists>t. sw_transfer_reachable damaged_ack example_file example_link 1 t \<and> over t \<and>
     cl_output (client t) \<noteq> example_file"
proof -
  from stop_and_wait_believes_damage [OF sw_example_usable example_usable(2,3), of 1]
  show ?thesis by (auto simp: example_file_def)
qed

text \<open>
  C40: stop-and-wait has at most one packet outstanding, and its timer thread refers to that
  packet or to one that has been deleted: in every reachable state of a running transfer, the
  window has at most one packet, the timer's set holds nothing else, and the pointer the timer
  thread holds is dead or in the window.
\<close>

theorem stop_and_wait_one_outstanding:
  assumes "sw_transfer_reachable zero_ack contents link n t" "\<not> over t"
  shows "length (window (server t)) \<le> 1 \<and> set (unacked_packets (server t)) \<subseteq> set (window (server t)) \<and>
    (\<forall>a. sw_pointer (timer_at t) = Some a \<longrightarrow>
       cells (mem (server t)) a = None \<or> window (server t) = [a])"
proof -
  have inv: "sw_inv (chunks contents) (received (client t)) (timer_at t) (server t)"
    using sw_reachable_inv [OF assms(1)] assms(2) by (simp add: session_inv_def)
  then have core: "sw_core (chunks contents) (received (client t)) (server t)"
    by (simp add: sw_inv_def sw_live_def)
  then have "length (window (server t)) \<le> 1" "set (unacked_packets (server t)) \<subseteq> set (window (server t))"
    by (auto simp: sw_core_def sr_core_def sr_sizes_def sr_timed_def)
  moreover have "cells (mem (server t)) a = None \<or> window (server t) = [a]"
    if "sw_pointer (timer_at t) = Some a" for a
    using inv that sw_core_window(1) [OF core, of a] by (auto simp: sw_inv_def held_ok_def)
  ultimately show ?thesis by blast
qed

theorem stop_and_wait_one_outstanding_witness:
  "\<exists>t. sw_transfer_reachable zero_ack example_file example_link 1 t \<and> \<not> over t \<and>
     length (window (server t)) \<le> 1"
proof -
  obtain t where t: "sw_transfer_reachable zero_ack example_file example_link 1 t" "\<not> over t"
    by (rule sw_example_start)
  from stop_and_wait_one_outstanding [OF t] t show ?thesis by blast
qed

end
