(* ===== verification/Go_Back_N.thy ===== *)
theory Go_Back_N
  imports Rdt_Strategy
begin

text \<open>
  \<open>server/strategy/go_back_N_strategy\<close>: the sender with a window of 200 packets and cumulative
  acknowledgements. Its constructor leaves \<open>next_seq_number\<close>, \<open>max_window_size\<close> and \<open>threshold\<close>
  indeterminate: their values are arguments (the last two are never read).
\<close>

definition DEFAULT_WINDOW_SIZE :: int where "DEFAULT_WINDOW_SIZE = 200"

section \<open>Construction, sending, starting\<close>

definition new_go_back_N ::
    "32 word \<Rightarrow> int \<Rightarrow> int \<Rightarrow> path \<Rightarrow> (path \<rightharpoonup> byte list) \<Rightarrow> path \<Rightarrow> packet_sender \<Rightarrow> (nat \<Rightarrow> nat) \<Rightarrow>
     rdt_strategy res" where
  "new_go_back_N n mx thr cwd fs file_name link clk =
     rbind (new_packet_builder cwd fs file_name DEFAULT_WINDOW_SIZE) (\<lambda>b.
       fill_window (base_strategy b link clk n DEFAULT_WINDOW_SIZE mx thr))"

definition gbn_send_packet :: "ptr \<Rightarrow> rdt_strategy \<Rightarrow> rdt_strategy res" where
  "gbn_send_packet a s = rbind (transmit a s) (\<lambda>(triple_dup_ack, s). Inr s)"

definition gbn_stamp :: "ptr \<Rightarrow> rdt_strategy \<Rightarrow> rdt_strategy res" where
  "gbn_stamp a s = (let (t, s) = now s in set_packet a (set_time_stamp t) s)"

text \<open>
  The loop of \<open>start\<close> stamps each packet a second time, when it is already in the timer's set.
\<close>

fun gbn_start_loop :: "bool \<Rightarrow> ptr list \<Rightarrow> rdt_strategy \<Rightarrow> rdt_strategy res" where
  "gbn_start_loop first [] s = Inr s"
| "gbn_start_loop first (a # as) s =
     rbind (gbn_send_packet a s) (\<lambda>s.
     rbind (gbn_stamp a s) (\<lambda>s.
       gbn_start_loop False as (if first then s\<lparr>timer := True\<rparr> else s)))"

definition gbn_start :: "rdt_strategy \<Rightarrow> rdt_strategy res" where
  "gbn_start s = gbn_start_loop True (window s) s"

section \<open>Acknowledgements\<close>

lemma gbn_send_packet_frame:
  "gbn_send_packet a s = Inr s' \<Longrightarrow> window s' = window s \<and> pkt_builder s' = pkt_builder s"
  by (auto simp: gbn_send_packet_def rbind_Inr_iff transmit_frame)

text \<open>
  \<open>advance_window\<close> pops the acknowledged packets at the front without deleting them; for each
  one the next packet of the file, if any, is appended and sent.
\<close>

function gbn_advance_window :: "rdt_strategy \<Rightarrow> rdt_strategy res" where
  "gbn_advance_window s =
     (if window s = [] then Inr s
      else
        rbind (packet_at (hd (window s)) s) (\<lambda>p.
          if acked p then
            if has_next (pkt_builder s) then
              rbind (next_packet (s\<lparr>window := tl (window s)\<rparr>)) (\<lambda>x.
              rbind (gbn_send_packet (fst x) ((snd x)\<lparr>window := window (snd x) @ [fst x]\<rparr>))
                gbn_advance_window)
            else gbn_advance_window (s\<lparr>window := tl (window s)\<rparr>)
          else Inr s))"
  by pat_completeness auto
termination
proof (relation "measures [\<lambda>s. work_left (pkt_builder s), \<lambda>s. length (window s)]", goal_cases)
  case (2 s p x s1)
  then have "work_left (pkt_builder s1) < work_left (pkt_builder s)"
    using next_packet_work [of "s\<lparr>window := tl (window s)\<rparr>" "fst x" "snd x"]
      gbn_send_packet_frame [of "fst x" _ s1] by auto
  then show ?case by simp
qed simp_all

declare gbn_advance_window.simps [simp del]

text \<open>
  From the acknowledged packet back to the front of the window, with the pointers in that
  order. The loop ends when its iterator has moved below \<open>begin()\<close>, which the language leaves
  undefined: \<open>strict\<close> says that it faults there, otherwise the comparison that ends the loop is
  false, as with the usual implementations of \<open>std::deque\<close>.
\<close>

fun gbn_ack_back :: "bool \<Rightarrow> ptr list \<Rightarrow> rdt_strategy \<Rightarrow> rdt_strategy res" where
  "gbn_ack_back strict [] s = (if strict then Inl Invalid_Iterator else Inr s)"
| "gbn_ack_back strict (a # as) s =
     rbind (set_packet a (set_ack True) s) (\<lambda>s.
     rbind (erase_unacked a s) (gbn_ack_back strict as))"

definition gbn_ack_found :: "bool \<Rightarrow> nat \<Rightarrow> rdt_strategy \<Rightarrow> rdt_strategy res" where
  "gbn_ack_found strict i s =
     rbind (lock_set_mutex s) (\<lambda>s.
     rbind (gbn_ack_back strict (rev (take (Suc i) (window s))) s) (\<lambda>s.
       gbn_advance_window (unlock_set_mutex s)))"

definition gbn_acknowledge_packet :: "bool \<Rightarrow> ack_packet \<Rightarrow> rdt_strategy \<Rightarrow> rdt_strategy res" where
  "gbn_acknowledge_packet strict ack_pkt s =
     rbind (find_seqno (ackno ack_pkt) 0 (window s) s) (\<lambda>r.
       case r of None \<Rightarrow> Inr s | Some (i, a) \<Rightarrow> gbn_ack_found strict i s)"

section \<open>The timer thread\<close>

text \<open>
  The body of \<open>send_packet\<close> up to the point where it locks the set: the timer thread gets that
  far, so what it has sent by then matters.
\<close>

definition gbn_link_send :: "ptr \<Rightarrow> rdt_strategy \<Rightarrow> rdt_strategy res" where
  "gbn_link_send a s =
     rbind (packet_at a s) (\<lambda>packet.
     rbind (send_packet packet (sender s)) (\<lambda>(triple_dup_ack, out, snd).
       let s = s\<lparr>sender := snd, sent := sent s @ (case out of None \<Rightarrow> [] | Some d \<Rightarrow> [d])\<rparr>;
           (t, s) = now s
       in set_packet a (set_time_stamp t) s))"

lemma gbn_send_packet_split:
  "gbn_send_packet a s = rbind (gbn_link_send a s) (locked_insert_unacked a)"
proof -
  have "rbind (rbind m (\<lambda>s. Inr (d, s))) (\<lambda>(d, s). Inr s) = m" for m :: "rdt_strategy res" and d :: bool
    by (cases m) simp_all
  then show ?thesis
    by (simp add: gbn_send_packet_def transmit_def gbn_link_send_def rbind_assoc Let_def split_def)
qed

text \<open>
  The places of the timer thread: it holds the set's mutex from \<open>G_Resend\<close> until the set has
  been filled again. \<open>as\<close> are the packets the loop has still to send, \<open>temp\<close> those it has sent.
  (\<open>send_packet\<close> inserts into the set the loop runs over; as it first locks the mutex the thread
  holds, the loop never sees a set that has changed.)
\<close>

datatype gbn_timer_pc =
    G_Loop                              \<comment> \<open>about to lock the set and take its first element\<close>
  | G_Compare ptr                       \<comment> \<open>holds the first packet; about to look at its time stamp\<close>
  | G_Resend                            \<comment> \<open>the packet has timed out; about to lock the set\<close>
  | G_Send "ptr list" "ptr list"        \<comment> \<open>about to send the next packet, or to fill the set again\<close>
  | G_Insert ptr "ptr list" "ptr list"  \<comment> \<open>in \<open>send_packet\<close>, about to lock the set\<close>

fun gbn_reinsert :: "ptr list \<Rightarrow> rdt_strategy \<Rightarrow> rdt_strategy res" where
  "gbn_reinsert [] s = Inr s"
| "gbn_reinsert (a # as) s = rbind (insert_unacked a s) (gbn_reinsert as)"

fun gbn_timer_step :: "gbn_timer_pc \<Rightarrow> rdt_strategy \<Rightarrow> (gbn_timer_pc \<times> rdt_strategy) res" where
  "gbn_timer_step G_Loop s = rbind (timer_first s) (\<lambda>(a, s). Inr (G_Compare a, s))"
| "gbn_timer_step (G_Compare a) s =
     rbind (timer_expired a s) (\<lambda>(expired, s). Inr (if expired then G_Resend else G_Loop, s))"
| "gbn_timer_step G_Resend s =
     rbind (lock_set_mutex s) (\<lambda>s. Inr (G_Send (unacked_packets s) [], s))"
| "gbn_timer_step (G_Send [] temp) s =
     rbind (gbn_reinsert temp (s\<lparr>unacked_packets := []\<rparr>)) (\<lambda>s. Inr (G_Loop, unlock_set_mutex s))"
| "gbn_timer_step (G_Send (a # as) temp) s =
     rbind (gbn_stamp a s) (\<lambda>s. rbind (gbn_link_send a s) (\<lambda>s. Inr (G_Insert a as temp, s)))"
| "gbn_timer_step (G_Insert a as temp) s =
     rbind (locked_insert_unacked a s) (\<lambda>s. Inr (G_Send as (temp @ [a]), s))"

end
