(* ===== verification/Go_Back_N_Inv.thy ===== *)
theory Go_Back_N_Inv
  imports Selective_Repeat_Inv Go_Back_N
begin

text \<open>
  The state of the go-back-N sender, described by how far it has come in the file, and what its
  operations do to that description.
\<close>

section \<open>The state of the sender\<close>

text \<open>
  The payloads \<open>ds\<close>, numbered from \<open>n\<close>: \<open>dd\<close> acknowledged and popped, \<open>dw\<close> in the window,
  \<open>rest\<close> with the builder.
\<close>

definition gbn_layout ::
    "byte list list \<Rightarrow> nat \<Rightarrow> byte list list \<Rightarrow> byte list list \<Rightarrow> byte list list \<Rightarrow> rdt_strategy \<Rightarrow> bool" where
  "gbn_layout ds n dd dw rest s \<longleftrightarrow>
     ds = dd @ dw @ rest \<and>
     run (mem s) (n + length dd) (window s) dw \<and>
     builder_ok (mem s) (n + length dd + length dw) (pkt_builder s) rest \<and>
     next_seq_number s = seq_after (n + length dd + length dw) (pkt_builder s) \<and>
     store_ok (mem s) \<and>
     distinct (window s @ packets_read_queue (pkt_builder s))"

text \<open>The timer's set holds packets that have been in the window; they are never deleted.\<close>

definition gbn_timed :: "byte list list \<Rightarrow> nat \<Rightarrow> nat \<Rightarrow> ptr list \<Rightarrow> store \<Rightarrow> bool" where
  "gbn_timed ds n k as st \<longleftrightarrow> (\<forall>a \<in> set as. \<exists>i < k. i < length ds \<and> holds st a (n + i) (ds ! i))"

definition gbn_core ::
    "byte list list \<Rightarrow> nat \<Rightarrow> byte list list \<Rightarrow> byte list list \<Rightarrow> byte list list \<Rightarrow> rdt_strategy \<Rightarrow> bool" where
  "gbn_core ds n dd dw rest s \<longleftrightarrow>
     payloads_ok ds \<and> n + length ds < 2 ^ 32 \<and> gbn_layout ds n dd dw rest s \<and>
     sender_ok (sender s) \<and> \<not> set_mutex s \<and>
     gbn_timed ds n (length dd + length dw) (unacked_packets s) (mem s)"

definition gbn_wire :: "byte list list \<Rightarrow> nat \<Rightarrow> nat \<Rightarrow> byte list" where
  "gbn_wire ds n i = wire (ds ! i) (of_nat (n + i))"

definition gbn_posted :: "byte list list \<Rightarrow> nat \<Rightarrow> nat \<Rightarrow> byte list list \<Rightarrow> bool" where
  "gbn_posted ds n k l \<longleftrightarrow> set l \<subseteq> gbn_wire ds n ` {..<k}"

definition gbn_running ::
    "byte list list \<Rightarrow> nat \<Rightarrow> byte list list \<Rightarrow> byte list list \<Rightarrow> byte list list \<Rightarrow> rdt_strategy \<Rightarrow> bool" where
  "gbn_running ds n dd dw rest s \<longleftrightarrow>
     gbn_core ds n dd dw rest s \<and> (\<forall>a \<in> set (window s). \<not> acked_at s a) \<and>
     gbn_posted ds n (length dd + length dw) (sent s) \<and>
     (rest = [] \<or> length dw = nat DEFAULT_WINDOW_SIZE)"

lemma gbn_window_length: "gbn_core ds n dd dw rest s \<Longrightarrow> length (window s) = length dw"
  by (auto simp: gbn_core_def gbn_layout_def dest: run_length)

lemma gbn_posted_snoc:
  "gbn_posted ds n k l \<Longrightarrow> out = [] \<or> out = [gbn_wire ds n k] \<Longrightarrow> gbn_posted ds n (Suc k) (l @ out)"
  unfolding gbn_posted_def by (auto simp: lessThan_Suc)

lemma gbn_cell:
  assumes "gbn_core ds n dd dw rest s" "j < length dw"
  obtains q where "cells (mem s) (window s ! j) = Some q" "seqno q = of_nat (n + length dd + j)"
    "pack q = Inr (gbn_wire ds n (length dd + j))"
proof -
  have r: "run (mem s) (n + length dd) (window s) dw" and d: "ds = dd @ dw @ rest"
    using assms(1) by (simp_all add: gbn_core_def gbn_layout_def)
  have p: "payloads_ok ds" using assms(1) by (simp add: gbn_core_def)
  have "j < length (window s)" using assms gbn_window_length by simp
  from run_cell [OF r this] obtain q where q: "cells (mem s) (window s ! j) = Some q"
    "seqno q = of_nat (n + length dd + j)" "pack q = pack (mk_packet (dw ! j) (of_nat (n + length dd + j)))"
    by metis
  have "dw ! j \<in> set ds" using d assms(2) by simp
  then have "length (dw ! j) \<le> 500" using p unfolding payloads_ok_def by blast
  moreover have "ds ! (length dd + j) = dw ! j" using d assms(2) by (simp add: nth_append)
  ultimately have "pack q = Inr (gbn_wire ds n (length dd + j))"
    using q(3) pack_mk_packet [of "dw ! j"] by (simp add: gbn_wire_def add.assoc)
  with q show ?thesis by (intro that)
qed

lemma gbn_bound:
  assumes "gbn_core ds n dd dw rest s"
  shows "length ds = length dd + length dw + length rest" "n + length ds < 2 ^ 32"
proof -
  show "n + length ds < 2 ^ 32" using assms by (simp add: gbn_core_def)
  have "ds = dd @ dw @ rest" using assms by (simp add: gbn_core_def gbn_layout_def)
  then show "length ds = length dd + length dw + length rest" by simp
qed

lemma gbn_core_cong:
  assumes "mem s' = mem s" "window s' = window s" "pkt_builder s' = pkt_builder s"
    "next_seq_number s' = next_seq_number s" "sender s' = sender s" "set_mutex s' = set_mutex s"
    "unacked_packets s' = unacked_packets s"
  shows "gbn_core ds n dd dw rest s' = gbn_core ds n dd dw rest s"
  by (simp only: gbn_core_def gbn_layout_def assms)

lemma gbn_live: "gbn_core ds n dd dw rest s \<Longrightarrow> a \<in> set (window s) \<Longrightarrow> cells (mem s) a \<noteq> None"
  unfolding gbn_core_def gbn_layout_def using run_live by blast

text \<open>Flags and time stamps do not matter to the description.\<close>

lemma gbn_window_not_queued:
  "gbn_core ds n dd dw rest s \<Longrightarrow> a \<in> set (window s) \<Longrightarrow> a \<notin> set (packets_read_queue (pkt_builder s))"
  by (auto simp: gbn_core_def gbn_layout_def)

lemma gbn_core_update:
  assumes core: "gbn_core ds n dd dw rest s" and f: "flag_update f"
    and a: "a \<notin> set (packets_read_queue (pkt_builder s))"
    and c: "cells (mem s) a = Some p"
    and s': "mem s' = (mem s)\<lparr>cells := (cells (mem s))(a \<mapsto> f p)\<rparr>" "window s' = window s"
      "pkt_builder s' = pkt_builder s" "next_seq_number s' = next_seq_number s" "sender_ok (sender s')"
      "\<not> set_mutex s'" "gbn_timed ds n (length dd + length dw) (unacked_packets s') (mem s)"
  shows "gbn_core ds n dd dw rest s'"
proof -
  have l: "gbn_layout ds n dd dw rest s" using core by (simp add: gbn_core_def)
  have "gbn_layout ds n dd dw rest s'"
    using a l run_update [OF f c] store_ok_update [OF _ c] builder_ok_update [OF _ f c]
    unfolding gbn_layout_def s' by auto
  moreover have "gbn_timed ds n (length dd + length dw) (unacked_packets s') (mem s')"
    using s'(7) holds_update [OF f c] unfolding gbn_timed_def s'(1) by blast
  ultimately show ?thesis using core s' by (simp add: gbn_core_def)
qed

section \<open>Sending\<close>

lemma gbn_timed_live: "gbn_timed ds n k as (mem s) \<Longrightarrow> all_live as s"
  by (fastforce simp: gbn_timed_def all_live_def holds_def)

lemma gbn_unacked_live: "gbn_core ds n dd dw rest s \<Longrightarrow> all_live (unacked_packets s) s"
  by (auto simp: gbn_core_def intro: gbn_timed_live)

lemma gbn_timed_subset: "gbn_timed ds n k as st \<Longrightarrow> set bs \<subseteq> set as \<Longrightarrow> gbn_timed ds n k bs st"
  unfolding gbn_timed_def by blast

lemma set_insert_subset: "set (set_insert lt a as) \<subseteq> set (a # as)"
  by (induction as) auto

lemma set_erase_subset: "set (set_erase lt a as) \<subseteq> set as"
  by (induction as) auto

lemma gbn_timed_window:
  assumes core: "gbn_core ds n dd dw rest s" and j: "j < length dw"
  shows "gbn_timed ds n (length dd + length dw) (window s ! j # unacked_packets s) (mem s)"
proof -
  have r: "run (mem s) (n + length dd) (window s) dw" and d: "ds = dd @ dw @ rest"
    using core by (simp_all add: gbn_core_def gbn_layout_def)
  have "holds (mem s) (window s ! j) (n + length dd + j) (dw ! j)"
    using run_nth [OF r] j gbn_window_length [OF core] by simp
  moreover have "ds ! (length dd + j) = dw ! j" "length dd + j < length ds" using d j by (simp_all add: nth_append)
  ultimately have "\<exists>i < length dd + length dw. i < length ds \<and> holds (mem s) (window s ! j) (n + i) (ds ! i)"
    using j by (intro exI [of _ "length dd + j"]) (simp add: add.assoc)
  moreover have "gbn_timed ds n (length dd + length dw) (unacked_packets s) (mem s)"
    using core by (simp add: gbn_core_def)
  ultimately show ?thesis by (simp add: gbn_timed_def)
qed

lemma gbn_send_core:
  assumes core: "gbn_core ds n dd dw rest s" and j: "j < length dw" "a = window s ! j"
  shows "\<exists>s' out. gbn_send_packet a s = Inr s' \<and> gbn_core ds n dd dw rest s' \<and> acked_at s' = acked_at s \<and>
    window s' = window s \<and> sent s' = sent s @ out \<and> (out = [] \<or> out = [gbn_wire ds n (length dd + j)])"
proof -
  have a: "a \<in> set (window s)" using j gbn_window_length [OF core] by simp
  obtain q where q: "cells (mem s) a = Some q" "pack q = Inr (gbn_wire ds n (length dd + j))"
    using gbn_cell [OF core j(1)] j(2) by metis
  obtain dup out ps where sp: "send_packet q (sender s) = Inr (dup, out, ps)" and ps: "sender_ok ps" and
    out: "out = None \<or> out = Some (gbn_wire ds n (length dd + j))"
    using send_packet_ok [of "sender s" q, OF _ q(2)] core by (auto simp: gbn_core_def)
  let ?o = "case out of None \<Rightarrow> [] | Some d \<Rightarrow> [d]"
  let ?s1 = "s\<lparr>sender := ps, sent := sent s @ ?o, ticks := Suc (ticks s),
      mem := (mem s)\<lparr>cells := (cells (mem s))(a \<mapsto> set_time_stamp (clock s (ticks s)) q)\<rparr>\<rparr>"
  let ?s2 = "?s1\<lparr>unacked_packets := set_insert (by_key (stamp ?s1)) a (unacked_packets s)\<rparr>"
  have live: "all_live (a # unacked_packets s) s" using gbn_unacked_live [OF core] q by (auto simp: all_live_def)
  then have "locked_insert_unacked a ?s1 = Inr ?s2"
    using core by (subst locked_insert_eq) (auto simp: all_live_def gbn_core_def)
  then have tr: "gbn_send_packet a s = Inr ?s2"
    using q sp by (simp add: gbn_send_packet_def transmit_def packet_at_def deref_def now_def set_packet_def update_def)
  have "gbn_core ds n dd dw rest ?s2"
    by (rule gbn_core_update [OF core _ gbn_window_not_queued [OF core a] q(1), where f = "set_time_stamp (clock s (ticks s))"])
       (use ps core gbn_timed_subset [OF gbn_timed_window [OF core j(1)] set_insert_subset] j(2)
         in \<open>simp_all add: gbn_core_def\<close>)
  moreover have "acked_at ?s2 = acked_at s"
    using q by (auto simp: acked_at_def fun_eq_iff set_time_stamp_def)
  ultimately show ?thesis using tr out by (intro exI [of _ ?s2] exI [of _ ?o]) auto
qed

section \<open>Taking packets from the file\<close>

lemma gbn_next_core:
  assumes core: "gbn_core ds n dd dw (d # rest) s"
  shows "\<exists>a s1. next_packet s = Inr (a, s1) \<and>
    gbn_core ds n dd (dw @ [d]) rest (s1\<lparr>window := window s1 @ [a]\<rparr>) \<and> \<not> acked_at s1 a \<and>
    (\<forall>b \<in> set (window s). acked_at s1 b = acked_at s b) \<and> window s1 = window s \<and>
    sent s1 = sent s \<and> window_size s1 = window_size s"
proof -
  let ?i = "n + length dd + length dw" and ?b = "pkt_builder s"
  have l: "gbn_layout ds n dd dw (d # rest) s" using core by (simp add: gbn_core_def)
  then have bo: "builder_ok (mem s) ?i ?b (d # rest)" and so: "store_ok (mem s)" and
    rn: "run (mem s) (n + length dd) (window s) dw"
    by (simp_all add: gbn_layout_def)
  from get_next_packet_ok [OF bo so] obtain a st' b' where
    g: "get_next_packet (seq_after ?i ?b) (mem s) ?b = Inr (a, seq_after (Suc ?i) b', st', b')" and
    b': "builder_ok st' (Suc ?i) b' rest" and st': "store_ok st'" "grows (mem s) st'" and
    h: "holds st' a ?i d" "unacked_in st' [a]" "a \<notin> set (packets_read_queue b')" and
    sub: "set (a # packets_read_queue b') \<subseteq> set (packets_read_queue ?b) \<union> {next_addr (mem s)..}"
    by blast
  define nx where "nx = seq_after (Suc ?i) b'"
  let ?s1 = "s\<lparr>next_seq_number := nx, mem := st', pkt_builder := b'\<rparr>"
  let ?s2 = "?s1\<lparr>window := window s @ [a]\<rparr>"
  have np: "next_packet s = Inr (a, ?s1)" using l g by (simp add: next_packet_def gbn_layout_def nx_def)
  have cell: "cells st' b = cells (mem s) b" if "cells (mem s) b \<noteq> None" for b
    using that st'(2) store_ok_less [OF so] by (auto simp: grows_def)
  have wcell: "cells st' b = cells (mem s) b" if "b \<in> set (window s)" for b
    using cell gbn_live [OF core that] by simp
  have disj: "set (window s) \<inter> set (a # packets_read_queue b') = {}"
    using sub l run_less [OF so rn] by (fastforce simp: gbn_layout_def)
  have na: "\<not> acked_at ?s1 a" using h(1,2) by (auto simp: acked_at_def unacked_in_def holds_def)
  have ac: "acked_at ?s1 b = acked_at s b" if "b \<in> set (window s)" for b
    by (rule acked_at_cell) (simp add: wcell [OF that])
  have "run st' (n + length dd) (window s @ [a]) (dw @ [d])"
    by (rule run_appendI) (use rn wcell h(1) gbn_window_length [OF core] in \<open>auto intro: run_cong\<close>)
  then have "gbn_layout ds n dd (dw @ [d]) rest ?s2"
    using l b' st'(1) disj h(3) builder_ok_def [of st' "Suc ?i" b' rest]
    by (auto simp: gbn_layout_def nx_def)
  moreover have "gbn_timed ds n (length dd + length (dw @ [d])) (unacked_packets s) (mem ?s2)"
    unfolding gbn_timed_def
  proof
    fix b
    assume "b \<in> set (unacked_packets s)"
    then obtain i where i: "i < length dd + length dw" "i < length ds" "holds (mem s) b (n + i) (ds ! i)"
      using core by (auto simp: gbn_core_def gbn_timed_def)
    then have "cells st' b = cells (mem s) b" using cell by (auto simp: holds_def)
    with i show "\<exists>i < length dd + length (dw @ [d]). i < length ds \<and> holds (mem ?s2) b (n + i) (ds ! i)"
      by (intro exI [of _ i]) (simp add: holds_def)
  qed
  ultimately have "gbn_core ds n dd (dw @ [d]) rest ?s2" using core by (simp add: gbn_core_def)
  with np na ac show ?thesis by (intro exI [of _ a] exI [of _ ?s1]) simp
qed

text \<open>One more packet of the file, appended and sent.\<close>

lemma gbn_push_core:
  assumes core: "gbn_core ds n dd dw (d # rest) s"
  shows "\<exists>a s1 s2 out. next_packet s = Inr (a, s1) \<and>
    gbn_send_packet a (s1\<lparr>window := window s1 @ [a]\<rparr>) = Inr s2 \<and> gbn_core ds n dd (dw @ [d]) rest s2 \<and>
    window s2 = window s @ [a] \<and> \<not> acked_at s2 a \<and>
    (\<forall>b \<in> set (window s). acked_at s2 b = acked_at s b) \<and>
    sent s2 = sent s @ out \<and> (out = [] \<or> out = [gbn_wire ds n (length dd + length dw)])"
proof -
  obtain a s1 where n: "next_packet s = Inr (a, s1)"
    "gbn_core ds n dd (dw @ [d]) rest (s1\<lparr>window := window s1 @ [a]\<rparr>)" "\<not> acked_at s1 a"
    "\<forall>b \<in> set (window s). acked_at s1 b = acked_at s b" "window s1 = window s" "sent s1 = sent s"
    using gbn_next_core [OF core] by blast
  let ?w = "s1\<lparr>window := window s1 @ [a]\<rparr>"
  have "a = window ?w ! length dw" using gbn_window_length [OF core] n(5) by (simp add: nth_append)
  from gbn_send_core [OF n(2) _ this] obtain s2 out where
    "gbn_send_packet a ?w = Inr s2" "gbn_core ds n dd (dw @ [d]) rest s2" "acked_at s2 = acked_at ?w"
    "window s2 = window ?w" "sent s2 = sent ?w @ out"
    "out = [] \<or> out = [gbn_wire ds n (length dd + length dw)]" by auto
  then show ?thesis using n by (intro exI [of _ a] exI [of _ s1] exI [of _ s2] exI [of _ out]) (simp add: acked_at_def)
qed

section \<open>Sliding the window\<close>

lemma gbn_pop_core:
  assumes core: "gbn_core ds n dd (d # dw) rest s" and w: "window s = a # as"
  shows "gbn_core ds n (dd @ [d]) dw rest (s\<lparr>window := as\<rparr>)"
proof -
  have "gbn_layout ds n (dd @ [d]) dw rest (s\<lparr>window := as\<rparr>)"
    using core w by (simp add: gbn_core_def gbn_layout_def run_Cons)
  then show ?thesis using core by (simp add: gbn_core_def)
qed

text \<open>\<open>sends ds n k s s'\<close>: from \<open>s\<close> to \<open>s'\<close> only packets from number \<open>k\<close> on are added to the log.\<close>

definition sends :: "byte list list \<Rightarrow> nat \<Rightarrow> nat \<Rightarrow> rdt_strategy \<Rightarrow> rdt_strategy \<Rightarrow> bool" where
  "sends ds n k s s' \<longleftrightarrow>
     set (sent s) \<subseteq> set (sent s') \<and>
     (\<forall>x \<in> set (sent s') - set (sent s). \<exists>i \<ge> k. i < length ds \<and> x = gbn_wire ds n i)"

lemma sends_refl [simp]: "sends ds n k s s"
  by (simp add: sends_def)

lemma sends_trans: "sends ds n k s s' \<Longrightarrow> sends ds n k' s' s'' \<Longrightarrow> k \<le> k' \<Longrightarrow> sends ds n k s s''"
  unfolding sends_def by (meson DiffD1 DiffD2 DiffI le_trans subset_trans)

lemma gbn_advance_core:
  "gbn_core ds n dd dw rest s \<Longrightarrow> m \<le> length dw \<Longrightarrow>
   \<forall>j < length dw. acked_at s (window s ! j) \<longleftrightarrow> j < m \<Longrightarrow>
   gbn_posted ds n (length dd + length dw) (sent s) \<Longrightarrow>
   \<exists>s'. gbn_advance_window s = Inr s' \<and>
     gbn_core ds n (dd @ take m dw) (drop m dw @ take m rest) (drop m rest) s' \<and>
     (\<forall>a \<in> set (window s'). \<not> acked_at s' a) \<and>
     gbn_posted ds n (length dd + length dw + length (take m rest)) (sent s') \<and>
     (\<exists>new. window s' = drop m (window s) @ new) \<and> sends ds n (length dd + length dw) s s'"
proof (induction m arbitrary: dd dw rest s)
  case 0
  have len: "length (window s) = length dw" using gbn_window_length [OF "0.prems"(1)] .
  then have un: "\<forall>a \<in> set (window s). \<not> acked_at s a" using "0.prems"(3) by (auto simp: in_set_conv_nth)
  have "gbn_advance_window s = Inr s"
  proof (cases "window s")
    case (Cons a as)
    then have a: "a \<in> set (window s)" by simp
    then have "\<not> acked_at s a" using un by blast
    then show ?thesis using Cons gbn_live [OF "0.prems"(1) a]
      by (subst gbn_advance_window.simps) (auto simp: packet_at_def deref_def acked_at_def)
  qed (simp add: gbn_advance_window.simps)
  then show ?case using "0.prems" un by simp
next
  case (Suc m)
  obtain d dw' where dw: "dw = d # dw'" using Suc.prems(2) by (cases dw) auto
  have len: "length (window s) = length dw" using gbn_window_length [OF Suc.prems(1)] .
  then obtain a as where w: "window s = a # as" using dw by (cases "window s") auto
  have "acked_at s a" using Suc.prems(3) w dw by force
  then obtain p where p: "packet_at a s = Inr p" "acked p"
    using gbn_live [OF Suc.prems(1), of a] w by (auto simp: packet_at_def deref_def acked_at_def)
  let ?s0 = "s\<lparr>window := as\<rparr>"
  have c0: "gbn_core ds n (dd @ [d]) dw' rest ?s0" using gbn_pop_core [OF _ w] Suc.prems(1) dw by simp
  have la: "length as = length dw'" using len w dw by simp
  have ak: "acked_at s (as ! j) \<longleftrightarrow> j < m" if "j < length dw'" for j
    using Suc.prems(3) [rule_format, of "Suc j"] that w dw by simp
  show ?case
  proof (cases rest)
    case Nil
    then have "\<not> has_next (pkt_builder s)"
      using builder_has_next Suc.prems(1) unfolding gbn_core_def gbn_layout_def by blast
    then have step: "gbn_advance_window s = gbn_advance_window ?s0"
      using w p by (subst gbn_advance_window.simps) simp
    have "\<exists>s'. gbn_advance_window ?s0 = Inr s' \<and>
        gbn_core ds n ((dd @ [d]) @ take m dw') (drop m dw' @ take m rest) (drop m rest) s' \<and>
        (\<forall>a \<in> set (window s'). \<not> acked_at s' a) \<and>
        gbn_posted ds n (length (dd @ [d]) + length dw' + length (take m rest)) (sent s') \<and>
        (\<exists>new. window s' = drop m (window ?s0) @ new) \<and>
        sends ds n (length (dd @ [d]) + length dw') ?s0 s'"
      by (rule Suc.IH [OF c0]) (use Suc.prems dw ak in \<open>simp_all add: acked_at_def\<close>)
    then show ?thesis using step Nil dw w by (simp add: sends_def)
  next
    case (Cons e rest')
    have hn: "has_next (pkt_builder s)"
      using builder_has_next Suc.prems(1) Cons unfolding gbn_core_def gbn_layout_def by blast
    obtain b s1 s2 out where n: "next_packet ?s0 = Inr (b, s1)"
      "gbn_send_packet b (s1\<lparr>window := window s1 @ [b]\<rparr>) = Inr s2"
      "gbn_core ds n (dd @ [d]) (dw' @ [e]) rest' s2" "window s2 = as @ [b]" "\<not> acked_at s2 b"
      "\<forall>c \<in> set as. acked_at s2 c = acked_at s c" "sent s2 = sent s @ out"
      "out = [] \<or> out = [gbn_wire ds n (length (dd @ [d]) + length dw')]"
      using gbn_push_core [of ds n "dd @ [d]" dw' e rest' ?s0] c0 Cons by (auto simp: acked_at_def)
    have step: "gbn_advance_window s = gbn_advance_window s2"
      using w p hn n(1,2) by (subst gbn_advance_window.simps) simp
    have ak2: "\<forall>j < length (dw' @ [e]). acked_at s2 (window s2 ! j) \<longleftrightarrow> j < m"
    proof (intro allI impI)
      fix j
      assume "j < length (dw' @ [e])"
      then have "j < length dw' \<or> j = length dw'" by auto
      then show "acked_at s2 (window s2 ! j) \<longleftrightarrow> j < m"
        using n(4-6) ak [of j] la Suc.prems(2) dw by (auto simp: nth_append)
    qed
    have posted: "gbn_posted ds n (length (dd @ [d]) + length (dw' @ [e])) (sent s2)"
      using gbn_posted_snoc [OF Suc.prems(4), of out] n(7,8) dw by simp
    have "\<exists>s'. gbn_advance_window s2 = Inr s' \<and>
        gbn_core ds n ((dd @ [d]) @ take m (dw' @ [e])) (drop m (dw' @ [e]) @ take m rest') (drop m rest') s' \<and>
        (\<forall>a \<in> set (window s'). \<not> acked_at s' a) \<and>
        gbn_posted ds n (length (dd @ [d]) + length (dw' @ [e]) + length (take m rest')) (sent s') \<and>
        (\<exists>new. window s' = drop m (window s2) @ new) \<and>
        sends ds n (length (dd @ [d]) + length (dw' @ [e])) s2 s'"
      by (rule Suc.IH [OF n(3) _ ak2 posted]) (use Suc.prems(2) dw in simp)
    moreover have "sends ds n (length dd + length dw) s s'"
      if "sends ds n (length (dd @ [d]) + length (dw' @ [e])) s2 s'" for s'
    proof (rule sends_trans [OF _ that])
      have "length (dd @ [d]) + length dw' < length ds" using gbn_bound(1) [OF n(3)] by simp
      then show "sends ds n (length dd + length dw) s s2"
        using n(7,8) dw by (auto simp: sends_def intro: exI [of _ "length (dd @ [d]) + length dw'"])
    qed (use dw in simp)
    moreover have "m \<le> length dw'" "m \<le> length as" using Suc.prems(2) dw la by simp_all
    ultimately show ?thesis using step Cons dw w n(4) by (auto simp: add.assoc)
  qed
qed

section \<open>Cumulative acknowledgements\<close>

text \<open>The loop runs with the mutex locked.\<close>

lemma gbn_mark_core:
  assumes core: "gbn_core ds n dd dw rest (s\<lparr>set_mutex := False\<rparr>)" and a: "a \<in> set (window s)"
  shows "\<exists>s1 s2. set_packet a (set_ack True) s = Inr s1 \<and> erase_unacked a s1 = Inr s2 \<and>
    gbn_core ds n dd dw rest (s2\<lparr>set_mutex := False\<rparr>) \<and> window s2 = window s \<and> sent s2 = sent s \<and>
    (\<forall>b. acked_at s2 b \<longleftrightarrow> b = a \<or> acked_at s b)"
proof -
  have a': "a \<in> set (window (s\<lparr>set_mutex := False\<rparr>))" using a by simp
  obtain p where p: "cells (mem s) a = Some p" using gbn_live [OF core a'] by auto
  let ?s1 = "s\<lparr>mem := (mem s)\<lparr>cells := (cells (mem s))(a \<mapsto> set_ack True p)\<rparr>\<rparr>"
  let ?s2 = "?s1\<lparr>unacked_packets := set_erase (time_comparator (cells (mem ?s1))) a (unacked_packets s)\<rparr>"
  have "all_live (unacked_packets s) s" using gbn_unacked_live [OF core] by (simp add: all_live_def)
  then have "all_live (a # unacked_packets ?s1) ?s1" using p by (auto simp: all_live_def)
  then have "erase_unacked a ?s1 = Inr ?s2" by (simp add: erase_unacked_def)
  moreover have "gbn_core ds n dd dw rest (?s2\<lparr>set_mutex := False\<rparr>)"
    by (rule gbn_core_update [OF core _ gbn_window_not_queued [OF core a'], where f = "set_ack True" and p = p])
       (use p core gbn_timed_subset [OF _ set_erase_subset] in \<open>simp_all add: gbn_core_def\<close>)
  moreover have "acked_at ?s2 b \<longleftrightarrow> b = a \<or> acked_at s b" for b
    by (simp add: acked_at_def set_ack_def)
  ultimately show ?thesis using set_packet_eq [OF p] by (intro exI [of _ ?s1] exI [of _ ?s2]) simp
qed

lemma gbn_ack_back_core:
  "gbn_core ds n dd dw rest (s\<lparr>set_mutex := False\<rparr>) \<Longrightarrow> set as \<subseteq> set (window s) \<Longrightarrow>
   \<exists>s'. gbn_ack_back False as s = Inr s' \<and> gbn_core ds n dd dw rest (s'\<lparr>set_mutex := False\<rparr>) \<and>
     window s' = window s \<and> sent s' = sent s \<and> (\<forall>b. acked_at s' b \<longleftrightarrow> b \<in> set as \<or> acked_at s b)"
proof (induction as arbitrary: s)
  case (Cons a as)
  then have "a \<in> set (window s)" by simp
  from gbn_mark_core [OF Cons.prems(1) this] obtain s1 s2 where s2: "set_packet a (set_ack True) s = Inr s1"
    "erase_unacked a s1 = Inr s2" "gbn_core ds n dd dw rest (s2\<lparr>set_mutex := False\<rparr>)"
    "window s2 = window s" "sent s2 = sent s" "\<forall>b. acked_at s2 b \<longleftrightarrow> b = a \<or> acked_at s b" by blast
  from Cons.IH [OF s2(3)] Cons.prems(2) s2(4) obtain s' where
    "gbn_ack_back False as s2 = Inr s'" "gbn_core ds n dd dw rest (s'\<lparr>set_mutex := False\<rparr>)"
    "window s' = window s2" "sent s' = sent s2" "\<forall>b. acked_at s' b \<longleftrightarrow> b \<in> set as \<or> acked_at s2 b" by auto
  then show ?case using s2 by (intro exI [of _ s']) auto
qed simp

lemma gbn_ack_back_strict:
  "gbn_core ds n dd dw rest (s\<lparr>set_mutex := False\<rparr>) \<Longrightarrow> set as \<subseteq> set (window s) \<Longrightarrow>
   gbn_ack_back True as s = Inl Invalid_Iterator"
proof (induction as arbitrary: s)
  case (Cons a as)
  then have "a \<in> set (window s)" by simp
  from gbn_mark_core [OF Cons.prems(1) this] obtain s1 s2 where "set_packet a (set_ack True) s = Inr s1"
    "erase_unacked a s1 = Inr s2" "gbn_core ds n dd dw rest (s2\<lparr>set_mutex := False\<rparr>)"
    "window s2 = window s" by blast
  with Cons.IH [of s2] Cons.prems(2) show ?case by simp
qed simp

text \<open>The search, in a window of consecutive numbers.\<close>

lemma find_seqno_at:
  "i < length as \<Longrightarrow> \<forall>j \<le> i. \<exists>p. packet_at (as ! j) s = Inr p \<and> (seqno p = x \<longleftrightarrow> j = i) \<Longrightarrow>
   find_seqno x k as s = Inr (Some (k + i, as ! i))"
proof (induction as arbitrary: i k)
  case (Cons a as)
  obtain p where p: "packet_at a s = Inr p" "seqno p = x \<longleftrightarrow> i = 0"
    using Cons.prems(2) [rule_format, of 0] by auto
  show ?case
  proof (cases i)
    case (Suc i')
    have "find_seqno x (Suc k) as s = Inr (Some (Suc k + i', as ! i'))"
      by (rule Cons.IH) (use Cons.prems Suc in \<open>force+\<close>)
    then show ?thesis using p Suc by simp
  qed (use p in simp)
qed simp

lemma gbn_find:
  assumes core: "gbn_core ds n dd dw rest s" and i: "i < length dw"
  shows "find_seqno (of_nat (n + length dd + i)) 0 (window s) s = Inr (Some (i, window s ! i))"
proof -
  note bound = gbn_bound [OF core]
  have "\<exists>p. packet_at (window s ! j) s = Inr p \<and> (seqno p = of_nat (n + length dd + i) \<longleftrightarrow> j = i)" if "j \<le> i" for j
  proof -
    have "j < length dw" using that i by simp
    then obtain q where "cells (mem s) (window s ! j) = Some q" "seqno q = of_nat (n + length dd + j)"
      using gbn_cell [OF core] by metis
    moreover have "(of_nat (n + length dd + j) :: 32 word) = of_nat (n + length dd + i) \<longleftrightarrow> j = i"
      using bound that i by (subst of_nat_32_inj) auto
    ultimately show ?thesis by (simp add: packet_at_def deref_def del: of_nat_add)
  qed
  then show ?thesis
    using find_seqno_at [of i "window s" s "of_nat (n + length dd + i)" 0] gbn_window_length [OF core] i by simp
qed

lemma gbn_acknowledge_running:
  assumes run: "gbn_running ds n dd dw rest s" and i: "i < length dw"
    and no: "ackno a = of_nat (n + length dd + i)"
  shows "\<exists>s'. gbn_acknowledge_packet False a s = Inr s' \<and>
    gbn_running ds n (dd @ take (Suc i) dw) (drop (Suc i) dw @ take (Suc i) rest) (drop (Suc i) rest) s' \<and>
    (\<exists>new. window s' = drop (Suc i) (window s) @ new) \<and> sends ds n (length dd + length dw) s s'"
proof -
  have core: "gbn_core ds n dd dw rest s" and un: "\<forall>b \<in> set (window s). \<not> acked_at s b"
    and po: "gbn_posted ds n (length dd + length dw) (sent s)"
    and full: "rest = [] \<or> length dw = nat DEFAULT_WINDOW_SIZE"
    using run by (simp_all add: gbn_running_def)
  have sm: "\<not> set_mutex s" using core by (simp add: gbn_core_def)
  have len: "length (window s) = length dw" using gbn_window_length [OF core] .
  let ?as = "rev (take (Suc i) (window s))"
  have "gbn_core ds n dd dw rest (s\<lparr>set_mutex := True, set_mutex := False\<rparr>)"
    using core set_mutex_False [OF sm] by simp
  then obtain s1 where s1: "gbn_ack_back False ?as (s\<lparr>set_mutex := True\<rparr>) = Inr s1"
    "gbn_core ds n dd dw rest (s1\<lparr>set_mutex := False\<rparr>)" "window s1 = window s" "sent s1 = sent s"
    "\<forall>b. acked_at s1 b \<longleftrightarrow> b \<in> set ?as \<or> acked_at (s\<lparr>set_mutex := True\<rparr>) b"
    using gbn_ack_back_core [of ds n dd dw rest "s\<lparr>set_mutex := True\<rparr>" ?as] set_take_subset by fastforce
  have dist: "distinct (window s)" using core by (simp add: gbn_core_def gbn_layout_def)
  let ?u = "s1\<lparr>set_mutex := False\<rparr>"
  have "\<forall>j < length dw. acked_at ?u (window ?u ! j) \<longleftrightarrow> j < Suc i"
  proof (intro allI impI)
    fix j
    assume j: "j < length dw"
    have "window s ! j \<in> set (take (Suc i) (window s)) \<longleftrightarrow> j < Suc i"
      using dist j len i by (auto simp: in_set_conv_nth nth_eq_iff_index_eq)
    moreover have "\<not> acked_at s (window s ! j)" using un j len by simp
    ultimately show "acked_at ?u (window ?u ! j) \<longleftrightarrow> j < Suc i" using s1(3,5) by (simp add: acked_at_def)
  qed
  from gbn_advance_core [OF s1(2) _ this] i po s1(4) obtain s' new where
    adv: "gbn_advance_window ?u = Inr s'"
    "gbn_core ds n (dd @ take (Suc i) dw) (drop (Suc i) dw @ take (Suc i) rest) (drop (Suc i) rest) s'"
    "\<forall>b \<in> set (window s'). \<not> acked_at s' b"
    "gbn_posted ds n (length dd + length dw + length (take (Suc i) rest)) (sent s')"
    "window s' = drop (Suc i) (window s1) @ new" "sends ds n (length dd + length dw) ?u s'" by auto
  have "gbn_acknowledge_packet False a s = Inr s'"
    using gbn_find [OF core i] no sm s1(1) adv(1)
    by (simp add: gbn_acknowledge_packet_def gbn_ack_found_def lock_set_mutex_def unlock_set_mutex_def)
  moreover have full': "drop (Suc i) rest = [] \<or>
      length (drop (Suc i) dw @ take (Suc i) rest) = nat DEFAULT_WINDOW_SIZE"
    using full i by (cases "length rest \<le> Suc i") auto
  moreover have "length (dd @ take (Suc i) dw) + length (drop (Suc i) dw @ take (Suc i) rest)
      = length dd + length dw + length (take (Suc i) rest)" using i by simp
  ultimately have "gbn_running ds n (dd @ take (Suc i) dw) (drop (Suc i) dw @ take (Suc i) rest)
      (drop (Suc i) rest) s'"
    unfolding gbn_running_def using adv(2-4) by metis
  then show ?thesis using adv(5,6) s1(3,4) sends_def \<open>gbn_acknowledge_packet False a s = Inr s'\<close> by auto
qed

text \<open>An acknowledgement of nothing in the window changes nothing.\<close>

lemma find_seqno_None_iff:
  "\<forall>a \<in> set as. \<exists>p. packet_at a s = Inr p \<and> seqno p \<noteq> x \<Longrightarrow> find_seqno x k as s = Inr None"
  by (induction as arbitrary: k) auto

lemma gbn_acknowledge_other:
  assumes core: "gbn_core ds n dd dw rest s"
    and no: "\<forall>i < length dw. ackno a \<noteq> of_nat (n + length dd + i)"
  shows "gbn_acknowledge_packet strict a s = Inr s"
proof -
  have "\<exists>p. packet_at b s = Inr p \<and> seqno p \<noteq> ackno a" if b: "b \<in> set (window s)" for b
  proof -
    obtain i where i: "i < length dw" "b = window s ! i"
      using b gbn_window_length [OF core] by (auto simp: in_set_conv_nth)
    obtain q where "cells (mem s) b = Some q" "seqno q = of_nat (n + length dd + i)"
      using gbn_cell [OF core i(1)] i(2) by metis
    then show ?thesis using no i(1) by (auto simp: packet_at_def deref_def)
  qed
  then show ?thesis by (simp add: gbn_acknowledge_packet_def find_seqno_None_iff)
qed

lemma gbn_acknowledge_strict:
  assumes core: "gbn_core ds n dd dw rest s" and i: "i < length dw"
    and no: "ackno a = of_nat (n + length dd + i)"
  shows "gbn_acknowledge_packet True a s = Inl Invalid_Iterator"
proof -
  have sm: "\<not> set_mutex s" using core by (simp add: gbn_core_def)
  have "gbn_core ds n dd dw rest (s\<lparr>set_mutex := True, set_mutex := False\<rparr>)"
    using core set_mutex_False [OF sm] by simp
  then have "gbn_ack_back True (rev (take (Suc i) (window s))) (s\<lparr>set_mutex := True\<rparr>) = Inl Invalid_Iterator"
    using set_take_subset by (intro gbn_ack_back_strict) fastforce+
  then show ?thesis using gbn_find [OF core i] no sm
    by (simp add: gbn_acknowledge_packet_def gbn_ack_found_def lock_set_mutex_def)
qed

section \<open>The timer thread\<close>

text \<open>A packet of the timer's set has a number below those still with the builder.\<close>

lemma gbn_timed_not_queued:
  assumes core: "gbn_core ds n dd dw rest s" and a: "gbn_timed ds n (length dd + length dw) [a] (mem s)"
  shows "a \<notin> set (packets_read_queue (pkt_builder s))"
proof
  let ?q = "packets_read_queue (pkt_builder s)" and ?k = "length dd + length dw"
  assume "a \<in> set ?q"
  then obtain j where j: "j < length ?q" "a = ?q ! j" by (auto simp: in_set_conv_nth)
  obtain dq where dq: "run (mem s) (n + ?k) ?q dq" "rest = dq @ chunks (unread (pkt_builder s))"
    using core by (auto simp: gbn_core_def gbn_layout_def builder_ok_def add.assoc)
  obtain p where p: "cells (mem s) a = Some p" "seqno p = of_nat (n + ?k + j)"
    using run_cell [OF dq(1) j(1)] j(2) by metis
  obtain i where i: "i < ?k" "holds (mem s) a (n + i) (ds ! i)" using a by (auto simp: gbn_timed_def)
  then have "seqno p = of_nat (n + i)" using p(1) by (auto simp: holds_def)
  moreover have "n + ?k + j < 2 ^ 32"
    using gbn_bound [OF core] run_length [OF dq(1)] j(1) dq(2) by simp
  ultimately show False using p(2) i(1) by (simp add: of_nat_32_inj del: of_nat_add)
qed

lemma gbn_core_clear:
  assumes "gbn_core ds n dd dw rest s"
  shows "gbn_core ds n dd dw rest (s\<lparr>unacked_packets := []\<rparr>)"
proof -
  have "gbn_layout ds n dd dw rest (s\<lparr>unacked_packets := []\<rparr>) = gbn_layout ds n dd dw rest s"
    by (simp add: gbn_layout_def)
  then show ?thesis using assms by (simp add: gbn_core_def gbn_timed_def)
qed

text \<open>Stamping a packet of the set and giving it to the link.\<close>

lemma gbn_timed_update:
  assumes core: "gbn_core ds n dd dw rest s" and a: "gbn_timed ds n (length dd + length dw) [a] (mem s)"
    and p: "cells (mem s) a = Some p" and f: "flag_update f"
    and s': "mem s' = (mem s)\<lparr>cells := (cells (mem s))(a \<mapsto> f p)\<rparr>" "window s' = window s"
      "pkt_builder s' = pkt_builder s" "next_seq_number s' = next_seq_number s" "sender_ok (sender s')"
      "set_mutex s' = set_mutex s" "unacked_packets s' = unacked_packets s"
  shows "gbn_core ds n dd dw rest s'"
proof (rule gbn_core_update [OF core f gbn_timed_not_queued [OF core a] p s'(1-5)])
  show "\<not> set_mutex s'" using core s'(6) by (simp add: gbn_core_def)
  show "gbn_timed ds n (length dd + length dw) (unacked_packets s') (mem s)"
    using core s'(7) by (simp add: gbn_core_def)
qed

lemma gbn_holds_pack:
  assumes "payloads_ok ds" "i < length ds" "holds st a (n + i) (ds ! i)"
  obtains p where "cells st a = Some p" "pack p = Inr (gbn_wire ds n i)"
proof -
  obtain f t where c: "cells st a = Some ((mk_packet (ds ! i) (of_nat (n + i)))\<lparr>acked := f, time_stamp := t\<rparr>)"
    using assms(3) by (auto simp: holds_def)
  have "length (ds ! i) \<le> 500" using assms(1,2) by (simp add: payloads_ok_def)
  then show ?thesis
    by (intro that [OF c]) (simp add: pack_flags pack_mk_packet gbn_wire_def del: of_nat_add)
qed

lemma gbn_link_core:
  assumes core: "gbn_core ds n dd dw rest (s\<lparr>set_mutex := False\<rparr>)"
    and a: "gbn_timed ds n (length dd + length dw) [a] (mem s)"
    and s': "gbn_link_send a s = Inr s'"
  shows "gbn_core ds n dd dw rest (s'\<lparr>set_mutex := False\<rparr>)" "acked_at s' = acked_at s"
    "window s' = window s" "set_mutex s' = set_mutex s"
    "\<exists>i < length dd + length dw. set (sent s') \<subseteq> insert (gbn_wire ds n i) (set (sent s))"
    "set (sent s) \<subseteq> set (sent s')"
proof -
  obtain i where i: "i < length dd + length dw" "i < length ds" "holds (mem s) a (n + i) (ds ! i)"
    using a by (auto simp: gbn_timed_def)
  have "payloads_ok ds" using core by (simp add: gbn_core_def)
  from gbn_holds_pack [OF this i(2,3)] obtain q where q: "cells (mem s) a = Some q" "pack q = Inr (gbn_wire ds n i)" .
  have "sender_ok (sender s)" using core by (simp add: gbn_core_def)
  from send_packet_ok [OF this q(2)] obtain dup out ps where
    sp: "send_packet q (sender s) = Inr (dup, out, ps)" and ps: "sender_ok ps" and
    out: "out = None \<or> out = Some (gbn_wire ds n i)" by blast
  let ?o = "case out of None \<Rightarrow> [] | Some d \<Rightarrow> [d]" and ?f = "set_time_stamp (clock s (ticks s))"
  have e: "s' = s\<lparr>sender := ps, sent := sent s @ ?o, ticks := Suc (ticks s),
      mem := (mem s)\<lparr>cells := (cells (mem s))(a \<mapsto> ?f q)\<rparr>\<rparr>"
    using s' q sp by (simp add: gbn_link_send_def packet_at_def deref_def now_def set_packet_def update_def Let_def)
  show "gbn_core ds n dd dw rest (s'\<lparr>set_mutex := False\<rparr>)"
    by (rule gbn_timed_update [OF core, where a = a and f = ?f and p = q]) (use a q ps e in simp_all)
  show "acked_at s' = acked_at s" using q by (auto simp: e acked_at_def fun_eq_iff set_time_stamp_def)
  show "window s' = window s" "set_mutex s' = set_mutex s" "set (sent s) \<subseteq> set (sent s')" by (simp_all add: e)
  show "\<exists>i < length dd + length dw. set (sent s') \<subseteq> insert (gbn_wire ds n i) (set (sent s))"
    using i(1) out by (intro exI [of _ i]) (auto simp: e)
qed

section \<open>Construction and start\<close>

lemma gbn_fill_core:
  "gbn_core ds n dd dw rest s \<Longrightarrow> \<forall>a \<in> set (window s). \<not> acked_at s a \<Longrightarrow>
   window_size s = DEFAULT_WINDOW_SIZE \<Longrightarrow> length dw \<le> nat DEFAULT_WINDOW_SIZE \<Longrightarrow>
   \<exists>s' dw' rest'. fill_window s = Inr s' \<and> gbn_core ds n dd dw' rest' s' \<and>
     (\<forall>a \<in> set (window s'). \<not> acked_at s' a) \<and> sent s' = sent s \<and>
     (rest' = [] \<or> length dw' = nat DEFAULT_WINDOW_SIZE)"
proof (induction rest arbitrary: dw s)
  case Nil
  then have "\<not> has_next (pkt_builder s)"
    using builder_has_next unfolding gbn_core_def gbn_layout_def by blast
  then have "fill_window s = Inr s" by (subst fill_window.simps) simp
  then show ?case using Nil.prems by blast
next
  case (Cons d rest)
  have wo: "window_open s \<longleftrightarrow> length dw < nat DEFAULT_WINDOW_SIZE"
    using gbn_window_length [OF Cons.prems(1)] Cons.prems(3)
    by (simp add: window_open_def DEFAULT_WINDOW_SIZE_def)
  show ?case
  proof (cases "window_open s")
    case False
    then have "fill_window s = Inr s" by (subst fill_window.simps) simp
    moreover have "length dw = nat DEFAULT_WINDOW_SIZE" using False wo Cons.prems(4) by simp
    ultimately show ?thesis using Cons.prems by blast
  next
    case True
    have hn: "has_next (pkt_builder s)"
      using builder_has_next Cons.prems(1) unfolding gbn_core_def gbn_layout_def by blast
    obtain a s1 where n: "next_packet s = Inr (a, s1)"
      "gbn_core ds n dd (dw @ [d]) rest (s1\<lparr>window := window s1 @ [a]\<rparr>)" "\<not> acked_at s1 a"
      "\<forall>b \<in> set (window s). acked_at s1 b = acked_at s b" "window s1 = window s" "sent s1 = sent s"
      "window_size s1 = window_size s"
      using gbn_next_core [OF Cons.prems(1)] by blast
    let ?w = "s1\<lparr>window := window s1 @ [a]\<rparr>"
    have "\<exists>s' dw' rest'. fill_window ?w = Inr s' \<and> gbn_core ds n dd dw' rest' s' \<and>
        (\<forall>a \<in> set (window s'). \<not> acked_at s' a) \<and> sent s' = sent ?w \<and>
        (rest' = [] \<or> length dw' = nat DEFAULT_WINDOW_SIZE)"
      by (rule Cons.IH [OF n(2)]) (use n Cons.prems True wo in \<open>auto simp: acked_at_def\<close>)
    moreover have "fill_window s = fill_window ?w" using True hn n(1) by (subst fill_window.simps) simp
    ultimately show ?thesis using n(6) by simp
  qed
qed

lemma gbn_stamp_core:
  assumes core: "gbn_core ds n dd dw rest s" and a: "a \<in> set (window s)"
  shows "\<exists>s'. gbn_stamp a s = Inr s' \<and> gbn_core ds n dd dw rest s' \<and> acked_at s' = acked_at s \<and>
    window s' = window s \<and> sent s' = sent s"
proof -
  obtain p where p: "cells (mem s) a = Some p" using gbn_live [OF core a] by auto
  let ?f = "set_time_stamp (clock s (ticks s))"
  let ?s = "s\<lparr>ticks := Suc (ticks s), mem := (mem s)\<lparr>cells := (cells (mem s))(a \<mapsto> ?f p)\<rparr>\<rparr>"
  have "gbn_stamp a s = Inr ?s" using p by (simp add: gbn_stamp_def now_def set_packet_def update_def deref_def)
  moreover have "gbn_core ds n dd dw rest ?s"
    by (rule gbn_core_update [OF core _ gbn_window_not_queued [OF core a] p, where f = ?f]) (use core in \<open>simp_all add: gbn_core_def\<close>)
  moreover have "acked_at ?s = acked_at s" using p by (auto simp: acked_at_def fun_eq_iff set_time_stamp_def)
  ultimately show ?thesis by (intro exI [of _ ?s]) simp
qed

lemma gbn_start_loop_core:
  "gbn_core ds n dd dw rest s \<Longrightarrow> window s = ws @ as \<Longrightarrow> gbn_posted ds n (length dd + length ws) (sent s) \<Longrightarrow>
   \<exists>s'. gbn_start_loop first as s = Inr s' \<and> gbn_core ds n dd dw rest s' \<and> acked_at s' = acked_at s \<and>
     window s' = window s \<and> gbn_posted ds n (length dd + length dw) (sent s')"
proof (induction as arbitrary: s ws first)
  case Nil
  then show ?case using gbn_window_length [OF Nil.prems(1)] by simp
next
  case (Cons a as)
  have j: "length ws < length dw" "a = window s ! length ws"
    using gbn_window_length [OF Cons.prems(1)] Cons.prems(2) by (simp_all add: nth_append)
  obtain s1 out where s1: "gbn_send_packet a s = Inr s1" "gbn_core ds n dd dw rest s1" "acked_at s1 = acked_at s"
    "window s1 = window s" "sent s1 = sent s @ out" "out = [] \<or> out = [gbn_wire ds n (length dd + length ws)]"
    using gbn_send_core [OF Cons.prems(1) j] by blast
  obtain s2 where s2: "gbn_stamp a s1 = Inr s2" "gbn_core ds n dd dw rest s2" "acked_at s2 = acked_at s1"
    "window s2 = window s1" "sent s2 = sent s1"
    using gbn_stamp_core [OF s1(2), of a] Cons.prems(2) s1(4) by auto
  let ?t = "if first then s2\<lparr>timer := True\<rparr> else s2"
  have "gbn_core ds n dd dw rest ?t = gbn_core ds n dd dw rest s2" by (rule gbn_core_cong) simp_all
  then have c: "gbn_core ds n dd dw rest ?t" using s2(2) by simp
  have f: "acked_at ?t = acked_at s2" "window ?t = window s2" "sent ?t = sent s2"
    by (simp_all add: acked_at_def [abs_def])
  have "gbn_posted ds n (length dd + length (ws @ [a])) (sent ?t)"
    using gbn_posted_snoc [OF Cons.prems(3) s1(6)] s1(5) s2(5) f by simp
  then obtain s' where "gbn_start_loop False as ?t = Inr s'" "gbn_core ds n dd dw rest s'"
    "acked_at s' = acked_at ?t" "window s' = window ?t" "gbn_posted ds n (length dd + length dw) (sent s')"
    using Cons.IH [OF c, of "ws @ [a]"] Cons.prems(2) s1(4) s2(4) f by auto
  then show ?case using s1 s2 f by (intro exI [of _ s']) simp
qed

lemma gbn_initial_running:
  assumes u: "usable cwd fs name 1 link" and f: "fs (c_str (cwd @ [47] @ name)) = Some contents"
    and n: "n + length (chunks contents) < 2 ^ 32"
  shows "\<exists>s dw rest. rbind (new_go_back_N (of_nat n) mx thr cwd fs name link clk) gbn_start = Inr s \<and>
    gbn_running (chunks contents) n [] dw rest s"
proof -
  let ?ds = "chunks contents"
  have pay: "payloads_ok ?ds"
    using u f chunks_bounds [of _ contents] by (auto simp: payloads_ok_def usable_def)
  obtain b where b: "new_packet_builder cwd fs name DEFAULT_WINDOW_SIZE = Inr b" "packets_read_queue b = []"
    "builder_ok empty_store n b ?ds"
    using new_packet_builder_ok [of cwd fs name contents DEFAULT_WINDOW_SIZE n] u f
    by (auto simp: usable_def DEFAULT_WINDOW_SIZE_def)
  let ?s = "base_strategy b link clk (of_nat n) DEFAULT_WINDOW_SIZE mx thr"
  have "gbn_core ?ds n [] [] ?ds ?s"
    using b u pay n
    by (simp add: gbn_core_def gbn_layout_def base_strategy_def gbn_timed_def usable_def)
  then obtain s1 dw rest where s1: "fill_window ?s = Inr s1" "gbn_core ?ds n [] dw rest s1"
    "\<forall>a \<in> set (window s1). \<not> acked_at s1 a" "sent s1 = sent ?s" "rest = [] \<or> length dw = nat DEFAULT_WINDOW_SIZE"
    using gbn_fill_core [of ?ds n "[]" "[]" ?ds ?s] by (auto simp: base_strategy_def)
  have "gbn_posted ?ds n 0 (sent s1)" using s1(4) by (simp add: gbn_posted_def base_strategy_def)
  then obtain s' where "gbn_start s1 = Inr s'" "gbn_core ?ds n [] dw rest s'" "acked_at s' = acked_at s1"
    "window s' = window s1" "gbn_posted ?ds n (length dw) (sent s')"
    using gbn_start_loop_core [OF s1(2), of "[]" "window s1" True] by (auto simp: gbn_start_def)
  then show ?thesis using s1 b(1)
    by (intro exI [of _ s'] exI [of _ dw] exI [of _ rest]) (simp add: new_go_back_N_def gbn_running_def)
qed

text \<open>Another user of the link does not matter to the sender.\<close>

lemma gbn_core_link: "gbn_core ds n dd dw rest s \<Longrightarrow> sender_ok link \<Longrightarrow> gbn_core ds n dd dw rest (s\<lparr>sender := link\<rparr>)"
  unfolding gbn_core_def gbn_layout_def by auto

lemma gbn_running_link:
  "gbn_running ds n dd dw rest s \<Longrightarrow> sender_ok link \<Longrightarrow> gbn_running ds n dd dw rest (s\<lparr>sender := link\<rparr>)"
  by (simp add: gbn_running_def gbn_core_link acked_at_def)

end
