(* ===== verification/Client_Go_Back_N_Inv.thy ===== *)
theory Client_Go_Back_N_Inv
  imports Client_Inv
begin

text \<open>The invariant of the go-back-N client, whose packets are numbered from 0.\<close>

section \<open>The handler without the wire\<close>

lemma receive_succeeds: "length buf < 2 ^ 63 \<Longrightarrow>
  succeeds (data_packet_of_buffer buf (int (length buf))) \<longleftrightarrow> 8 \<le> length buf"
  using unpack_short [of buf blank_data_packet] unpack_long [of buf blank_data_packet]
  by (cases "length buf < 8") (auto simp: data_packet_of_all)

text \<open>The handler on a datagram that can be read, without the wire.\<close>

definition gbn_accept :: "data_packet \<Rightarrow> bool \<Rightarrow> client_strategy \<Rightarrow> client_strategy" where
  "gbn_accept p intact c =
     (if expected_seqno c \<le> seqno p \<and> seqno p < expected_seqno c + word_of_int (cl_window_size c) then
        if data p = [] then c\<lparr>cl_done := True\<rparr>
        else if seqno p = expected_seqno c \<and> intact
        then (gbn_deliver_packet p c)
          \<lparr>cl_sent := cl_sent (gbn_deliver_packet p c) @ [ack_wire (seqno p)]\<rparr>
        else c\<lparr>cl_sent := cl_sent c @ [ack_wire (expected_seqno c - 1)]\<rparr>
      else c)"

definition readable :: "byte list \<Rightarrow> data_packet \<Rightarrow> bool" where
  "readable x p \<longleftrightarrow>
     data_packet_of_buffer (take MAX_PKT_SIZE x) (int (length (take MAX_PKT_SIZE x))) = Inr p"

lemma readable_long: "readable x p \<Longrightarrow> 8 \<le> length x"
  using receive_succeeds [of "take MAX_PKT_SIZE x"] by (auto simp: readable_def MAX_PKT_SIZE_def)

lemma readable_wire: "length d \<le> 500 \<Longrightarrow> readable (wire d n) (mk_packet d n)"
  using receive_wire [of d n] by (simp add: readable_def MAX_PKT_SIZE_def)

lemma gbn_run_readable:
  assumes "readable x p"
  shows "gbn_client_run (Some x) c = Inr (gbn_accept p (calculate_checksum p = Inr (cksum p)) c)"
  using assms readable_long [OF assms]
  by (auto simp: gbn_client_run_def recvfrom_def readable_def gbn_accept_def is_terminal_pkt_def
      calculate_checksum_eq Let_def MAX_PKT_SIZE_def)

lemma intact_mk_packet: "calculate_checksum (mk_packet d n) = Inr (cksum (mk_packet d n))"
  by (simp add: calculate_checksum_eq)

lemma gbn_run_wire:
  "length d \<le> 500 \<Longrightarrow> gbn_client_run (Some (wire d n)) c = Inr (gbn_accept (mk_packet d n) True c)"
  using gbn_run_readable [OF readable_wire] intact_mk_packet by simp

text \<open>A sequence of datagrams.\<close>

fun gbn_receive :: "byte list list \<Rightarrow> client_strategy \<Rightarrow> client_strategy res" where
  "gbn_receive [] c = Inr c"
| "gbn_receive (x # xs) c = rbind (gbn_client_run (Some x) c) (gbn_receive xs)"

text \<open>The datagrams of a file numbered from 0, and damaged ones whose payload is not empty.\<close>

definition gbn_traffic :: "byte list list \<Rightarrow> byte list \<Rightarrow> bool" where
  "gbn_traffic ds x \<longleftrightarrow>
     (\<exists>i < length ds. x = wire (ds ! i) (of_nat i)) \<or>
     (\<exists>p. readable x p \<and> data p \<noteq> [] \<and> calculate_checksum p \<noteq> Inr (cksum p))"

definition gbn_inv :: "byte list list \<Rightarrow> nat \<Rightarrow> client_strategy \<Rightarrow> bool" where
  "gbn_inv ds e c \<longleftrightarrow>
     payloads_ok ds \<and> e \<le> length ds \<and> expected_seqno c = of_nat e \<and> writing c \<and> file_data c = [] \<and>
     cl_output c = concat (take e ds) \<and> \<not> cl_done c \<and>
     (\<forall>x \<in> set (cl_sent c). \<exists>k \<le> e. x = ack_wire (of_nat k - 1))"

lemma gbn_deliver:
  assumes inv: "gbn_inv ds e c" and e: "e < length ds"
  shows "gbn_inv ds (Suc e) ((gbn_deliver_packet (mk_packet (ds ! e) (of_nat e)) c)
    \<lparr>cl_sent := cl_sent (gbn_deliver_packet (mk_packet (ds ! e) (of_nat e)) c) @ [ack_wire (of_nat e)]\<rparr>)"
proof -
  let ?p = "mk_packet (ds ! e) (of_nat e)"
  let ?c = "gbn_deliver_packet ?p c"
  have out: "cl_output ?c = cl_output c @ ds ! e"
  proof -
    have "cl_output ?c = cl_output (c\<lparr>writer := fw_write (file_data c @ ds ! e) (writer c)\<rparr>)"
      by (rule cl_output_cong) (simp add: gbn_deliver_packet_def Let_def)
    then show ?thesis using inv by (simp add: gbn_inv_def cl_output_write)
  qed
  have w: "writing ?c" using inv fw_write_open [of "writer c"]
    by (simp add: gbn_inv_def writing_def gbn_deliver_packet_def Let_def)
  have f: "expected_seqno ?c = of_nat (Suc e)" "file_data ?c = []" "cl_sent ?c = cl_sent c"
    "cl_done ?c = cl_done c"
    using inv by (simp_all add: gbn_deliver_packet_def gbn_inv_def Let_def add.commute)
  have "\<exists>k \<le> Suc e. ack_wire (of_nat e) = ack_wire (of_nat k - 1)"
    by (rule exI [of _ "Suc e"]) simp
  moreover have "\<exists>k \<le> Suc e. x = ack_wire (of_nat k - 1)" if "x \<in> set (cl_sent c)" for x
    using inv that by (meson gbn_inv_def le_SucI)
  ultimately show ?thesis
    using inv e out w f by (auto simp: gbn_inv_def take_Suc_conv_app_nth)
qed

lemma traffic_packet:
  assumes "payloads_ok ds" "gbn_traffic ds x"
  shows "\<exists>p. readable x p \<and> data p \<noteq> [] \<and>
    (calculate_checksum p = Inr (cksum p) \<longrightarrow> (\<exists>i < length ds. p = mk_packet (ds ! i) (of_nat i)))"
  using assms(2) unfolding gbn_traffic_def
proof
  assume "\<exists>i < length ds. x = wire (ds ! i) (of_nat i)"
  then obtain i where i: "i < length ds" "x = wire (ds ! i) (of_nat i)" by blast
  then have "ds ! i \<noteq> []" "length (ds ! i) \<le> 500" using assms(1) by (simp_all add: payloads_ok_def)
  with i show ?thesis
    by (intro exI [of _ "mk_packet (ds ! i) (of_nat i)"]) (auto simp: readable_wire)
qed blast

lemma gbn_step:
  assumes inv: "gbn_inv ds e c" and x: "gbn_traffic ds x"
  shows "\<exists>e' \<ge> e. \<exists>c'. gbn_client_run (Some x) c = Inr c' \<and> gbn_inv ds e' c'"
proof -
  obtain p where p: "readable x p" "data p \<noteq> []" and
    ok: "calculate_checksum p = Inr (cksum p) \<Longrightarrow> \<exists>i < length ds. p = mk_packet (ds ! i) (of_nat i)"
    using traffic_packet [OF _ x] inv unfolding gbn_inv_def by blast
  let ?ok = "calculate_checksum p = Inr (cksum p)"
  have ack: "gbn_inv ds e (c\<lparr>cl_sent := cl_sent c @ [ack_wire (expected_seqno c - 1)]\<rparr>)"
    using inv by (auto simp: gbn_inv_def)
  have "\<exists>e' \<ge> e. gbn_inv ds e' (gbn_accept p ?ok c)"
  proof (cases "seqno p = expected_seqno c \<and> ?ok")
    case True
    then obtain i where i: "i < length ds" "p = mk_packet (ds ! i) (of_nat i)" using ok by blast
    have "(of_nat i :: 32 word) = of_nat e" using True i(2) inv by (simp add: gbn_inv_def)
    then have "i = e" using i(1) inv
      by (subst (asm) of_nat_32_inj) (auto simp: gbn_inv_def payloads_ok_def)
    then have "gbn_inv ds (Suc e) ((gbn_deliver_packet p c)
        \<lparr>cl_sent := cl_sent (gbn_deliver_packet p c) @ [ack_wire (seqno p)]\<rparr>)"
      using gbn_deliver [OF inv] i by simp
    then show ?thesis using inv p(2) True
      by (cases "expected_seqno c < expected_seqno c + word_of_int (cl_window_size c)")
         (auto simp: gbn_accept_def intro: exI [of _ e] exI [of _ "Suc e"])
  next
    case False
    then show ?thesis using inv p(2) ack by (auto simp: gbn_accept_def)
  qed
  then show ?thesis using gbn_run_readable [OF p(1)] by blast
qed

lemma gbn_receive_inv:
  "gbn_inv ds e c \<Longrightarrow> \<forall>x \<in> set xs. gbn_traffic ds x \<Longrightarrow>
   \<exists>e' c'. gbn_receive xs c = Inr c' \<and> gbn_inv ds e' c'"
proof (induction xs arbitrary: c e)
  case (Cons x xs)
  then show ?case using gbn_step [OF Cons.prems(1), of x] by fastforce
qed auto

lemma gbn_initial:
  "payloads_ok ds \<Longrightarrow> file_stream w = None \<Longrightarrow>
   gbn_inv ds 0 (new_client_go_back_N n (fw_open True name w))"
  by (simp add: gbn_inv_def new_client_go_back_N_def fw_open_def writing_def cl_output_def)

end
