(* ===== verification/Go_Back_N_Transfer.thy ===== *)
theory Go_Back_N_Transfer
  imports Go_Back_N_Inv Client_Go_Back_N_Inv Progress
begin

text \<open>
  The session of \<open>Session\<close> with go-back-N on both sides, over a network that loses, delays,
  duplicates and reorders datagrams but damages none, with the usual iterators (\<open>strict\<close> is
  false), and with the sender's first sequence number equal to the client's, 0.
\<close>

section \<open>The system\<close>

definition gbn_start_server ::
    "nat \<Rightarrow> path \<Rightarrow> (path \<rightharpoonup> byte list) \<Rightarrow> path \<Rightarrow> packet_sender \<Rightarrow> (nat \<Rightarrow> nat) \<Rightarrow> int \<Rightarrow> int \<Rightarrow>
     rdt_strategy res" where
  "gbn_start_server n cwd fs name link clk mx thr =
     rbind (new_go_back_N (of_nat n) mx thr cwd fs name link clk) gbn_start"

definition gbn_transfer_start :: "byte list \<Rightarrow> packet_sender \<Rightarrow> int \<Rightarrow> gbn_timer_pc transfer \<Rightarrow> bool" where
  "gbn_transfer_start contents link client_window t \<longleftrightarrow>
     (\<exists>cwd fs name clk mx thr.
        usable cwd fs name 1 link \<and> fs (c_str (cwd @ [47] @ name)) = Some contents \<and>
        gbn_start_server 0 cwd fs name link clk mx thr = Inr (server t)) \<and>
     timer_at t = G_Loop \<and> \<not> over t \<and>
     (\<exists>w output_name. file_stream w = None \<and>
        client t = new_client_go_back_N client_window (fw_open True output_name w))"

definition gbn_transfer_step :: "gbn_timer_pc transfer \<Rightarrow> gbn_timer_pc transfer \<Rightarrow> bool" where
  "gbn_transfer_step =
     session_step gbn_client_run (\<lambda>_. False) (gbn_acknowledge_packet False) gbn_timer_step (\<lambda>_. False)"

definition gbn_transfer_reachable :: "byte list \<Rightarrow> packet_sender \<Rightarrow> int \<Rightarrow> gbn_timer_pc transfer \<Rightarrow> bool" where
  "gbn_transfer_reachable contents link n t \<longleftrightarrow>
     reachable (gbn_transfer_start contents link n) gbn_transfer_step t"

section \<open>The invariant\<close>

text \<open>
  The server, whose timer thread may hold the mutex of the set and a list of packets to send.
\<close>

fun gbn_holds_mutex :: "gbn_timer_pc \<Rightarrow> bool" where
  "gbn_holds_mutex (G_Send as temp) = True"
| "gbn_holds_mutex (G_Insert a as temp) = True"
| "gbn_holds_mutex pc = False"

fun gbn_pending :: "gbn_timer_pc \<Rightarrow> ptr list" where
  "gbn_pending (G_Send as temp) = as"
| "gbn_pending pc = []"

definition gbn_threads ::
    "byte list list \<Rightarrow> byte list list \<Rightarrow> byte list list \<Rightarrow> byte list list \<Rightarrow> gbn_timer_pc \<Rightarrow>
     rdt_strategy \<Rightarrow> bool" where
  "gbn_threads ds dd dw rest pc s \<longleftrightarrow>
     gbn_core ds 0 dd dw rest (s\<lparr>set_mutex := False\<rparr>) \<and> (set_mutex s \<longleftrightarrow> gbn_holds_mutex pc) \<and>
     gbn_timed ds 0 (length dd + length dw) (gbn_pending pc) (mem s) \<and>
     (\<forall>as temp. pc = G_Send as temp \<longrightarrow> temp = [])"

definition gbn_server ::
    "byte list list \<Rightarrow> byte list list \<Rightarrow> byte list list \<Rightarrow> byte list list \<Rightarrow> gbn_timer_pc \<Rightarrow>
     rdt_strategy \<Rightarrow> bool" where
  "gbn_server ds dd dw rest pc s \<longleftrightarrow>
     gbn_threads ds dd dw rest pc s \<and> gbn_running ds 0 dd dw rest (s\<lparr>set_mutex := False\<rparr>)"

text \<open>
  While it runs, what the client has written has been sent, and the server has popped no packet
  that the client has not written.
\<close>

definition gbn_alive :: "byte list list \<Rightarrow> nat \<Rightarrow> nat \<Rightarrow> gbn_timer_pc transfer \<Rightarrow> bool" where
  "gbn_alive ds e k t \<longleftrightarrow>
     gbn_inv ds e (client t) \<and> (\<forall>j < e. wire (ds ! j) (of_nat j) \<in> set (sent (server t))) \<and>
     (\<exists>dd dw rest. gbn_server ds dd dw rest (timer_at t) (server t) \<and> length dd \<le> e \<and>
        k = length dd + length dw)"

lemma gbn_aliveI:
  "gbn_inv ds e (client t) \<Longrightarrow> \<forall>j < e. wire (ds ! j) (of_nat j) \<in> set (sent (server t)) \<Longrightarrow>
   gbn_server ds dd dw rest (timer_at t) (server t) \<Longrightarrow> length dd \<le> e \<Longrightarrow>
   gbn_alive ds e (length dd + length dw) t"
  unfolding gbn_alive_def by blast

lemma gbn_aliveE:
  assumes "gbn_alive ds e k t"
  obtains dd dw rest where "gbn_inv ds e (client t)"
    "\<forall>j < e. wire (ds ! j) (of_nat j) \<in> set (sent (server t))"
    "gbn_server ds dd dw rest (timer_at t) (server t)" "length dd \<le> e" "k = length dd + length dw"
  using assms unfolding gbn_alive_def by blast

lemma gbn_server_core: "gbn_server ds dd dw rest pc s \<Longrightarrow> gbn_core ds 0 dd dw rest (s\<lparr>set_mutex := False\<rparr>)"
  by (simp add: gbn_server_def gbn_running_def)

lemma gbn_server_free:
  "gbn_server ds dd dw rest pc s \<Longrightarrow> \<not> set_mutex s \<Longrightarrow> gbn_running ds 0 dd dw rest s"
  by (simp add: gbn_server_def set_mutex_False)

lemma gbn_server_update:
  assumes "gbn_server ds dd dw rest pc s" "gbn_running ds 0 dd' dw' rest' s'" "\<not> set_mutex s"
  shows "gbn_server ds dd' dw' rest' pc s'"
proof -
  have "\<not> set_mutex s'" using assms(2) by (simp add: gbn_running_def gbn_core_def)
  moreover have "\<not> gbn_holds_mutex pc" using assms(1,3) by (simp add: gbn_server_def gbn_threads_def)
  moreover from this have "gbn_pending pc = []" "\<forall>as temp. pc \<noteq> G_Send as temp" by (cases pc; simp)+
  ultimately show ?thesis using assms(2)
    by (simp add: gbn_server_def gbn_threads_def gbn_running_def gbn_timed_def set_mutex_False)
qed

text \<open>What a packet of the file does at the client.\<close>

lemma gbn_run_packet:
  assumes inv: "gbn_inv ds e c" and j: "j < length ds"
    and r: "gbn_client_run (Some (wire (ds ! j) (of_nat j))) c = Inr c'"
  shows "gbn_inv ds e c' \<or> (j = e \<and> gbn_inv ds (Suc e) c')"
proof -
  have p: "ds ! j \<noteq> []" "length (ds ! j) \<le> 500" "length ds < 2 ^ 32"
    using inv j by (auto simp: gbn_inv_def payloads_ok_def)
  have "e \<le> length ds" using inv by (simp add: gbn_inv_def)
  then have n: "(of_nat j :: 32 word) = of_nat e \<longleftrightarrow> j = e" using j p(3) by (subst of_nat_32_inj) auto
  have c': "c' = gbn_accept (mk_packet (ds ! j) (of_nat j)) True c"
    using gbn_run_wire [OF p(2), of "of_nat j" c] r by simp
  have ack: "gbn_inv ds e (c\<lparr>cl_sent := cl_sent c @ [ack_wire (expected_seqno c - 1)]\<rparr>)"
    using inv by (auto simp: gbn_inv_def)
  show ?thesis
  proof (cases "j = e")
    case True
    then show ?thesis using gbn_deliver [OF inv] j inv p(1) c' by (auto simp: gbn_accept_def gbn_inv_def)
  next
    case False
    then show ?thesis using inv n p(1) c' ack by (auto simp: gbn_accept_def gbn_inv_def)
  qed
qed

definition gbn_over :: "byte list list \<Rightarrow> gbn_timer_pc transfer \<Rightarrow> bool" where
  "gbn_over ds t \<longleftrightarrow>
     gbn_inv ds (length ds) ((client t)\<lparr>cl_done := False\<rparr>) \<and>
     gbn_threads ds ds [] [] (timer_at t) (server t) \<and>
     (\<forall>x \<in> set (sent (server t)). gbn_traffic ds x \<or> x = wire [] (of_nat (length ds)))"

definition gbn_session_inv :: "byte list list \<Rightarrow> gbn_timer_pc transfer \<Rightarrow> bool" where
  "gbn_session_inv ds t \<longleftrightarrow> (if over t then gbn_over ds t else \<exists>e k. gbn_alive ds e k t)"

lemma gbn_alive_traffic:
  assumes "gbn_alive ds e k t" "x \<in> set (sent (server t))"
  shows "\<exists>i < k. i < length ds \<and> x = wire (ds ! i) (of_nat i)"
proof -
  obtain dd dw rest where s: "gbn_server ds dd dw rest (timer_at t) (server t)" and k: "k = length dd + length dw"
    by (rule gbn_aliveE [OF assms(1)])
  have "gbn_posted ds 0 k (sent (server t))" using s k by (simp add: gbn_server_def gbn_running_def)
  then have "x \<in> gbn_wire ds 0 ` {..<k}" using assms(2) by (auto simp: gbn_posted_def)
  moreover have "k \<le> length ds" using gbn_bound(1) [OF gbn_server_core [OF s]] k by simp
  ultimately show ?thesis by (force simp: gbn_wire_def)
qed

text \<open>The timer thread sends at most one packet, and then waits for the mutex it holds.\<close>

lemma gbn_stamp_timed:
  assumes core: "gbn_core ds n dd dw rest (s\<lparr>set_mutex := False\<rparr>)"
    and a: "gbn_timed ds n (length dd + length dw) [a] (mem s)" and s': "gbn_stamp a s = Inr s'"
  shows "gbn_core ds n dd dw rest (s'\<lparr>set_mutex := False\<rparr>)" "acked_at s' = acked_at s"
    "window s' = window s" "set_mutex s' = set_mutex s" "sent s' = sent s"
    "gbn_timed ds n (length dd + length dw) [a] (mem s')"
proof -
  obtain p where p: "cells (mem s) a = Some p" using a by (auto simp: gbn_timed_def holds_def)
  let ?f = "set_time_stamp (clock s (ticks s))"
  have e: "s' = s\<lparr>ticks := Suc (ticks s), mem := (mem s)\<lparr>cells := (cells (mem s))(a \<mapsto> ?f p)\<rparr>\<rparr>"
    using s' p by (simp add: gbn_stamp_def now_def set_packet_def update_def deref_def)
  show "gbn_core ds n dd dw rest (s'\<lparr>set_mutex := False\<rparr>)"
    by (rule gbn_timed_update [OF core, where a = a and f = ?f and p = p])
       (use a p e core in \<open>simp_all add: gbn_core_def\<close>)
  show "acked_at s' = acked_at s" using p by (auto simp: e acked_at_def fun_eq_iff set_time_stamp_def)
  show "window s' = window s" "set_mutex s' = set_mutex s" "sent s' = sent s" by (simp_all add: e)
  have "flag_update ?f" by simp
  from holds_update [OF this p] show "gbn_timed ds n (length dd + length dw) [a] (mem s')"
    using a unfolding gbn_timed_def e by auto
qed

lemma gbn_timer_threads:
  assumes th: "gbn_threads ds dd dw rest pc s" and st: "gbn_timer_step pc s = Inr (pc', s')"
  shows "gbn_threads ds dd dw rest pc' s' \<and> acked_at s' = acked_at s \<and> window s' = window s \<and>
    set (sent s) \<subseteq> set (sent s') \<and>
    (set (sent s') = set (sent s) \<or>
     (\<exists>a as temp. pc' = G_Insert a as temp) \<and>
     (\<exists>i < length dd + length dw. set (sent s') \<subseteq> insert (gbn_wire ds 0 i) (set (sent s))))"
proof -
  let ?k = "length dd + length dw"
  have core: "gbn_core ds 0 dd dw rest (s\<lparr>set_mutex := False\<rparr>)" and m: "set_mutex s = gbn_holds_mutex pc"
    using th by (simp_all add: gbn_threads_def)
  show ?thesis
  proof (cases pc)
    case G_Loop
    then have "s' = s" "\<exists>a. pc' = G_Compare a" using st by (auto simp: rbind_Inr_iff timer_first_Inr)
    then show ?thesis using th G_Loop by (auto simp: gbn_threads_def)
  next
    case (G_Compare a)
    then have s': "s' = s\<lparr>ticks := Suc (ticks s)\<rparr>" "pc' = G_Resend \<or> pc' = G_Loop"
      using st by (auto simp: timer_expired_def now_def Let_def rbind_Inr_iff split: if_splits)
    have "gbn_core ds 0 dd dw rest (s'\<lparr>set_mutex := False\<rparr>)"
      using core gbn_core_cong [of "s'\<lparr>set_mutex := False\<rparr>" "s\<lparr>set_mutex := False\<rparr>"] s'(1) by simp
    then show ?thesis using th s' G_Compare by (auto simp: gbn_threads_def gbn_timed_def acked_at_def)
  next
    case G_Resend
    then have "s' = s\<lparr>set_mutex := True\<rparr>" "pc' = G_Send (unacked_packets s) []"
      using st by (auto simp: lock_set_mutex_def rbind_Inr_iff split: if_splits)
    then show ?thesis using core by (simp add: gbn_threads_def gbn_core_def acked_at_def [abs_def])
  next
    case (G_Insert a as temp)
    then show ?thesis using st m by (simp add: locked_insert_unacked_def lock_set_mutex_def)
  next
    case (G_Send as temp)
    then have temp: "temp = []" and tm: "gbn_timed ds 0 ?k as (mem s)" using th by (auto simp: gbn_threads_def)
    show ?thesis
    proof (cases as)
      case Nil
      then have s': "s' = s\<lparr>set_mutex := False, unacked_packets := []\<rparr>" "pc' = G_Loop"
        using st G_Send temp by (auto simp: unlock_set_mutex_def)
      have "gbn_core ds 0 dd dw rest s' =
          gbn_core ds 0 dd dw rest (s\<lparr>set_mutex := False\<rparr>\<lparr>unacked_packets := []\<rparr>)"
        by (rule gbn_core_cong) (simp_all add: s')
      then have "gbn_core ds 0 dd dw rest s'" using gbn_core_clear [OF core] by simp
      moreover have "\<not> set_mutex s'" "acked_at s' = acked_at s" "window s' = window s" "sent s' = sent s"
        by (simp_all add: s' acked_at_def [abs_def])
      ultimately show ?thesis using s'(2) by (simp add: gbn_threads_def gbn_timed_def set_mutex_False)
    next
      case (Cons a as')
      then obtain s1 where s1: "gbn_stamp a s = Inr s1" "gbn_link_send a s1 = Inr s'" and pc': "pc' = G_Insert a as' temp"
        using st G_Send by (auto simp: rbind_Inr_iff)
      have ta: "gbn_timed ds 0 ?k [a] (mem s)" using tm Cons by (simp add: gbn_timed_def)
      note c1 = gbn_stamp_timed [OF core ta s1(1)]
      note c2 = gbn_link_core [OF c1(1) c1(6) s1(2)]
      have "gbn_threads ds dd dw rest pc' s'"
        using c2(1,4) c1(4) m G_Send pc' by (simp add: gbn_threads_def gbn_timed_def)
      then show ?thesis using c1(2,3,5) c2(2,3,5,6) pc' by simp
    qed
  qed
qed

lemma gbn_timer_server:
  assumes sv: "gbn_server ds dd dw rest pc s" and st: "gbn_timer_step pc s = Inr (pc', s')"
  shows "gbn_server ds dd dw rest pc' s'"
proof -
  have th: "gbn_threads ds dd dw rest pc s" and run: "gbn_running ds 0 dd dw rest (s\<lparr>set_mutex := False\<rparr>)"
    using sv by (simp_all add: gbn_server_def)
  note f = gbn_timer_threads [OF th st]
  have "gbn_posted ds 0 (length dd + length dw) (sent s)" using run by (simp add: gbn_running_def)
  then have "gbn_posted ds 0 (length dd + length dw) (sent s')" using f by (auto simp: gbn_posted_def)
  then have "gbn_running ds 0 dd dw rest (s'\<lparr>set_mutex := False\<rparr>)"
    using f run by (simp add: gbn_running_def gbn_threads_def acked_at_def [abs_def])
  then show ?thesis using f by (simp add: gbn_server_def)
qed

text \<open>With the mutex held, an acknowledgement of a packet of the window waits; others do nothing.\<close>

lemma gbn_acknowledge_locked: "set_mutex s \<Longrightarrow> gbn_acknowledge_packet strict a s = Inr s' \<Longrightarrow> s' = s"
  by (auto simp: gbn_acknowledge_packet_def gbn_ack_found_def lock_set_mutex_def rbind_Inr_iff split: option.splits)

text \<open>An acknowledgement of the client, at the server.\<close>

lemma gbn_ack_step:
  assumes alive: "gbn_alive ds e k t" and x: "x \<in> set (cl_sent (client t))" and free: "\<not> set_mutex (server t)"
  shows "\<exists>s' k'. handle_ack (gbn_acknowledge_packet False) (x @ old) (server t) = Inr s' \<and>
    gbn_alive ds e k' (t\<lparr>server := s'\<rparr>) \<and> k \<le> k' \<and> sends ds 0 k (server t) s'"
proof -
  from alive obtain dd dw rest where ci: "gbn_inv ds e (client t)" and
    wr: "\<forall>j < e. wire (ds ! j) (of_nat j) \<in> set (sent (server t))" and
    sv: "gbn_server ds dd dw rest (timer_at t) (server t)" and dd: "length dd \<le> e" and
    k: "k = length dd + length dw"
    by (elim gbn_aliveE)
  from ci x obtain j where j: "j \<le> e" "x = ack_wire (of_nat j - 1)" by (auto simp: gbn_inv_def)
  then have h: "handle_ack (gbn_acknowledge_packet False) (x @ old) (server t)
      = gbn_acknowledge_packet False (mk_ack (of_nat j - 1)) (server t)"
    by (simp add: handle_ack_def)
  have run: "gbn_running ds 0 dd dw rest (server t)" by (rule gbn_server_free [OF sv free])
  then have core: "gbn_core ds 0 dd dw rest (server t)" by (simp add: gbn_running_def)
  note b = gbn_bound [OF core]
  have eb: "e \<le> length ds" "length ds < 2 ^ 32 - 1" using ci by (auto simp: gbn_inv_def payloads_ok_def)
  show ?thesis
  proof (cases "length dd < j \<and> j - 1 - length dd < length dw")
    case True
    let ?i = "j - 1 - length dd"
    have no: "ackno (mk_ack (of_nat j - 1)) = of_nat (0 + length dd + ?i)" using True by (cases j) simp_all
    obtain s' where s': "gbn_acknowledge_packet False (mk_ack (of_nat j - 1)) (server t) = Inr s'"
      "gbn_running ds 0 (dd @ take (Suc ?i) dw) (drop (Suc ?i) dw @ take (Suc ?i) rest) (drop (Suc ?i) rest) s'"
      "sends ds 0 (length dd + length dw) (server t) s'"
      using gbn_acknowledge_running [OF run _ no] True by blast
    let ?k = "length (dd @ take (Suc ?i) dw) + length (drop (Suc ?i) dw @ take (Suc ?i) rest)"
    have "length (dd @ take (Suc ?i) dw) \<le> e" using True j(1) by simp
    then have "gbn_alive ds e ?k (t\<lparr>server := s'\<rparr>)"
      by (intro gbn_aliveI) (use s'(3) gbn_server_update [OF sv s'(2) free] ci wr in \<open>auto simp: sends_def\<close>)
    moreover have "k \<le> ?k" using True k by simp
    ultimately show ?thesis using h s'(1,3) k by (intro exI [of _ s'] exI [of _ ?k]) simp
  next
    case False
    have "\<forall>i < length dw. ackno (mk_ack (of_nat j - 1)) \<noteq> of_nat (0 + length dd + i)"
    proof (intro allI impI)
      fix i
      assume i: "i < length dw"
      show "ackno (mk_ack (of_nat j - 1)) \<noteq> of_nat (0 + length dd + i)"
      proof
        assume "ackno (mk_ack (of_nat j - 1)) = of_nat (0 + length dd + i)"
        then have "(of_nat j :: 32 word) = of_nat (Suc (length dd + i))" by (simp add: algebra_simps)
        then have "j = Suc (length dd + i)"
          using j(1) eb b i by (subst (asm) of_nat_32_inj) auto
        with False i show False by simp
      qed
    qed
    from gbn_acknowledge_other [OF core this] show ?thesis
      using h alive by (intro exI [of _ "server t"] exI [of _ k]) simp
  qed
qed

lemma gbn_end_step:
  assumes alive: "gbn_alive ds e k t" and d: "fst (is_done (server t))" and f: "finish (server t) = Inr s"
  shows "e = length ds" "gbn_over ds (t\<lparr>server := s, over := True\<rparr>)"
proof -
  let ?s = "(server t)\<lparr>set_mutex := False\<rparr>"
  from alive obtain dd dw rest where ci: "gbn_inv ds e (client t)" and
    sv: "gbn_server ds dd dw rest (timer_at t) (server t)" and dd: "length dd \<le> e"
    by (elim gbn_aliveE)
  then have run: "gbn_running ds 0 dd dw rest ?s" by (simp add: gbn_server_def)
  then have core: "gbn_core ds 0 dd dw rest ?s" by (simp add: gbn_running_def)
  have w: "window (server t) = []" using d by (simp add: is_done_def split: if_splits)
  then have dw: "dw = []" using gbn_window_length [OF core] by simp
  then have rest: "rest = []" using run by (auto simp: gbn_running_def DEFAULT_WINDOW_SIZE_def)
  then have l: "length dd = length ds" using gbn_bound(1) [OF core] dw by simp
  have "e \<le> length ds" using ci by (simp add: gbn_inv_def)
  then show e: "e = length ds" using l dd by simp
  have "\<not> has_next (pkt_builder ?s)"
    using builder_has_next core rest unfolding gbn_core_def gbn_layout_def by blast
  then have nx: "next_seq_number (server t) = of_nat (length ds)"
    using core dw l by (simp add: gbn_core_def gbn_layout_def has_next_def)
  obtain m v where s: "s = (server t)\<lparr>ticks := m, stats := v, sent := sent (server t) @ [wire [] (of_nat (length ds))]\<rparr>"
    using f nx w by (auto simp: finish_def send_empty_packet_def pack_mk_packet is_done_def now_def Let_def)
  have "gbn_core ds 0 dd dw rest (s\<lparr>set_mutex := False\<rparr>) = gbn_core ds 0 dd dw rest ?s"
    by (rule gbn_core_cong) (simp_all add: s)
  moreover have "ds = dd" using core dw rest by (simp add: gbn_core_def gbn_layout_def)
  ultimately have "gbn_threads ds ds [] [] (timer_at t) s"
    using sv dw rest by (simp add: gbn_server_def gbn_threads_def s)
  moreover have "gbn_traffic ds x" if "x \<in> set (sent (server t))" for x
    using gbn_alive_traffic [OF alive that] by (auto simp: gbn_traffic_def)
  moreover have "(client t)\<lparr>cl_done := False\<rparr> = client t" using ci by (cases "client t") (simp add: gbn_inv_def)
  ultimately show "gbn_over ds (t\<lparr>server := s, over := True\<rparr>)" using ci e s by (auto simp: gbn_over_def)
qed

lemma gbn_over_data:
  assumes ov: "gbn_over ds t" and nd: "\<not> cl_done (client t)" and x: "x \<in> set (sent (server t))"
    and r: "gbn_client_run (Some x) (client t) = Inr c"
  shows "gbn_over ds (t\<lparr>client := c\<rparr>)"
proof -
  have cd: "(client t)\<lparr>cl_done := False\<rparr> = client t" using nd by (cases "client t") simp
  then have ci: "gbn_inv ds (length ds) (client t)" using ov by (simp add: gbn_over_def)
  have "gbn_traffic ds x \<or> x = wire [] (of_nat (length ds))" using ov x by (simp add: gbn_over_def)
  then have "gbn_inv ds (length ds) (c\<lparr>cl_done := False\<rparr>)"
  proof
    assume "gbn_traffic ds x"
    from gbn_step [OF ci this] r obtain e' where "length ds \<le> e'" "gbn_inv ds e' c" by auto
    moreover from this have "e' = length ds" by (simp add: gbn_inv_def)
    moreover have "c\<lparr>cl_done := False\<rparr> = c" using \<open>gbn_inv ds e' c\<close> by (cases c) (simp add: gbn_inv_def)
    ultimately show ?thesis by simp
  next
    assume "x = wire [] (of_nat (length ds))"
    then have "c = client t \<or> c = (client t)\<lparr>cl_done := True\<rparr>"
      using r gbn_run_wire [of "[]" "of_nat (length ds)" "client t"] by (auto simp: gbn_accept_def split: if_splits)
    then show ?thesis using ci cd by (auto simp: gbn_inv_def)
  qed
  then show ?thesis using ov by (simp add: gbn_over_def)
qed

lemma gbn_alive_data:
  assumes "gbn_alive ds e k t" "wire (ds ! j) (of_nat j) \<in> set (sent (server t))"
    and "gbn_inv ds e c \<or> j = e \<and> gbn_inv ds (Suc e) c"
  shows "\<exists>e'. gbn_alive ds e' k (t\<lparr>client := c\<rparr>) \<and> (e' = e \<or> e' = Suc e \<and> j = e)"
  using assms(3)
proof
  assume "gbn_inv ds e c"
  then have "gbn_alive ds e k (t\<lparr>client := c\<rparr>)"
    using assms(1) by (elim gbn_aliveE, hypsubst) (intro gbn_aliveI; simp)
  then show ?thesis by blast
next
  assume c: "j = e \<and> gbn_inv ds (Suc e) c"
  then have "gbn_alive ds (Suc e) k (t\<lparr>client := c\<rparr>)"
    using assms(1,2) by (elim gbn_aliveE, hypsubst) (intro gbn_aliveI; auto simp: less_Suc_eq)
  with c show ?thesis by blast
qed

lemma gbn_alive_timer:
  assumes "gbn_alive ds e k t" "gbn_timer_step (timer_at t) (server t) = Inr (pc, s)"
  shows "gbn_alive ds e k (t\<lparr>timer_at := pc, server := s\<rparr>)"
proof -
  obtain dd dw rest where a: "gbn_inv ds e (client t)"
    "\<forall>j < e. wire (ds ! j) (of_nat j) \<in> set (sent (server t))"
    "gbn_server ds dd dw rest (timer_at t) (server t)" "length dd \<le> e" "k = length dd + length dw"
    by (rule gbn_aliveE [OF assms(1)])
  have "gbn_threads ds dd dw rest (timer_at t) (server t)" using a(3) by (simp add: gbn_server_def)
  note f = gbn_timer_threads [OF this assms(2)]
  show ?thesis unfolding a(5)
    by (rule gbn_aliveI) (use a gbn_timer_server [OF a(3) assms(2)] f in auto)
qed

lemma sender_set_mutex:
  "s\<lparr>sender := link, set_mutex := b\<rparr> = s\<lparr>set_mutex := b, sender := link\<rparr>"
  by simp

lemma gbn_threads_link:
  assumes "gbn_threads ds dd dw rest pc s" "sender_ok link"
  shows "gbn_threads ds dd dw rest pc (s\<lparr>sender := link\<rparr>)"
proof -
  have "gbn_core ds 0 dd dw rest (s\<lparr>set_mutex := False\<rparr>\<lparr>sender := link\<rparr>)"
    using assms by (intro gbn_core_link) (simp_all add: gbn_threads_def)
  then show ?thesis using assms(1) by (simp add: gbn_threads_def sender_set_mutex)
qed

lemma gbn_alive_link:
  assumes al: "gbn_alive ds e k t" and l: "sender_ok link"
  shows "gbn_alive ds e k (t\<lparr>server := (server t)\<lparr>sender := link\<rparr>\<rparr>)"
proof -
  obtain dd dw rest where a: "gbn_inv ds e (client t)"
    "\<forall>j < e. wire (ds ! j) (of_nat j) \<in> set (sent (server t))"
    "gbn_server ds dd dw rest (timer_at t) (server t)" "length dd \<le> e" "k = length dd + length dw"
    by (rule gbn_aliveE [OF al])
  have "gbn_running ds 0 dd dw rest ((server t)\<lparr>set_mutex := False\<rparr>\<lparr>sender := link\<rparr>)"
    using a(3) l by (intro gbn_running_link) (simp_all add: gbn_server_def)
  then have "gbn_server ds dd dw rest (timer_at t) ((server t)\<lparr>sender := link\<rparr>)"
    using a(3) gbn_threads_link l by (simp add: gbn_server_def sender_set_mutex)
  then show ?thesis using a unfolding a(5) by (intro gbn_aliveI) simp_all
qed

lemma gbn_session_step_inv:
  assumes inv: "gbn_session_inv ds t" and st: "gbn_transfer_step t t'"
  shows "gbn_session_inv ds t'"
  using st unfolding gbn_transfer_step_def
proof (cases rule: session_step.cases)
  case (deliver_data x c)
  show ?thesis
  proof (cases "over t")
    case True
    then show ?thesis using gbn_over_data [of ds t x c] inv deliver_data by (simp add: gbn_session_inv_def)
  next
    case False
    then obtain e k where al: "gbn_alive ds e k t" using inv by (auto simp: gbn_session_inv_def)
    then obtain j where j: "j < length ds" "x = wire (ds ! j) (of_nat j)"
      using gbn_alive_traffic [OF al, of x] deliver_data by auto
    have "gbn_inv ds e (client t)" using al by (simp add: gbn_alive_def)
    from gbn_run_packet [OF this j(1)] deliver_data j(2) have "gbn_inv ds e c \<or> j = e \<and> gbn_inv ds (Suc e) c"
      by simp
    then obtain e' where "gbn_alive ds e' k (t\<lparr>client := c\<rparr>)"
      using al gbn_alive_data deliver_data j(2) by blast
    then show ?thesis using False deliver_data by (auto simp: gbn_session_inv_def)
  qed
next
  case (deliver_ack buffer s)
  then obtain e k where al: "gbn_alive ds e k t" using inv by (auto simp: gbn_session_inv_def)
  from deliver_ack obtain x old where x: "x \<in> set (cl_sent (client t))" "buffer = x @ old" by blast
  show ?thesis
  proof (cases "set_mutex (server t)")
    case True
    then have "s = server t" using deliver_ack(5) gbn_acknowledge_locked
      by (auto simp: handle_ack_def rbind_Inr_iff)
    then show ?thesis using inv deliver_ack(1) by simp
  next
    case False
    from gbn_ack_step [OF al x(1) False, of old] deliver_ack x(2) show ?thesis by (auto simp: gbn_session_inv_def)
  qed
next
  case (timer_thread pc s)
  show ?thesis
  proof (cases "over t")
    case True
    then have ov: "gbn_over ds t" using inv by (simp add: gbn_session_inv_def)
    then have "gbn_threads ds ds [] [] (timer_at t) (server t)" by (simp add: gbn_over_def)
    note f = gbn_timer_threads [OF this timer_thread(2)]
    have "gbn_traffic ds x \<or> x = wire [] (of_nat (length ds))" if "x \<in> set (sent s)" for x
    proof -
      have "x \<in> set (sent (server t)) \<or> (\<exists>i < length ds. x = gbn_wire ds 0 i)" using f that by auto
      then show ?thesis using ov by (auto simp: gbn_over_def gbn_traffic_def gbn_wire_def)
    qed
    then show ?thesis using True timer_thread(1) ov f by (simp add: gbn_session_inv_def gbn_over_def)
  next
    case False
    then obtain e k where al: "gbn_alive ds e k t" using inv by (auto simp: gbn_session_inv_def)
    from gbn_alive_timer [OF al timer_thread(2)] show ?thesis
      using False timer_thread(1) by (auto simp: gbn_session_inv_def)
  qed
next
  case (link_used link)
  show ?thesis
  proof (cases "over t")
    case True
    then show ?thesis using inv link_used gbn_threads_link by (simp add: gbn_session_inv_def gbn_over_def)
  next
    case False
    then obtain e k where "gbn_alive ds e k t" using inv by (auto simp: gbn_session_inv_def)
    from gbn_alive_link [OF this link_used(2)] False link_used(1) show ?thesis by (auto simp: gbn_session_inv_def)
  qed
next
  case (end_of_file s)
  then obtain e k where "gbn_alive ds e k t" using inv by (auto simp: gbn_session_inv_def)
  from gbn_end_step(2) [OF this] end_of_file show ?thesis by (simp add: gbn_session_inv_def)
qed

lemma gbn_transfer_start_alive:
  assumes "gbn_transfer_start contents link n t"
  shows "\<exists>k. gbn_alive (chunks contents) 0 k t" "\<not> over t"
proof -
  from assms obtain cwd fs name clk mx thr w out where
    u: "usable cwd fs name 1 link" and f: "fs (c_str (cwd @ [47] @ name)) = Some contents" and
    s: "gbn_start_server 0 cwd fs name link clk mx thr = Inr (server t)" and
    c: "file_stream w = None" "client t = new_client_go_back_N n (fw_open True out w)"
    by (auto simp: gbn_transfer_start_def)
  have pay: "payloads_ok (chunks contents)" by (rule usable_payloads_ok [where fs = fs, OF u f])
  then have "0 + length (chunks contents) < 2 ^ 32" by (simp add: payloads_ok_def)
  from gbn_initial_running [where fs = fs, OF u f this, of mx thr clk] s obtain dw rest where
    "gbn_running (chunks contents) 0 [] dw rest (server t)" by (auto simp: gbn_start_server_def)
  moreover have "gbn_inv (chunks contents) 0 (client t)" using gbn_initial [OF pay c(1)] c(2) by simp
  moreover have "timer_at t = G_Loop" using assms by (simp add: gbn_transfer_start_def)
  ultimately have "gbn_server (chunks contents) [] dw rest (timer_at t) (server t)"
    by (auto simp: gbn_server_def gbn_threads_def gbn_running_def gbn_timed_def gbn_core_def set_mutex_False)
  with \<open>gbn_inv (chunks contents) 0 (client t)\<close> show "\<exists>k. gbn_alive (chunks contents) 0 k t"
    by (auto simp: gbn_alive_def)
  show "\<not> over t" using assms by (simp add: gbn_transfer_start_def)
qed

lemma gbn_transfer_start_inv:
  assumes "gbn_transfer_start contents link n t"
  shows "gbn_session_inv (chunks contents) t"
proof -
  obtain k where "gbn_alive (chunks contents) 0 k t" using gbn_transfer_start_alive(1) [OF assms] by blast
  then show ?thesis using gbn_transfer_start_alive(2) [OF assms] by (auto simp: gbn_session_inv_def)
qed

interpretation go_back_N: inv_system "gbn_transfer_start contents link n" gbn_transfer_step
    "gbn_session_inv (chunks contents)" for contents link n
  by unfold_locales (simp_all add: gbn_transfer_start_inv gbn_session_step_inv)

lemma gbn_reachable_inv: "gbn_transfer_reachable contents link n t \<Longrightarrow> gbn_session_inv (chunks contents) t"
  unfolding gbn_transfer_reachable_def by (rule go_back_N.inv_reachable)

lemma gbn_transfer_startI:
  assumes "usable cwd fs name 1 link" "fs (c_str (cwd @ [47] @ name)) = Some contents"
    and "gbn_start_server 0 cwd fs name link clk mx thr = Inr s"
  shows "gbn_transfer_start contents link n \<lparr>server = s, timer_at = G_Loop, over = False,
    client = new_client_go_back_N n (fw_open True [] new_file_writer)\<rparr>"
proof -
  have "file_stream new_file_writer = None" by (simp add: new_file_writer_def)
  then show ?thesis unfolding gbn_transfer_start_def using assms by simp blast
qed

lemma gbn_start_window: "gbn_start s = Inr s' \<Longrightarrow> window s' = window s"
proof -
  have "gbn_start_loop first as s = Inr s' \<Longrightarrow> window s' = window s" for first as s
    by (induction first as s rule: gbn_start_loop.induct)
      (auto simp: rbind_Inr_iff gbn_stamp_def now_def set_packet_def update_def deref_def gbn_send_packet_frame split: if_splits)
  then show "gbn_start s = Inr s' \<Longrightarrow> window s' = window s" by (simp add: gbn_start_def)
qed

end
