(* ===== verification/Go_Back_N_Properties.thy ===== *)
theory Go_Back_N_Properties
  imports Go_Back_N_Transfer
begin

text \<open>Properties of go-back-N: the sender alone, and in a session with its client.\<close>

section \<open>An example\<close>

text \<open>
  \<open>handed_over s\<close>: how many packets the sender has given to the link, whether the link has
  put them on the network or not.
\<close>

definition handed_over :: "rdt_strategy \<Rightarrow> nat" where
  "handed_over s = unat (next_seq_number s) - length (packets_read_queue (pkt_builder s))"

lemma gbn_handed_over:
  assumes "gbn_core ds 0 dd dw rest s"
  shows "handed_over s = length dd + length dw"
proof -
  let ?q = "packets_read_queue (pkt_builder s)"
  have "builder_ok (mem s) (length dd + length dw) (pkt_builder s) rest"
    and nx: "next_seq_number s = seq_after (length dd + length dw) (pkt_builder s)"
    using assms by (simp_all add: gbn_core_def gbn_layout_def)
  then obtain dq where "run (mem s) (length dd + length dw) ?q dq" "rest = dq @ chunks (unread (pkt_builder s))"
    by (auto simp: builder_ok_def)
  then have "length ?q \<le> length rest" using run_length by fastforce
  then have "length dd + length dw + length ?q < 2 ^ 32" using gbn_bound [OF assms] by simp
  then show ?thesis unfolding handed_over_def nx by (simp add: unat_of_nat_32 del: of_nat_add)
qed

text \<open>The link of the examples, dropping every packet but each thousandth.\<close>

definition lossy_link :: packet_sender where
  "lossy_link = example_link\<lparr>loss_probability := 100\<rparr>"

lemma lossy_usable: "usable [47] example_files [102] 1 lossy_link"
  using example_usable(1) by (simp add: usable_def lossy_link_def sender_ok_def)

lemma lossy_send:
  assumes "gbn_send_packet a s = Inr s'" "sender s = lossy_link"
  shows "sent s' = sent s"
proof -
  obtain x g where d: "draw 1 = (x, g)" by (cases "draw 1")
  have "x < 100" using draw_bounds(2) [OF _ d] by (simp add: generator_ok_def MINSTD_MODULUS_def)
  then have "send_packet p lossy_link = Inr (False, None, lossy_link\<lparr>packet_number := 2, generator := g\<rparr>)" for p
    using d by (simp add: send_packet_def lossy_link_def example_link_def set_loss_sequence_def initial_sender_def)
  then show ?thesis using assms
    by (auto simp: gbn_send_packet_def transmit_def now_def set_packet_def locked_insert_unacked_def
        lock_set_mutex_def insert_unacked_def unlock_set_mutex_def Let_def rbind_Inr_iff split: if_splits)
qed

lemma lossy_example:
  obtains t where "gbn_transfer_reachable example_file lossy_link 1 t" "\<not> over t"
    "handed_over (server t) = 1" "sent (server t) = []" "\<not> set_mutex (server t)"
    "length (window (server t)) = 1" "\<exists>p. packet_at (window (server t) ! 0) (server t) = Inr p"
proof -
  have ds: "chunks example_file = [example_file]" by (simp add: chunks_step example_file_def)
  from gbn_initial_running [OF lossy_usable example_usable(2), of 0 0 0 "\<lambda>k. k"] obtain s dw rest where
    s: "gbn_start_server 0 [47] example_files [102] lossy_link (\<lambda>k. k) 0 0 = Inr s"
    and r: "gbn_running [example_file] 0 [] dw rest s" by (auto simp: ds gbn_start_server_def)
  have core: "gbn_core [example_file] 0 [] dw rest s" using r by (simp add: gbn_running_def)
  have "dw @ rest = [example_file]" using core by (auto simp: gbn_core_def gbn_layout_def)
  moreover have "rest = [] \<or> length dw = 200" using r by (simp add: gbn_running_def DEFAULT_WINDOW_SIZE_def)
  ultimately have dw: "length dw = 1" by (auto simp: append_eq_Cons_conv)
  then have l: "length (window s) = 1" using gbn_window_length [OF core] by simp
  obtain b s1 where s1: "fill_window (base_strategy b lossy_link (\<lambda>k. k) 0 DEFAULT_WINDOW_SIZE 0 0) = Inr s1" "gbn_start s1 = Inr s"
    using s by (auto simp: gbn_start_server_def new_go_back_N_def rbind_Inr_iff)
  have f: "sent s1 = []" "sender s1 = lossy_link"
    using fill_window_frame [OF s1(1)] by (simp_all add: base_strategy_def)
  obtain a where "window s1 = [a]" using l gbn_start_window [OF s1(2)] by (auto simp: length_Suc_conv)
  then have "sent s = []" using s1(2) f lossy_send [of a s1]
    by (auto simp: gbn_start_def rbind_Inr_iff gbn_stamp_def now_def set_packet_def split: if_splits)
  moreover have "handed_over s = 1" using gbn_handed_over [OF core] dw by simp
  moreover have "\<not> set_mutex s" using core by (simp add: gbn_core_def)
  moreover obtain q where "cells (mem s) (window s ! 0) = Some q" using gbn_cell [OF core, of 0] dw by auto
  then have "\<exists>p. packet_at (window s ! 0) s = Inr p" by (simp add: packet_at_def deref_def)
  moreover define t :: "gbn_timer_pc transfer" where "t = \<lparr>server = s, timer_at = G_Loop, over = False,
    client = new_client_go_back_N 1 (fw_open True [] new_file_writer)\<rparr>"
  moreover have "gbn_transfer_reachable example_file lossy_link 1 t"
    unfolding gbn_transfer_reachable_def t_def
    by (rule reachable_start, rule gbn_transfer_startI [OF lossy_usable example_usable(2) s])
  ultimately show ?thesis by (intro that [of t]) (simp_all add: l)
qed

section \<open>The session\<close>

text \<open>
  C13: in the session of go-back-N (its first number is 0; it begins when the client has left its
  first loop, and no handshake, no repeated request and no damaged datagram arrives in it), over a
  network that loses, delays, duplicates and reorders datagrams, what the client has written is
  always a prefix of the file, and it is the file when either side has ended. A handshake or a
  repeated request breaks the second half, even without damage: \<open>Service_Go_Back_N\<close>.
\<close>

theorem go_back_N_delivers:
  assumes "gbn_transfer_reachable contents link n t"
  shows "prefix (cl_output (client t)) contents \<and>
    (over t \<or> cl_done (client t) \<longrightarrow> cl_output (client t) = contents)"
proof -
  have inv: "gbn_session_inv (chunks contents) t" by (rule gbn_reachable_inv [OF assms])
  show ?thesis
  proof (cases "over t")
    case True
    then have "cl_output (client t) = concat (chunks contents)"
      using inv by (simp add: gbn_session_inv_def gbn_over_def gbn_inv_def)
    then show ?thesis by (simp add: concat_chunks)
  next
    case False
    then obtain e k where "gbn_alive (chunks contents) e k t" using inv by (auto simp: gbn_session_inv_def)
    then have "cl_output (client t) = concat (take e (chunks contents))" "\<not> cl_done (client t)"
      by (simp_all add: gbn_alive_def gbn_inv_def)
    moreover have "concat (take e (chunks contents)) @ concat (drop e (chunks contents)) = contents"
      by (simp add: concat_append [symmetric] concat_chunks del: concat_append)
    ultimately show ?thesis using False by (metis prefixI)
  qed
qed

theorem go_back_N_delivers_witness:
  "\<exists>t. gbn_transfer_reachable example_file lossy_link 1 t \<and> prefix (cl_output (client t)) example_file"
proof -
  obtain t where t: "gbn_transfer_reachable example_file lossy_link 1 t" by (rule lossy_example)
  from go_back_N_delivers [OF t] t show ?thesis by blast
qed

section \<open>Cumulative acknowledgements\<close>



section \<open>A lost packet\<close>

lemma wire_inj:
  assumes "payloads_ok ds" "i < length ds" "j < length ds" "wire (ds ! i) (of_nat i) = wire (ds ! j) (of_nat j)"
  shows "i = j"
proof -
  have "length (ds ! i) \<le> 500" "length (ds ! j) \<le> 500" "length ds < 2 ^ 32"
    using assms(1-3) by (auto simp: payloads_ok_def)
  then have "readable (wire (ds ! i) (of_nat i)) (mk_packet (ds ! i) (of_nat i))"
    "readable (wire (ds ! i) (of_nat i)) (mk_packet (ds ! j) (of_nat j))"
    using readable_wire assms(4) by metis+
  then have "mk_packet (ds ! i) (of_nat i) = mk_packet (ds ! j) (of_nat j)" by (simp add: readable_def)
  then have "(of_nat i :: 32 word) = of_nat j" by (metis mk_packet_simps(1))
  then show ?thesis using assms(2,3) \<open>length ds < 2 ^ 32\<close> by (subst (asm) of_nat_32_inj) auto
qed

text \<open>
  After the loss of packet \<open>i\<close>: it has not been sent; or the timer thread has tried to send again
  and is blocked, and with it the worker, as soon as it has to acknowledge.
\<close>

definition gbn_lost :: "byte list list \<Rightarrow> nat \<Rightarrow> gbn_timer_pc transfer \<Rightarrow> bool" where
  "gbn_lost ds i t \<longleftrightarrow>
     \<not> over t \<and> i < length ds \<and> (\<exists>e k. gbn_alive ds e k t \<and> i < k \<and>
       (wire (ds ! i) (of_nat i) \<notin> set (sent (server t)) \<or>
        window (server t) \<noteq> [] \<and> set_mutex (server t) \<and> (\<exists>a as temp. timer_at t = G_Insert a as temp)))"

lemma gbn_alive_data_step:
  assumes al: "gbn_alive ds e k t" and x: "x \<in> set (sent (server t))"
    and r: "gbn_client_run (Some x) (client t) = Inr c"
  shows "\<exists>e'. gbn_alive ds e' k (t\<lparr>client := c\<rparr>)"
proof -
  obtain j where j: "j < length ds" "x = wire (ds ! j) (of_nat j)" using gbn_alive_traffic [OF al x] by auto
  have "gbn_inv ds e (client t)" using al by (simp add: gbn_alive_def)
  from gbn_run_packet [OF this j(1)] r j(2) have "gbn_inv ds e c \<or> j = e \<and> gbn_inv ds (Suc e) c" by simp
  with gbn_alive_data [OF al] x j(2) show ?thesis by blast
qed

text \<open>While a packet has not been sent, the client waits for it, so the window is not empty.\<close>

lemma gbn_unsent_window:
  assumes al: "gbn_alive ds e k t" and i: "i < k" "wire (ds ! i) (of_nat i) \<notin> set (sent (server t))"
  shows "window (server t) \<noteq> []"
proof -
  obtain dd dw rest where a: "\<forall>j < e. wire (ds ! j) (of_nat j) \<in> set (sent (server t))"
    "gbn_server ds dd dw rest (timer_at t) (server t)" "length dd \<le> e" "k = length dd + length dw"
    by (rule gbn_aliveE [OF al])
  have "\<not> i < e" using a(1) i(2) by blast
  then have "dw \<noteq> []" using a(3,4) i(1) by auto
  then show ?thesis using gbn_window_length [OF gbn_server_core [OF a(2)]] by auto
qed

lemma gbn_lost_step:
  assumes lost: "gbn_lost ds i t" and st: "gbn_transfer_step t t'"
  shows "gbn_lost ds i t'"
proof -
  let ?x = "wire (ds ! i) (of_nat i)"
  define blocked where "blocked t \<longleftrightarrow> window (server t) \<noteq> [] \<and> set_mutex (server t) \<and>
    (\<exists>a as temp. timer_at t = G_Insert a as temp)" for t :: "gbn_timer_pc transfer"
  from lost obtain e k where o: "\<not> over t" and al: "gbn_alive ds e k t" and ik: "i < k" and
    i: "i < length ds" and un: "?x \<notin> set (sent (server t)) \<or> blocked t"
    unfolding gbn_lost_def blocked_def by blast
  have goal: "gbn_lost ds i t'" if "\<not> over t'" "gbn_alive ds e' k' t'" "k \<le> k'"
    "?x \<notin> set (sent (server t')) \<or> blocked t'" for e' k'
    using that i ik unfolding gbn_lost_def blocked_def by (meson less_le_trans)
  have pay: "payloads_ok ds" using al by (simp add: gbn_alive_def gbn_inv_def)
  from st show ?thesis unfolding gbn_transfer_step_def
  proof (cases rule: session_step.cases)
    case (deliver_data x c)
    then have "x \<in> set (sent (server t))" by simp
    from gbn_alive_data_step [OF al this deliver_data(4)] obtain e' where "gbn_alive ds e' k t'"
      using deliver_data(1) by blast
    then show ?thesis using goal [of e' k] un o deliver_data(1) by (simp add: blocked_def)
  next
    case (deliver_ack buffer s)
    then obtain x old where x: "x \<in> set (cl_sent (client t))" "buffer = x @ old" by blast
    show ?thesis
    proof (cases "set_mutex (server t)")
      case True
      then have "s = server t" using deliver_ack(5) gbn_acknowledge_locked
        by (auto simp: handle_ack_def rbind_Inr_iff)
      then show ?thesis using lost deliver_ack(1) by simp
    next
      case False
      then have nx: "?x \<notin> set (sent (server t))" using un by (simp add: blocked_def)
      from gbn_ack_step [OF al x(1) False, of old] deliver_ack x(2) obtain k' where
        k': "gbn_alive ds e k' t'" "k \<le> k'" "sends ds 0 k (server t) s" by auto
      have "?x \<notin> set (sent s)"
      proof
        assume "?x \<in> set (sent s)"
        then obtain j where j: "k \<le> j" "j < length ds" "?x = gbn_wire ds 0 j"
          using k'(3) nx unfolding sends_def by blast
        then have "i = j" using wire_inj [OF pay i j(2)] by (simp add: gbn_wire_def)
        with j(1) ik show False by simp
      qed
      then show ?thesis using goal [OF _ k'(1,2)] o deliver_ack(1) by simp
    qed
  next
    case (timer_thread pc s)
    from gbn_alive_timer [OF al timer_thread(2)] have al': "gbn_alive ds e k t'" using timer_thread(1) by simp
    obtain dd dw rest where "gbn_server ds dd dw rest (timer_at t) (server t)" by (rule gbn_aliveE [OF al])
    then have th: "gbn_threads ds dd dw rest (timer_at t) (server t)" by (simp add: gbn_server_def)
    note f = gbn_timer_threads [OF this timer_thread(2)]
    have "\<not> blocked t"
      using timer_thread(2) by (auto simp: blocked_def locked_insert_unacked_def lock_set_mutex_def)
    then have nx: "?x \<notin> set (sent (server t))" using un by simp
    have "?x \<notin> set (sent s) \<or> blocked t'"
    proof (cases "set (sent s) = set (sent (server t))")
      case False
      then have "\<exists>a as temp. pc = G_Insert a as temp" using f by blast
      moreover from this have "set_mutex s" using f by (auto simp: gbn_threads_def)
      ultimately show ?thesis using gbn_unsent_window [OF al ik nx] f timer_thread(1) by (simp add: blocked_def)
    qed (use nx in simp)
    then show ?thesis using goal [OF _ al'] o timer_thread(1) by simp
  next
    case (link_used link)
    have "gbn_alive ds e k t'" using gbn_alive_link [OF al link_used(2)] link_used(1) by simp
    then show ?thesis using goal [of e k] un o link_used(1) by (simp add: blocked_def)
  next
    case (end_of_file s)
    have "window (server t) = []" using end_of_file(3) by (simp add: is_done_def split: if_splits)
    then show ?thesis using un gbn_unsent_window [OF al ik] by (auto simp: blocked_def)
  qed
qed

lemma gbn_lost_steps: "gbn_transfer_step\<^sup>*\<^sup>* t t' \<Longrightarrow> gbn_lost ds i t \<Longrightarrow> gbn_lost ds i t'"
  by (induction rule: rtranclp_induct) (auto intro: gbn_lost_step)

text \<open>
  C11: go-back-N does not recover from a loss. If, in the session (as above, without handshake,
  repeated request and damage), a packet has been given to the link and the link has dropped it,
  then the transfer never ends, however the session goes on: the server never sends the terminal
  packet and the client is never done. What the session leaves out ends the transfer with an
  incomplete file at most (\<open>Service_Go_Back_N\<close>). (The timer thread sends
  one packet again, and then waits for the mutex it holds itself; the worker waits for it too
  when the next acknowledgement comes.)
\<close>

theorem go_back_N_loss_is_final:
  assumes "gbn_transfer_reachable contents link n t" "\<not> over t"
    and "i < handed_over (server t)"
    and "wire (chunks contents ! i) (of_nat i) \<notin> set (sent (server t))"
    and "gbn_transfer_step\<^sup>*\<^sup>* t t'"
  shows "\<not> over t' \<and> \<not> cl_done (client t')"
proof -
  let ?ds = "chunks contents"
  obtain e k where al: "gbn_alive ?ds e k t"
    using gbn_reachable_inv [OF assms(1)] assms(2) by (auto simp: gbn_session_inv_def)
  then obtain dd dw rest where r: "gbn_server ?ds dd dw rest (timer_at t) (server t)" "k = length dd + length dw"
    by (elim gbn_aliveE)
  note core = gbn_server_core [OF r(1)]
  have k: "i < k" using assms(3) gbn_handed_over [OF core] r(2) by (simp add: handed_over_def)
  then have "i < length ?ds" using gbn_bound(1) [OF core] r(2) by simp
  with al k assms(2,4) have "gbn_lost ?ds i t" unfolding gbn_lost_def by blast
  from gbn_lost_steps [OF assms(5) this] obtain e' k' where "\<not> over t'" "gbn_alive ?ds e' k' t'"
    unfolding gbn_lost_def by blast
  then show ?thesis by (simp add: gbn_alive_def gbn_inv_def)
qed

theorem go_back_N_loss_is_final_witness:
  "\<exists>t. gbn_transfer_reachable example_file lossy_link 1 t \<and> \<not> over t \<and>
     {t'. gbn_transfer_step\<^sup>*\<^sup>* t t' \<and> (over t' \<or> cl_done (client t'))} = {}"
proof -
  obtain t where t: "gbn_transfer_reachable example_file lossy_link 1 t" "\<not> over t"
    "handed_over (server t) = 1" "sent (server t) = []" by (rule lossy_example)
  from go_back_N_loss_is_final [OF t(1,2), of 0] t show ?thesis by auto
qed

end
