(* ===== verification/Timer_Race.thy ===== *)
theory Timer_Race
  imports Progress
begin

text \<open>
  The race of \<open>handle_time_out\<close> with \<open>acknowledge_packet\<close>: between taking the first packet of
  the set and looking at its time stamp the timer thread holds a pointer that no lock protects.
\<close>

lemma set_packet_cells:
  "set_packet a f s = Inr s' \<Longrightarrow>
   \<exists>p. cells (mem s) a = Some p \<and> s' = s\<lparr>mem := (mem s)\<lparr>cells := (cells (mem s))(a \<mapsto> f p)\<rparr>\<rparr>"
  by (auto simp: set_packet_def update_def deref_def rbind_Inr_iff split: option.splits)

lemma delete_packet_cells:
  "delete_packet a s = Inr s' \<Longrightarrow> s' = s\<lparr>mem := (mem s)\<lparr>cells := (cells (mem s))(a := None)\<rparr>\<rparr>"
  by (auto simp: delete_packet_def free_def deref_def rbind_Inr_iff split: option.splits)

lemma locked_erase_cells:
  "locked_erase_unacked a s = Inr s' \<Longrightarrow>
   mem s' = mem s \<and> window s' = window s \<and> aux_window s' = aux_window s \<and> pkt_builder s' = pkt_builder s"
  by (auto simp: locked_erase_unacked_def lock_set_mutex_def erase_unacked_def unlock_set_mutex_def
      rbind_Inr_iff split: if_splits)

text \<open>Acknowledging the last outstanding packet of a transfer deletes it.\<close>

lemma last_ack_found:
  assumes w: "window s = [a]" "aux_window s = []" "\<not> has_next (pkt_builder s)"
    and na: "\<not> acked_at s a" and s': "sr_ack_found 0 a s = Inr s'"
  shows "cells (mem s') a = None"
proof -
  from s' obtain p where p: "packet_at a s = Inr p" by (auto simp: sr_ack_found_def rbind_Inr_iff)
  then have np: "\<not> acked p"
    using na by (auto simp: packet_at_def deref_def acked_at_def split: option.splits)
  from s' p np obtain s1 s2 s3 where 1: "set_packet a (set_ack True) s = Inr s1"
    and 2: "locked_erase_unacked a s1 = Inr s2" and 3: "sr_advance_window s2 = Inr s3"
    and 4: "expand_window (adjust_window_size s3) = Inr s'"
    by (auto simp: sr_ack_found_def rbind_Inr_iff)
  from set_packet_cells [OF 1] locked_erase_cells [OF 2] w
  obtain q where c2: "cells (mem s2) a = Some (set_ack True q)" "window s2 = [a]" "aux_window s2 = []"
    "\<not> has_next (pkt_builder s2)" by auto
  then obtain s4 where d: "delete_packet a (s2\<lparr>window := []\<rparr>) = Inr s4"
    and s3: "s3 = s4\<lparr>packets_sent := packets_sent s4 + 1\<rparr>"
    using 3 by (auto simp: sr_advance_window_def packet_at_def deref_def set_ack_def rbind_Inr_iff)
  let ?s4 = "adjust_window_size s3"
  have f: "cells (mem ?s4) a = None" "aux_window ?s4 = []" "\<not> has_next (pkt_builder ?s4)"
    using delete_packet_cells [OF d] c2 s3 by (simp_all add: adjust_window_size_def Let_def)
  have "expand_window ?s4 = Inr ?s4" using f by (subst expand_window.simps) simp
  with 4 f(1) show ?thesis by simp
qed

lemma last_ack_frees:
  assumes inv: "sr_inv ds R s" and w: "window s = [a]" "aux_window s = []" "\<not> has_next (pkt_builder s)"
    and s': "sr_acknowledge_packet (mk_ack (of_nat (Suc (unat (packets_sent s))))) s = Inr s'"
  shows "cells (mem s') a = None"
proof -
  let ?n = "of_nat (Suc (unat (packets_sent s))) :: 32 word"
  let ?s = "s\<lparr>window_size_history := window_size_history s @ [window_size s], wnd_mutex := True\<rparr>"
  have "sr_core ds R ?s = sr_core ds R s" by (rule core_cong; simp)+
  then have core: "sr_core ds R ?s" and wm: "\<not> wnd_mutex s" using inv by (auto simp: sr_inv_def)
  obtain q where "packet_at a ?s = Inr q" "seqno q = ?n" using front_seqno [OF core, of a "[]"] w by auto
  then have "find_seqno ?n 0 (window ?s) ?s = Inr (Some (0, a))" using w by simp
  with s' wm obtain s1 where s1: "sr_ack_found 0 a ?s = Inr s1" "s' = unlock_wnd_mutex s1"
    by (auto simp: sr_acknowledge_packet_def calculate_ack_checksum_eq lock_wnd_mutex_def
        rbind_Inr_iff Let_def)
  have "\<not> acked_at ?s a" using inv w by (simp add: sr_inv_def front_ok_def acked_at_def)
  from last_ack_found [OF _ _ _ this s1(1)] w have "cells (mem s1) a = None" by simp
  then show ?thesis by (simp add: s1(2) unlock_wnd_mutex_def)
qed

text \<open>The first packet is in the timer's set once the transfer has started.\<close>

lemma set_insert_ne [simp]: "set_insert lt x xs \<noteq> []"
  by (cases xs) auto

lemma transmit_timed: "transmit a s = Inr (dup, s') \<Longrightarrow> unacked_packets s' \<noteq> []"
  by (auto simp: transmit_def now_def locked_insert_unacked_def insert_unacked_def lock_set_mutex_def
      unlock_set_mutex_def rbind_Inr_iff Let_def split: if_splits)

lemma shrink_window_short:
  "length (window s) \<le> 1 \<Longrightarrow> n < 2 ^ 31 \<Longrightarrow> shrink_window n s = Inr s' \<Longrightarrow>
   unacked_packets s' = unacked_packets s"
  by (auto simp: shrink_window_def Let_def split: if_splits)

lemma sr_send_timed:
  assumes "sr_send_packet a s = Inr s'" "length (window s) \<le> 1" "window_size s = 1"
  shows "unacked_packets s' \<noteq> []"
proof -
  from assms(1) obtain dup s1 where t: "transmit a s = Inr (dup, s1)" and
    r: "(if dup then shrink_window (half (window_size s1)) s1 else Inr s1) = Inr s'"
    by (auto simp: sr_send_packet_def rbind_Inr_iff)
  have w: "length (window s1) \<le> 1" "half (window_size s1) < 2 ^ 31"
    using transmit_frame [OF t] assms(2,3) by (simp_all add: half_def)
  then show ?thesis
    using transmit_timed [OF t] r shrink_window_short [OF w, of s'] by (cases dup) simp_all
qed

lemma sr_start_timed:
  assumes "sr_start s = Inr s'" "window s = [a]" "window_size s = 1"
  shows "unacked_packets s' \<noteq> []"
  using assms
  by (auto simp: sr_start_def now_def Let_def lock_wnd_mutex_def unlock_wnd_mutex_def rbind_Inr_iff
      dest!: sr_send_timed split: if_splits)

lemma start_loop_window: "sr_start_loop b as s = Inr s' \<Longrightarrow> window s' = window s"
proof (induction b as s rule: sr_start_loop.induct)
  case (2 first a as s)
  then show ?case by (fastforce simp: rbind_Inr_iff split: if_splits)
qed simp

lemma start_window: "sr_start s = Inr s' \<Longrightarrow> window s' = window s"
  by (auto simp: sr_start_def now_def Let_def lock_wnd_mutex_def unlock_wnd_mutex_def rbind_Inr_iff
      dest!: start_loop_window split: if_splits)

section \<open>A transfer of one packet\<close>

lemma one_chunk: "contents \<noteq> [] \<Longrightarrow> length contents \<le> 500 \<Longrightarrow> chunks contents = [contents]"
  by (simp add: chunks_step)

lemma fill_window_size: "fill_window s = Inr s' \<Longrightarrow> window_size s' = window_size s"
proof (induction s rule: fill_window.induct)
  case (1 s)
  show ?case
  proof (cases "window_open s \<and> has_next (pkt_builder s)")
    case False
    then show ?thesis using "1.prems" by (subst (asm) fill_window.simps) (simp split: if_splits)
  next
    case True
    with "1.prems" obtain a s1 where n: "next_packet s = Inr (a, s1)"
      and f: "fill_window (s1\<lparr>window := window s1 @ [a]\<rparr>) = Inr s'"
      by (subst (asm) fill_window.simps) (auto simp: rbind_Inr_iff)
    from "1.IH" [OF True n] f next_packet_frame [OF n] show ?thesis by simp
  qed
qed

lemma one_packet_start:
  assumes u: "usable cwd fs name mx link" and f: "fs (c_str (cwd @ [47] @ name)) = Some contents"
    and one: "contents \<noteq> []" "length contents \<le> 500"
  shows "\<exists>s a. start_server cwd fs name mx link clk = Inr s \<and> sr_inv [contents] (\<lambda>_. False) s \<and>
    window s = [a] \<and> aux_window s = [] \<and> \<not> has_next (pkt_builder s) \<and> unacked_packets s = [a] \<and>
    packets_sent s = 0"
proof -
  note ds = one_chunk [OF one]
  obtain s where s: "start_server cwd fs name mx link clk = Inr s" and
    inv: "sr_inv [contents] (\<lambda>_. False) s"
    using sr_initial_inv [where fs = fs, OF u f] by (auto simp: ds start_server_def)
  have core: "sr_core [contents] (\<lambda>_. False) s" using inv by (simp add: sr_inv_def)
  then obtain dd dw rest where l: "sr_layout [contents] dd dw rest s" and
    "\<forall>i. 1 \<le> i \<and> i \<le> length dd \<longrightarrow> False"
    unfolding sr_core_def sr_data_def by blast
  then have "length dd = 0" by (metis le_refl less_one not_le)
  with l have dw: "dw @ rest = [contents]" and ps: "packets_sent s = 0" by (auto simp: sr_layout_def)
  have ne: "window s \<noteq> []"
  proof
    assume w: "window s = []"
    then have "aux_window s = []" "\<not> has_next (pkt_builder s)" using inv by (simp_all add: sr_inv_def)
    then have "dw = []" "rest = []"
      using w layout_length [OF l] l builder_has_next by (auto simp: in_flight_def sr_layout_def)
    with dw show False by simp
  qed
  with layout_length [OF l] have "dw \<noteq> []" by (auto simp: in_flight_def)
  with dw have dw1: "dw = [contents]" "rest = []" by (cases dw; simp)+
  then have len: "length (in_flight s) = 1" using layout_length [OF l] by simp
  then obtain a where w: "window s = [a]" "aux_window s = []"
    using ne by (cases "window s") (auto simp: in_flight_def)
  have h: "\<not> has_next (pkt_builder s)" using l dw1 builder_has_next by (auto simp: sr_layout_def)
  obtain s0 where s0: "new_selective_repeat cwd fs name mx link clk = Inr s0" "sr_start s0 = Inr s"
    using s by (auto simp: start_server_def rbind_Inr_iff)
  have "window_size s0 = 1"
    using s0(1) fill_window_size by (fastforce simp: new_selective_repeat_def rbind_Inr_iff base_strategy_def)
  moreover have "window s0 = [a]"
    using s0(2) w(1) start_window [OF s0(2)] by simp
  ultimately have un: "unacked_packets s \<noteq> []" using sr_start_timed [OF s0(2)] by blast
  have "set (unacked_packets s) \<subseteq> {a}" "distinct (unacked_packets s)"
    using core w by (auto simp: sr_core_def sr_timed_def intro: sorted_by_distinct)
  with un have "unacked_packets s = [a]"
    by (cases "unacked_packets s"; cases "tl (unacked_packets s)") auto
  with s inv w h ps show ?thesis by blast
qed

text \<open>
  C21: the timer thread's pointer can dangle: in every transfer of a file that fits one packet,
  over a link that loses nothing, there is an interleaving after which the timer thread
  dereferences the packet that \<open>acknowledge_packet\<close> has deleted, between taking it from the set
  and looking at its time stamp.
\<close>

theorem timer_use_after_free:
  assumes u: "usable cwd fs name mx link" and f: "fs (c_str (cwd @ [47] @ name)) = Some contents"
    and one: "contents \<noteq> []" "length contents \<le> 500"
    and ll: "loss_probability link \<le> 0" and n: "1 \<le> n" "n < 2 ^ 31"
  shows "\<exists>t. transfer_reachable contents link n t \<and>
    sr_timer_step (timer_at t) (server t) = Inl Use_After_Free"
proof -
  obtain s a where s: "start_server cwd fs name mx link clk = Inr s" and
    inv: "sr_inv [contents] (\<lambda>_. False) s" and
    w: "window s = [a]" "aux_window s = []" "\<not> has_next (pkt_builder s)" and
    un: "unacked_packets s = [a]" and ps: "packets_sent s = 0"
    using one_packet_start [where fs = fs, OF u f one] by blast
  define t0 where "t0 = \<lparr>server = s, timer_at = T_Loop, over = False,
    client = new_client_selective_repeat n (fw_open True [] new_file_writer)\<rparr>"
  have "transfer_start contents link n t0"
    unfolding t0_def by (rule transfer_startI [where fs = fs, OF u f s])
  then have r0: "transfer_reachable contents link n t0"
    unfolding transfer_reachable_def by (rule reachable_start)
  have s1: "transfer_step t0 (t0\<lparr>timer_at := T_Begin, server := s\<rparr>)"
    by (rule session_step.timer_thread) (simp add: t0_def un)
  have "\<not> set_mutex s" using inv by (simp add: sr_inv_def sr_core_def)
  then have "timer_first s = Inr (a, s)" using un by (simp add: timer_first_Inr)
  then have s2: "transfer_step (t0\<lparr>timer_at := T_Begin, server := s\<rparr>) (t0\<lparr>timer_at := T_Compare a\<rparr>)"
    using session_step.timer_thread [of sr_timer_step "t0\<lparr>timer_at := T_Begin, server := s\<rparr>" "T_Compare a" s]
    by (simp add: t0_def)
  let ?t2 = "t0\<lparr>timer_at := T_Compare a\<rparr>"
  have r2: "transfer_reachable contents link n ?t2"
    using r0 s1 s2 unfolding transfer_reachable_def by (blast intro: reachable_step)
  have l2: "live_inv (chunks contents) n ?t2" using reachable_live [OF ll r2] .
  obtain t3 where t3: "transfer_step\<^sup>*\<^sup>* ?t2 t3" "timer_at t3 = T_Compare a"
    "sr_acknowledge_packet (mk_ack (of_nat (Suc (unat (packets_sent s))))) s = Inr (server t3)"
    using selective_repeat_live.round_trip_step [OF l2 n] w by (auto simp: t0_def)
  have "cells (mem (server t3)) a = None" using last_ack_frees [OF inv w t3(3)] .
  then have "sr_timer_step (timer_at t3) (server t3) = Inl Use_After_Free"
    by (simp add: t3(2) timer_expired_def now_def packet_at_def deref_def)
  moreover have "transfer_reachable contents link n t3"
    using r2 t3(1) unfolding transfer_reachable_def by (rule reachable_steps)
  ultimately show ?thesis by blast
qed

theorem timer_use_after_free_witness:
  "\<exists>t. transfer_reachable example_file example_link 4 t \<and>
     sr_timer_step (timer_at t) (server t) = Inl Use_After_Free"
  by (rule timer_use_after_free [OF example_usable(1,2) _ _ example_usable(3), of 4])
     (simp_all add: example_file_def)

end
