(* ===== verification/Wire_Properties.thy ===== *)
theory Wire_Properties
  imports Packets "HOL-Library.Multiset"
begin

text \<open>
  What the checksums and the two wire formats guarantee, and what they do not.
\<close>

section \<open>Checksums\<close>

text \<open>
  C35: the checksum of a data packet can always be computed (the branch that exits the process
  is dead), it is the one's complement sum of the length, the two halves of the sequence number
  and the payload bytes, and it is zero only for the empty content.
\<close>

theorem checksum_value:
  "\<exists>c. calculate_checksum p = Inr c \<and>
     unat c mod 65535 =
       (unat (len p) + unat (seqno p) mod 65536 + unat (seqno p) div 65536 + (\<Sum>b\<leftarrow>data p. unat b))
         mod 65535 \<and>
     (c = 0 \<longleftrightarrow> len p = 0 \<and> seqno p = 0 \<and> set (data p) \<subseteq> {0})"
proof -
  have "content_sum (len p) (seqno p) (data p) = 0 \<longleftrightarrow>
      len p = 0 \<and> seqno p = 0 \<and> set (data p) \<subseteq> {0}"
    by (auto simp: content_sum_def unat_eq_zero)
  then show ?thesis
    using checksum_of_mod [of "len p" "seqno p" "data p"]
    by (simp add: calculate_checksum_eq checksum_of_eq_0 content_sum_def)
qed

text \<open>
  Which damage the checksum misses: two packets whose contents are not all zero have the
  same checksum exactly when their sums agree modulo 65535.
\<close>

theorem checksum_misses:
  "calculate_checksum p = calculate_checksum q \<longleftrightarrow>
     content_sum (len p) (seqno p) (data p) mod 65535 = content_sum (len q) (seqno q) (data q) mod 65535 \<and>
     (content_sum (len p) (seqno p) (data p) = 0 \<longleftrightarrow> content_sum (len q) (seqno q) (data q) = 0)"
  by (simp add: calculate_checksum_eq checksum_of_eq_iff)


lemma mod_diff_small:
  assumes "(a + x) mod 65535 = (a + y) mod (65535 :: nat)" "x < 65535" "y < 65535"
  shows "x = y"
  using assms
proof (induction x y rule: linorder_wlog)
  case (le x y)
  then have "65535 dvd (a + y) - (a + x)" by (subst mod_eq_dvd_iff_nat [symmetric]) auto
  with le show ?case by (auto dest: dvd_imp_le)
next
  case (sym x y)
  then show ?case by simp
qed

lemma sum_bytes_update:
  "i < length d \<Longrightarrow>
   (\<Sum>b\<leftarrow>d[i := x]. unat (b :: byte)) + unat (d ! i) = (\<Sum>b\<leftarrow>d. unat b) + unat x"
proof (induction d arbitrary: i)
  case (Cons b d)
  then show ?case by (cases i) auto
qed simp

lemma content_sum_update:
  "i < length d \<Longrightarrow> content_sum l n (d[i := x]) + unat (d ! i) = content_sum l n d + unat x"
  using sum_bytes_update [of i d x] by (simp add: content_sum_def)

lemma byte_le_content: "i < length d \<Longrightarrow> unat (d ! i) \<le> content_sum l n d"
  using member_le_sum_list [of "unat (d ! i)" "map unat d"] by (simp add: content_sum_def)

text \<open>C36: a change of one payload byte, whatever it is, changes the checksum.\<close>

theorem byte_damage_detected:
  assumes "i < length (data p)" "b \<noteq> data p ! i"
  shows "calculate_checksum (p\<lparr>data := (data p)[i := b]\<rparr>) \<noteq> calculate_checksum p"
proof
  let ?S = "content_sum (len p) (seqno p) (data p)"
  let ?T = "content_sum (len p) (seqno p) ((data p)[i := b])"
  assume "calculate_checksum (p\<lparr>data := (data p)[i := b]\<rparr>) = calculate_checksum p"
  then have m: "?T mod 65535 = ?S mod 65535"
    by (simp add: calculate_checksum_eq checksum_of_eq_iff)
  note u = content_sum_update [OF assms(1), of "len p" "seqno p" b]
  define r where "r = ?S - unat (data p ! i)"
  have "unat (data p ! i) \<le> ?S" using byte_le_content [OF assms(1)] .
  then have S: "?S = r + unat (data p ! i)" by (simp only: r_def le_add_diff_inverse2)
  with u have T: "?T = r + unat b" by linarith
  have "unat b = unat (data p ! i)"
    using unat_char_le [of b] unat_char_le [of "data p ! i"] m
    by (intro mod_diff_small [of r "unat b"]) (simp_all add: S [symmetric] T [symmetric])
  with assms(2) show False by (simp add: word_unat_eq_iff)
qed

theorem byte_damage_detected_witness:
  "calculate_checksum ((mk_packet [1, 2] 7)\<lparr>data := [1, 3]\<rparr>) \<noteq> calculate_checksum (mk_packet [1, 2] 7)"
  using byte_damage_detected [of 1 "mk_packet [1, 2] 7" 3] by simp

text \<open>
  The checksum does not see the order of the payload bytes: a payload whose bytes are
  permuted passes as the original.
\<close>

theorem reordered_payload_undetected:
  assumes "mset d = mset (data p)"
  shows "calculate_checksum (p\<lparr>data := d\<rparr>) = calculate_checksum p"
proof -
  have "(\<Sum>b\<leftarrow>d. unat b) = (\<Sum>b\<leftarrow>data p. unat b)"
    using assms by (metis mset_map sum_mset_sum_list)
  then show ?thesis by (simp add: calculate_checksum_eq checksum_of_eq_iff content_sum_def)
qed

theorem reordered_payload_witness:
  "calculate_checksum ((mk_packet [1, 2] 7)\<lparr>data := [2, 1]\<rparr>) = calculate_checksum (mk_packet [1, 2] 7) \<and>
   data ((mk_packet [1, 2] 7)\<lparr>data := [2, 1]\<rparr>) \<noteq> data (mk_packet [1, 2] 7)"
  using reordered_payload_undetected [of "[2, 1]" "mk_packet [1, 2] 7"] by simp

section \<open>Packing and unpacking\<close>

text \<open>C33: a data packet whose length field fits its payload is packed and unpacked unchanged.\<close>

theorem data_round_trip:
  assumes "wf_data_packet p"
  shows "rbind (pack p) (\<lambda>bs. data_packet_of_buffer bs (int (length bs))) = Inr p"
  using assms by (rule data_wire.round_trip)

theorem data_round_trip_witness:
  "rbind (pack (mk_packet [104, 105] 70000)) (\<lambda>bs. data_packet_of_buffer bs (int (length bs)))
     = Inr (mk_packet [104, 105] 70000)"
  by (rule data_round_trip) (simp add: wf_mk_packet)

text \<open>
  C34: an acknowledgement is packed and unpacked unchanged, whatever old bytes follow it in the
  buffer it is received into.
\<close>

theorem ack_round_trip:
  assumes "wf_ack_packet p"
  shows "rbind (pack_ack p) (\<lambda>bs. ack_packet_of_buffer (bs @ old)) = Inr p"
proof -
  obtain bs where bs: "pack_ack p = Inr bs" "length bs = 8"
    using assms by (auto simp: wf_ack_packet_def pack_ack_eq)
  have "ack_packet_of_buffer (bs @ old) = ack_packet_of_buffer bs"
    using bs(2) by (simp add: ack_packet_of_buffer_def string_of_buffer_def ACK_PKT_LEN_def)
  then show ?thesis using ack_wire.round_trip [OF assms] bs(1) by simp
qed

theorem ack_round_trip_witness:
  "rbind (pack_ack (mk_ack 9)) (\<lambda>bs. ack_packet_of_buffer (bs @ [1, 2, 3])) = Inr (mk_ack 9)"
  by (rule ack_round_trip) (simp add: wf_ack_packet_def)

text \<open>
  C37: what a received datagram unpacks to, by its length: shorter than the header is a fault
  (an index outside the string for at most six bytes, \<open>std::out_of_range\<close> for seven); otherwise
  the payload is cut at the length field, or is everything after the header when that field is
  smaller than the header itself.
\<close>

theorem receive_by_length:
  assumes "length buf < 2 ^ 63"
  shows "case data_packet_of_buffer buf (int (length buf)) of
      Inl e \<Rightarrow> length buf < 8 \<and> e = (if length buf < 7 then Bad_Index else Out_Of_Range)
    | Inr p \<Rightarrow> 8 \<le> length buf \<and> \<not> acked p \<and>
        data p = (if 8 \<le> unat (len p) then take (unat (len p) - 8) (drop 8 buf) else drop 8 buf)"
proof (cases "length buf < 8")
  case True
  then show ?thesis using assms by (simp add: data_packet_of_all unpack_short)
next
  case False
  then obtain q where "unpack buf blank_data_packet = Inr q" "acked q = acked blank_data_packet"
    "data q = (if 8 \<le> unat (len q) then take (unat (len q) - 8) (drop 8 buf) else drop 8 buf)"
    using unpack_long [of buf blank_data_packet] assms by auto
  then show ?thesis using assms False by (simp add: data_packet_of_all blank_data_packet_def)
qed

theorem receive_by_length_witness:
  "data_packet_of_buffer [1, 2, 3] 3 = Inl Bad_Index"
  using receive_by_length [of "[1, 2, 3]"] by (simp split: sum.splits)

end
