(* ===== verification/Server_Properties.thy ===== *)
theory Server_Properties
  imports Selective_Repeat_Inv
begin

text \<open>
  The properties of the server's components taken one by one: the file reader, the lossy
  link, the timer's set of packets, and the operations of the selective-repeat sender.
\<close>

section \<open>The file reader\<close>

text \<open>Taking \<open>k\<close> packets one after the other, as the strategies do.\<close>

fun take_packets ::
    "nat \<Rightarrow> 32 word \<Rightarrow> store \<Rightarrow> packet_builder \<Rightarrow> (data_packet list \<times> packet_builder) res" where
  "take_packets 0 n st b = Inr ([], b)"
| "take_packets (Suc k) n st b =
     rbind (get_next_packet n st b) (\<lambda>(a, n, st, b).
     rbind (deref a st) (\<lambda>p.
     rbind (take_packets k n st b) (\<lambda>(ps, b). Inr (p # ps, b))))"

lemma take_packets_ok:
  "builder_ok st i b ds \<Longrightarrow> store_ok st \<Longrightarrow>
   \<exists>ps b'. take_packets (length ds) (seq_after i b) st b = Inr (ps, b') \<and> \<not> has_next b' \<and>
     map data ps = ds \<and> map seqno ps = map of_nat [i ..< i + length ds] \<and>
     map pack ps = map pack (map2 mk_packet ds (map of_nat [i ..< i + length ds]))"
proof (induction ds arbitrary: i b st)
  case Nil
  then show ?case using builder_has_next [of st i b "[]"] by simp
next
  case (Cons d ds)
  obtain a st' b' where g: "get_next_packet (seq_after i b) st b = Inr (a, seq_after (Suc i) b', st', b')"
    and b': "builder_ok st' (Suc i) b' ds" "store_ok st'" "holds st' a i d"
    using get_next_packet_ok [OF Cons.prems] by blast
  from b'(3) obtain p where p: "deref a st' = Inr p" "data p = d" "seqno p = of_nat i"
    "pack p = pack (mk_packet d (of_nat i))"
    by (auto simp: holds_def deref_def pack_flags)
  obtain ps b'' where ps: "take_packets (length ds) (seq_after (Suc i) b') st' b' = Inr (ps, b'')"
    "\<not> has_next b''" "map data ps = ds" "map seqno ps = map of_nat [Suc i ..< Suc i + length ds]"
    "map pack ps = map pack (map2 mk_packet ds (map of_nat [Suc i ..< Suc i + length ds]))"
    using Cons.IH [OF b'(1,2)] by blast
  have r: "[i ..< i + length (d # ds)] = i # [Suc i ..< Suc i + length ds]"
    by (simp add: upt_rec)
  show ?case
    using g p ps by (simp only: r) (simp del: of_nat_add of_nat_Suc upt_Suc)
qed

text \<open>
  C25: the file reader gives the file: from the constructor on, taking packets yields payloads
  of 1 to 500 bytes whose concatenation is the file, numbered from 1 and ready to be packed,
  and then the reader reports that there is nothing left.
\<close>

theorem reader_gives_file:
  assumes "length cwd < 200" "fs (c_str (cwd @ [47] @ name)) = Some contents"
    and "0 < n" "500 * n < 2 ^ 31"
  shows "\<exists>b ps b'. new_packet_builder cwd fs name n = Inr b \<and>
    take_packets ((length contents + 499) div 500) 1 empty_store b = Inr (ps, b') \<and>
    \<not> has_next b' \<and> concat (map data ps) = contents \<and>
    (\<forall>p \<in> set ps. data p \<noteq> [] \<and> length (data p) \<le> 500 \<and> succeeds (pack p)) \<and>
    map seqno ps = map of_nat [1 ..< Suc ((length contents + 499) div 500)]"
proof -
  let ?ds = "chunks contents"
  obtain b where b: "new_packet_builder cwd fs name n = Inr b" "packets_read_queue b = []"
    "builder_ok empty_store 1 b ?ds"
    using new_packet_builder_ok [where fs = fs, OF assms, of 1] by blast
  obtain ps b' where ps: "take_packets (length ?ds) (seq_after 1 b) empty_store b = Inr (ps, b')"
    "\<not> has_next b'" "map data ps = ?ds" "map seqno ps = map of_nat [1 ..< 1 + length ?ds]"
    "map pack ps = map pack (map2 mk_packet ?ds (map of_nat [1 ..< 1 + length ?ds]))"
    using take_packets_ok [OF b(3)] by auto
  have "succeeds (pack p)" if "p \<in> set ps" for p
  proof -
    from that obtain j where j: "j < length ps" "p = ps ! j" by (auto simp: in_set_conv_nth)
    have len: "length ps = length ?ds" using ps(3) by (metis length_map)
    have "pack p = map pack ps ! j" using j by simp
    also have "\<dots> = pack (mk_packet (?ds ! j) (of_nat (Suc j)))"
      unfolding ps(5) using j len by (simp del: upt_Suc)
    also have "length (?ds ! j) \<le> 65527"
      using j len chunks_bounds [of "?ds ! j" contents] by simp
    then have "succeeds (pack (mk_packet (?ds ! j) (of_nat (Suc j))))"
      by (simp add: pack_mk_packet)
    finally show ?thesis .
  qed
  moreover have "data p \<noteq> [] \<and> length (data p) \<le> 500" if "p \<in> set ps" for p
    using that chunks_bounds [of "data p" contents] ps(3) by (metis image_eqI list.set_map)
  moreover have "concat (map data ps) = contents" by (simp add: ps(3) concat_chunks)
  ultimately show ?thesis
    using b ps(1,2,4) by (intro exI [of _ b] exI [of _ ps] exI [of _ b']) (simp add: length_chunks)
qed

theorem reader_gives_file_witness:
  "\<exists>b ps b'. new_packet_builder [47, 116] [[47, 116, 47, 102] \<mapsto> replicate 501 7] [102] 1 = Inr b \<and>
    take_packets 2 1 empty_store b = Inr (ps, b') \<and> \<not> has_next b' \<and>
    concat (map data ps) = replicate 501 7"
  using reader_gives_file [of "[47, 116]" "[[47, 116, 47, 102] \<mapsto> replicate 501 7]" "[102]"
      "replicate 501 7" 1]
  by (auto simp: c_str_def)

section \<open>The lossy link\<close>

text \<open>Sending a list of packets, one after the other: the triple-duplicate reports and the datagrams.\<close>

fun send_all ::
    "data_packet list \<Rightarrow> packet_sender \<Rightarrow> (bool list \<times> byte list option list \<times> packet_sender) res" where
  "send_all [] s = Inr ([], [], s)"
| "send_all (p # ps) s =
     rbind (send_packet p s) (\<lambda>(dup, out, s).
     rbind (send_all ps s) (\<lambda>(dups, outs, s). Inr (dup # dups, out # outs, s)))"

text \<open>One packet: the position in the cycle decides on the report.\<close>

lemma send_packet_position:
  assumes s: "sender_ok s" and d: "pack p = Inr d"
    and k: "loss_sequence s ! loss_sequence_index s = int k" "k < 2 ^ 31"
    and n: "1 \<le> unat (packet_number s)" "unat (packet_number s) \<le> k"
  shows "\<exists>out s'. send_packet p s = Inr (unat (packet_number s) = k, out, s') \<and> sender_ok s' \<and>
    loss_sequence s' = loss_sequence s \<and>
    (if unat (packet_number s) = k
     then out = Some d \<and> packet_number s' = 1 \<and>
       loss_sequence_index s' = Suc (loss_sequence_index s) mod length (loss_sequence s)
     else unat (packet_number s') = Suc (unat (packet_number s)) \<and>
       loss_sequence_index s' = loss_sequence_index s)"
proof -
  let ?m = "word_of_int (loss_sequence s ! loss_sequence_index s) :: 64 word"
  have m: "unat ?m = k" using k(2) by (simp add: k(1) unat_of_nat)
  have "unat (packet_number s mod ?m) = unat (packet_number s) mod k"
    by (simp only: unat_mod_distrib m)
  then have dup: "packet_number s mod ?m = 0 \<longleftrightarrow> unat (packet_number s) = k"
    using n by (cases "unat (packet_number s) = k") (simp_all add: unat_eq_zero [symmetric])
  have nz: "?m \<noteq> 0" using m n by (auto simp: unat_eq_zero [symmetric])
  have i: "loss_sequence_index s < length (loss_sequence s)" using s by (simp add: sender_ok_def)
  have suc: "unat (packet_number s + 1) = Suc (unat (packet_number s))"
    if "unat (packet_number s) \<noteq> k"
    using n k(2) that by (simp add: unat_word_ariths)
  obtain x g where dr: "draw (generator s) = (x, g)" by (cases "draw (generator s)")
  obtain dup' out s' where ok: "send_packet p s = Inr (dup', out, s')" "sender_ok s'"
    using send_packet_ok [OF s d] by blast
  then show ?thesis
    using d dr nz i dup suc by (auto simp: send_packet_def Let_def split: if_splits)
qed

lemma send_all_cycle:
  "sender_ok s \<Longrightarrow> \<forall>p \<in> set ps. succeeds (pack p) \<Longrightarrow>
   loss_sequence s ! loss_sequence_index s = int k \<Longrightarrow> k < 2 ^ 31 \<Longrightarrow>
   1 \<le> unat (packet_number s) \<Longrightarrow> unat (packet_number s) + length ps = Suc k \<Longrightarrow> ps \<noteq> [] \<Longrightarrow>
   \<exists>outs s'. send_all ps s = Inr (replicate (length ps - 1) False @ [True], outs, s') \<and>
     packet_number s' = 1 \<and>
     loss_sequence_index s' = Suc (loss_sequence_index s) mod length (loss_sequence s) \<and>
     last outs \<noteq> None \<and> length outs = length ps"
proof (induction ps arbitrary: s)
  case (Cons p ps)
  obtain d where d: "pack p = Inr d" using Cons.prems(2) by (auto simp: succeeds_def)
  have le: "unat (packet_number s) \<le> k" using Cons.prems(6,7) by simp
  obtain out s1 where s1: "send_packet p s = Inr (unat (packet_number s) = k, out, s1)" "sender_ok s1"
    "loss_sequence s1 = loss_sequence s"
    "if unat (packet_number s) = k
     then out = Some d \<and> packet_number s1 = 1 \<and>
       loss_sequence_index s1 = Suc (loss_sequence_index s) mod length (loss_sequence s)
     else unat (packet_number s1) = Suc (unat (packet_number s)) \<and>
       loss_sequence_index s1 = loss_sequence_index s"
    using send_packet_position [OF Cons.prems(1) d Cons.prems(3,4,5) le] by blast
  show ?case
  proof (cases "ps = []")
    case True
    then show ?thesis using s1 Cons.prems(6) by simp
  next
    case False
    then have ne: "unat (packet_number s) \<noteq> k" using Cons.prems(6) by (cases ps) auto
    have "\<exists>outs s'. send_all ps s1 = Inr (replicate (length ps - 1) False @ [True], outs, s') \<and>
      packet_number s' = 1 \<and>
      loss_sequence_index s' = Suc (loss_sequence_index s1) mod length (loss_sequence s1) \<and>
      last outs \<noteq> None \<and> length outs = length ps"
      by (rule Cons.IH) (use Cons.prems False ne s1 in auto)
    then obtain outs s' where o: "send_all ps s1 = Inr (replicate (length ps - 1) False @ [True], outs, s')"
      "packet_number s' = 1" "loss_sequence_index s' = Suc (loss_sequence_index s) mod length (loss_sequence s)"
      "last outs \<noteq> None" "length outs = length ps" using s1(3,4) ne by auto
    moreover have "length ps = Suc (length ps - 1)" using False by (cases ps) auto
    then have "replicate (length ps) False = False # replicate (length ps - 1) False"
      by (metis replicate_Suc)
    moreover have "outs \<noteq> []" using o(5) False by auto
    ultimately show ?thesis using s1(1) ne by simp
  qed
qed simp

text \<open>
  C40: the cycle of simulated triple duplicate acknowledgements: with \<open>k\<close> the current entry of the
  loss sequence, exactly the last of the next \<open>k\<close> packets is reported, that packet is always
  given to the socket, and the link goes on to the next entry, cyclically, counting from one.
\<close>

theorem triple_duplicate_cycle:
  assumes "sender_ok s" "packet_number s = 1" "loss_sequence s ! loss_sequence_index s = int k"
    and "0 < k" "k < 2 ^ 31" "length ps = k" "\<forall>p \<in> set ps. succeeds (pack p)"
  shows "\<exists>outs s'. send_all ps s = Inr (replicate (k - 1) False @ [True], outs, s') \<and>
    last outs \<noteq> None \<and> packet_number s' = 1 \<and>
    loss_sequence_index s' = Suc (loss_sequence_index s) mod length (loss_sequence s)"
  using send_all_cycle [OF assms(1,7,3,5)] assms(2,4,6) by auto

theorem triple_duplicate_cycle_witness:
  "\<exists>outs s'. send_all [mk_packet [1] 1, mk_packet [2] 2] (set_loss_sequence [2, 5] initial_sender)
       = Inr ([False, True], outs, s') \<and> last outs \<noteq> None \<and> loss_sequence_index s' = 1"
proof -
  let ?s = "set_loss_sequence [2, 5] initial_sender"
  have "sender_ok ?s" "packet_number ?s = 1"
    "loss_sequence ?s ! loss_sequence_index ?s = int 2" "length (loss_sequence ?s) = 2"
    "loss_sequence_index ?s = 0"
    by (simp_all add: sender_ok_def set_loss_sequence_def initial_sender_def generator_ok_def
        MINSTD_MODULUS_def)
  then show ?thesis
    using triple_duplicate_cycle [of ?s 2 "[mk_packet [1] 1, mk_packet [2] 2]"]
    by (auto simp: pack_mk_packet simp del: send_all.simps)
qed

text \<open>
  The two ends of the loss probability: at most 0 the link gives every packet to the socket,
  at least 100 it gives none, except the packets it reports a triple duplicate for.
\<close>

theorem loss_probability_ends:
  assumes "sender_ok s" "pack p = Inr d"
  shows "\<exists>dup out s'. send_packet p s = Inr (dup, out, s') \<and>
    (loss_probability s \<le> 0 \<longrightarrow> out = Some d) \<and>
    (100 \<le> loss_probability s \<longrightarrow> (out = Some d \<longleftrightarrow> dup))"
proof -
  obtain x g where dr: "draw (generator s) = (x, g)" by (cases "draw (generator s)")
  have "0 < x" "x < 100" using assms(1) draw_bounds [OF _ dr] by (auto simp: sender_ok_def)
  moreover obtain dup out s' where "send_packet p s = Inr (dup, out, s')"
    using send_packet_ok [OF assms] by blast
  ultimately show ?thesis using assms(2) dr
    by (auto simp: send_packet_def Let_def split: if_splits)
qed

theorem loss_probability_ends_witness:
  "\<exists>dup out s'. send_packet (mk_packet [1] 1) (set_probability 1 (set_loss_sequence [9] initial_sender))
       = Inr (dup, out, s') \<and> (out = Some (wire [1] 1) \<longleftrightarrow> dup)"
proof -
  let ?s = "set_probability 1 (set_loss_sequence [9] initial_sender)"
  have "sender_ok ?s" "100 \<le> loss_probability ?s"
    by (simp_all add: sender_ok_def set_loss_sequence_def set_probability_def initial_sender_def
        generator_ok_def MINSTD_MODULUS_def)
  moreover have "pack (mk_packet [1] 1) = Inr (wire [1] 1)" by (simp add: pack_mk_packet)
  ultimately show ?thesis
    using loss_probability_ends [of ?s "mk_packet [1] 1" "wire [1] 1"] by blast
qed

text \<open>
  From any seed, every draw of the generator lies strictly between 0 and 100: the generator
  never gets stuck at zero, and no draw is at the bounds the loss probability is compared at.
\<close>

theorem draws_in_range:
  "0 < fst (draw (((\<lambda>g. snd (draw g)) ^^ k) (minstd_seed seed))) \<and>
   fst (draw (((\<lambda>g. snd (draw g)) ^^ k) (minstd_seed seed))) < 100"
proof -
  have "generator_ok (((\<lambda>g. snd (draw g)) ^^ k) (minstd_seed seed))"
  proof (induction k)
    case 0
    then show ?case by (simp add: minstd_seed_ok)
  next
    case (Suc k)
    then show ?case using draw_bounds(3) [OF Suc.IH, of "fst (draw (((\<lambda>g. snd (draw g)) ^^ k) (minstd_seed seed)))"]
      by simp
  qed
  from draw_bounds(1,2) [OF this prod.collapse [symmetric]] show ?thesis by blast
qed

text \<open>
  A loss sequence the link cannot use: when it is empty, or when the entry reached is zero
  (modulo \<open>2 ^ 64\<close>), the first packet sent reads outside the vector, or divides by zero.
\<close>

theorem bad_loss_sequence:
  "send_packet p (set_loss_sequence [] s) = Inl Bad_Index \<and>
   send_packet p (initial_sender\<lparr>loss_sequence := 0 # ks\<rparr>) = Inl Division_By_Zero"
  by (simp add: send_packet_def set_loss_sequence_def initial_sender_def Let_def)

end
