(* ===== verification/Sender_Properties.thy ===== *)
theory Sender_Properties
  imports Timer_Race
begin

text \<open>
  The operations of the selective-repeat sender one by one: acknowledgements, the window's
  size, timeouts.
\<close>

text \<open>A sender that has just started on the two bytes of the example.\<close>

lemma example_sender:
  obtains s where "sr_inv [example_file] (\<lambda>_. True) s" "sr_core [example_file] (\<lambda>_. True) s"
proof -
  obtain s where "sr_inv (chunks example_file) (\<lambda>_. True) s"
    using sr_initial_inv [OF example_usable(1,2), of "\<lambda>k. k" "\<lambda>_. True"] by blast
  moreover have "chunks example_file = [example_file]" by (simp add: chunks_step example_file_def)
  ultimately have "sr_inv [example_file] (\<lambda>_. True) s" by simp
  then show ?thesis by (intro that [of s]) (simp_all add: sr_inv_def)
qed

section \<open>Acknowledgements\<close>

text \<open>
  C20: \<open>acknowledge_packet\<close> never fails and keeps the sender's invariant, whatever the
  acknowledgement is, as long as an intact one names a packet that has been received.
\<close>

theorem acknowledge_keeps_invariant:
  assumes "sr_inv ds R s"
    and "calculate_ack_checksum a = Inr (ack_cksum a) \<Longrightarrow> R (unat (ackno a))"
  shows "\<exists>s'. sr_acknowledge_packet a s = Inr s' \<and> sr_inv ds R s'"
  by (rule sr_acknowledge_inv [OF assms(1)]) (use assms(2) in \<open>simp add: calculate_ack_checksum_eq\<close>)

theorem acknowledge_keeps_invariant_witness:
  "\<exists>s s'. sr_acknowledge_packet (mk_ack 1) s = Inr s' \<and> sr_inv [example_file] (\<lambda>_. True) s'"
  by (rule example_sender) (metis acknowledge_keeps_invariant)

text \<open>
  An acknowledgement that is damaged, or names no packet of the window, or one that is already
  acknowledged, changes nothing but the history of window sizes.
\<close>

theorem idle_acknowledgement:
  assumes inv: "sr_inv ds R s"
    and idle: "calculate_ack_checksum a \<noteq> Inr (ack_cksum a) \<or>
      (\<forall>b \<in> set (window s). \<exists>p. packet_at b s = Inr p \<and> (seqno p = ackno a \<longrightarrow> acked p))"
  shows "sr_acknowledge_packet a s =
    Inr (s\<lparr>window_size_history := window_size_history s @ [window_size s]\<rparr>)"
proof (cases "calculate_ack_checksum a = Inr (ack_cksum a)")
  case False
  then show ?thesis by (auto simp: sr_acknowledge_packet_def calculate_ack_checksum_eq)
next
  case True
  let ?h = "s\<lparr>window_size_history := window_size_history s @ [window_size s]\<rparr>"
  let ?s = "?h\<lparr>wnd_mutex := True\<rparr>"
  have wm: "\<not> wnd_mutex s" using inv by (simp add: sr_inv_def)
  have at: "packet_at b ?s = packet_at b s" for b by (simp add: packet_at_def)
  have w: "\<forall>b \<in> set (window s). \<exists>p. packet_at b s = Inr p \<and> (seqno p = ackno a \<longrightarrow> acked p)"
    using idle True by simp
  have f: "\<exists>r. find_seqno (ackno a) i bs ?s = Inr r \<and>
      (\<forall>k b. r = Some (k, b) \<longrightarrow> (\<exists>p. packet_at b ?s = Inr p \<and> acked p))"
    if "set bs \<subseteq> set (window s)" for i bs
    using that
  proof (induction bs arbitrary: i)
    case (Cons b bs)
    then obtain p where p: "packet_at b s = Inr p" "seqno p = ackno a \<longrightarrow> acked p" using w by auto
    show ?case
    proof (cases "ackno a = seqno p")
      case True
      then show ?thesis using p at by simp
    next
      case False
      then show ?thesis using p at Cons by simp
    qed
  qed simp
  from f [of "window s" 0] obtain r where r: "find_seqno (ackno a) 0 (window s) ?s = Inr r"
    "\<forall>k b. r = Some (k, b) \<longrightarrow> (\<exists>p. packet_at b ?s = Inr p \<and> acked p)" by auto
  have "(case r of None \<Rightarrow> Inr ?s | Some (i, b) \<Rightarrow> sr_ack_found i b ?s) = Inr ?s"
    using r(2) by (auto simp: sr_ack_found_def split: option.splits)
  moreover have "unlock_wnd_mutex ?s = ?h" using wm by (cases s) (simp add: unlock_wnd_mutex_def)
  ultimately show ?thesis
    using True wm r(1) by (simp add: sr_acknowledge_packet_def lock_wnd_mutex_def Let_def)
qed

theorem idle_acknowledgement_witness:
  "\<exists>s. sr_acknowledge_packet ((mk_ack 1)\<lparr>ack_cksum := 0\<rparr>) s =
     Inr (s\<lparr>window_size_history := window_size_history s @ [window_size s]\<rparr>)"
proof -
  have "calculate_ack_checksum ((mk_ack 1)\<lparr>ack_cksum := 0\<rparr>) \<noteq> Inr 0"
    by (simp add: calculate_ack_checksum_eq checksum_of_eq_0 content_sum_pos)
  moreover obtain s where "sr_inv [example_file] (\<lambda>_. True) s" by (rule example_sender)
  ultimately show ?thesis using idle_acknowledgement [of _ _ s "(mk_ack 1)\<lparr>ack_cksum := 0\<rparr>"] by fastforce
qed

section \<open>The size of the window\<close>

lemma expand_window_stops:
  "expand_window s = Inr s' \<Longrightarrow>
   \<not> (window_open s' \<and> (aux_window s' \<noteq> [] \<or> has_next (pkt_builder s')))"
proof (induction s rule: expand_window.induct)
  case (1 s)
  show ?case
  proof (cases "window_open s \<and> (aux_window s \<noteq> [] \<or> has_next (pkt_builder s))")
    case False
    then have "expand_window s = Inr s" by (subst expand_window.simps) (simp only: if_False)
    then show ?thesis using "1.prems" False by simp
  next
    case True
    with "1.prems" obtain x s1 s2 where x: "next_to_send s = Inr x"
      and s1: "set_packet (fst x) (set_ack False) (snd x) = Inr s1"
      and s2: "sr_send_packet (fst x) (s1\<lparr>window := window s1 @ [fst x]\<rparr>) = Inr s2"
      and e: "expand_window s2 = Inr s'"
      by (subst (asm) expand_window.simps) (auto simp: rbind_Inr_iff)
    show ?thesis by (rule "1.IH" [OF True x s1 s2 e])
  qed
qed

text \<open>
  C39: \<open>expand_window\<close> ends, does not fail, and stops only when the window has its full size or
  there is nothing left to send; it keeps the packets and their order.
\<close>

theorem expand_window_fills:
  assumes "sr_core ds R s" "front_ok s"
  shows "\<exists>s'. expand_window s = Inr s' \<and> sr_core ds R s' \<and>
    (length (window s') = nat (window_size s') \<or> aux_window s' = [] \<and> \<not> has_next (pkt_builder s'))"
proof -
  obtain s' where s': "expand_window s = Inr s'" "sr_core ds R s'"
    using expand_window_core [OF assms] by blast
  have "length (window s') \<le> nat (window_size s')" using s'(2) by (simp add: sr_core_def sr_sizes_def)
  then show ?thesis
    using s' expand_window_stops [OF s'(1)] core_window_open [OF s'(2)] by force
qed

theorem expand_window_fills_witness:
  "\<exists>s s'. expand_window s = Inr s' \<and>
     (length (window s') = nat (window_size s') \<or> aux_window s' = [] \<and> \<not> has_next (pkt_builder s'))"
proof -
  obtain s where "sr_inv [example_file] (\<lambda>_. True) s" by (rule example_sender)
  then have "sr_core [example_file] (\<lambda>_. True) s" "front_ok s" by (simp_all add: sr_inv_def)
  from expand_window_fills [OF this] show ?thesis by blast
qed

text \<open>
  \<open>shrink_window\<close> keeps the first packets of the window, moves the others in order to the
  front of the auxiliary window, takes from the timer's set exactly the packets with the time
  stamp of a moved one, halves the threshold, and never makes window size or threshold less
  than one.
\<close>

theorem shrink_window_moves_tail:
  assumes "sr_core ds R s" "n \<le> max_window_size s"
  shows "\<exists>s'. shrink_window n s = Inr s' \<and> sr_core ds R s' \<and> window_size s' = max 1 n \<and>
    threshold s' = max 1 (window_size s div 2) \<and>
    window s' = take (nat (max 1 n)) (window s) \<and>
    aux_window s' = drop (nat (max 1 n)) (window s) @ aux_window s \<and>
    set (unacked_packets s') =
      {a \<in> set (unacked_packets s). stamp s a \<notin> stamp s ` set (drop (nat (max 1 n)) (window s))}"
proof -
  have sz: "1 \<le> window_size s" "max_window_size s < 2 ^ 31" and t: "sr_timed s"
    using assms(1) by (auto simp: sr_core_def sr_sizes_def)
  let ?k = "nat (max 1 n)"
  have w: "(if n < 1 then 1 else n) = max 1 n" by simp
  have h: "half (window_size s) = window_size s div 2" using sz by (simp add: half_nonneg)
  have u: "set (erase_all (stamp s) (unacked_packets s) (drop ?k (window s)))
      = {a \<in> set (unacked_packets s). stamp s a \<notin> stamp s ` set (drop ?k (window s))}"
    using erase_all_ok t by (auto simp: sr_timed_def)
  show ?thesis
    using shrink_window_eq [OF assms(1), of n] shrunk_core [OF assms] assms(2) sz u
    by (intro exI [of _ "shrunk n s"]) (simp add: shrunk_def Let_def w h max_def)
qed

theorem shrink_window_moves_tail_witness:
  "\<exists>s s'. shrink_window 0 s = Inr s' \<and> sr_core [example_file] (\<lambda>_. True) s' \<and> window_size s' = 1"
proof -
  obtain s where c: "sr_core [example_file] (\<lambda>_. True) s" by (rule example_sender)
  then have "0 \<le> max_window_size s" by (simp add: sr_core_def sr_sizes_def)
  from shrink_window_moves_tail [OF c this] show ?thesis by auto
qed

text \<open>
  \<open>adjust_window_size\<close>: below the threshold the window doubles, from there on it grows by
  one; it never exceeds the maximum and never stops growing before it.
\<close>

theorem adjust_window_size_grows:
  assumes "1 \<le> window_size s" "window_size s \<le> max_window_size s"
  shows "window_size (adjust_window_size s) =
      min (max_window_size s)
        (if window_size s < threshold s then 2 * window_size s else window_size s + 1) \<and>
    window_size s \<le> window_size (adjust_window_size s) \<and>
    (window_size (adjust_window_size s) = window_size s \<longleftrightarrow> window_size s = max_window_size s)"
  using assms by (auto simp: adjust_window_size_def Let_def)

theorem adjust_window_size_grows_witness:
  "window_size (adjust_window_size
     ((base_strategy undefined undefined undefined 1 3 8 4))) = 6"
  using adjust_window_size_grows [of "base_strategy undefined undefined undefined 1 3 8 4"]
  by (simp add: base_strategy_def)

section \<open>Timeouts\<close>

text \<open>The timer thread running \<open>k\<close> of its steps without interruption.\<close>

fun timer_run :: "nat \<Rightarrow> timer_pc \<Rightarrow> rdt_strategy \<Rightarrow> (timer_pc \<times> rdt_strategy) res" where
  "timer_run 0 pc s = Inr (pc, s)"
| "timer_run (Suc k) pc s = rbind (sr_timer_step pc s) (\<lambda>(pc, s). timer_run k pc s)"

text \<open>
  What sending the packet at \<open>a\<close> does to the link and to the packet: \<open>send_packet\<close> gets
  it, what the link lets through is sent, and its time stamp is the clock reading \<open>t\<close>.
\<close>

definition sent_now :: "ptr \<Rightarrow> nat \<Rightarrow> rdt_strategy \<Rightarrow> rdt_strategy \<Rightarrow> bool" where
  "sent_now a t s s' \<longleftrightarrow>
     (\<exists>p dup out. packet_at a s = Inr p \<and> send_packet p (sender s) = Inr (dup, out, sender s') \<and>
        sent s' = sent s @ (case out of None \<Rightarrow> [] | Some d \<Rightarrow> [d]) \<and> stamp s' a = t)"

lemma transmit_sent: "transmit a s = Inr (dup, s') \<Longrightarrow> sent_now a (clock s (ticks s)) s s'"
  by (auto simp: sent_now_def transmit_def now_def set_packet_def update_def locked_insert_unacked_def
      lock_set_mutex_def insert_unacked_def unlock_set_mutex_def Let_def rbind_Inr_iff stamp_def set_time_stamp_def
      split: if_splits option.splits)

lemma sent_now_cong:
  "sent_now a t s s' \<Longrightarrow> mem s = mem r \<Longrightarrow> sender s = sender r \<Longrightarrow> sent s = sent r \<Longrightarrow>
   mem s' = mem r' \<Longrightarrow> sender s' = sender r' \<Longrightarrow> sent s' = sent r' \<Longrightarrow> sent_now a t r r'"
  by (simp add: sent_now_def packet_at_def stamp_def)

text \<open>The resend, exactly: window of one packet, the rest in the auxiliary window.\<close>

lemma send_single:
  assumes "sr_send_packet a s = Inr s'" "window s = [a]" "window_size s = 1"
  shows "window s' = [a]" "aux_window s' = aux_window s" "window_size s' = 1" "unacked_packets s' \<noteq> []"
    "sent_now a (clock s (ticks s)) s s'"
proof -
  from assms(1) obtain dup s1 where t: "transmit a s = Inr (dup, s1)" and
    r: "(if dup then shrink_window (half (window_size s1)) s1 else Inr s1) = Inr s'"
    by (auto simp: sr_send_packet_def rbind_Inr_iff)
  note f = transmit_frame [OF t]
  have h: "half (window_size s1) = 0" using f assms(3) by (simp add: half_def)
  then show "window s' = [a]" "aux_window s' = aux_window s" "window_size s' = 1"
    using r f assms(2,3) by (auto simp: shrink_window_def Let_def split: if_splits)
  have "mem s' = mem s1" "sender s' = sender s1" "sent s' = sent s1"
    using h r f assms(2,3) by (auto simp: shrink_window_def Let_def split: if_splits)
  then show "sent_now a (clock s (ticks s)) s s'" using sent_now_cong [OF transmit_sent [OF t]] by simp
  show "unacked_packets s' \<noteq> []" using sr_send_timed [OF assms(1)] assms(2,3) by simp
qed

lemma single_timed:
  assumes "sr_core ds R s" "window s = [a]" "unacked_packets s \<noteq> []"
  shows "unacked_packets s = [a]"
proof -
  have "set (unacked_packets s) \<subseteq> {a}" "distinct (unacked_packets s)"
    using assms by (auto simp: sr_core_def sr_timed_def intro: sorted_by_distinct)
  with assms(3) show ?thesis by (cases "unacked_packets s"; cases "tl (unacked_packets s)") auto
qed

lemma resend_exact:
  assumes inv: "sr_inv ds R s" and w: "window s = a # as"
  shows "\<exists>s'. sr_timer_resend s = Inr s' \<and> sr_inv ds R s' \<and> window s' = [a] \<and>
    aux_window s' = as @ aux_window s \<and> window_size s' = 1 \<and> unacked_packets s' = [a] \<and>
    sent_now a (clock s (ticks s)) s s'"
proof -
  let ?l = "s\<lparr>wnd_mutex := True\<rparr>"
  have "sr_core ds R ?l = sr_core ds R s" by (rule core_cong) simp_all
  then have core: "sr_core ds R ?l" using inv by (simp add: sr_inv_def)
  have sh: "shrink_window 1 ?l = Inr (shrunk 1 ?l)" by (rule shrink_window_eq [OF core]) simp
  have k: "window (shrunk 1 ?l) = [a]" "aux_window (shrunk 1 ?l) = as @ aux_window s"
    "window_size (shrunk 1 ?l) = 1" using w by (simp_all add: shrunk_def Let_def)
  obtain s' where s': "sr_timer_resend s = Inr s'" "sr_inv ds R s'"
    using sr_timer_resend_inv [OF inv] w by auto
  then obtain s3 where s3: "sr_send_packet a (shrunk 1 ?l) = Inr s3" "s' = unlock_wnd_mutex s3"
    using inv sh k(1) by (auto simp: sr_timer_resend_def lock_wnd_mutex_def sr_inv_def rbind_Inr_iff)
  note x = send_single [OF s3(1) k(1,3)]
  have f: "window s' = [a]" "aux_window s' = as @ aux_window s" "window_size s' = 1" "unacked_packets s' \<noteq> []"
    using x k(2) by (simp_all add: s3(2) unlock_wnd_mutex_def)
  have "sent_now a (clock s (ticks s)) s s'"
    by (rule sent_now_cong [OF x(5), where r = s and r' = s', unfolded shrunk_def Let_def, simplified])
       (simp_all add: s3(2) unlock_wnd_mutex_def)
  note f = f this
  have "sr_core ds R s'" using s'(2) by (simp add: sr_inv_def)
  from single_timed [OF this f(1,4)] f s' show ?thesis by blast
qed

text \<open>The packet at the front of the window is the one after those that are acknowledged.\<close>

lemma front_packet:
  assumes "sr_core ds R s" "window s \<noteq> []" "packet_at (hd (window s)) s = Inr p"
  shows "pack p = Inr (data_wire_of ds (Suc (unat (packets_sent s))))"
proof -
  from assms(1) obtain dd dw rest where pay: "payloads_ok ds" and l: "sr_layout ds dd dw rest s"
    by (auto simp: sr_core_def sr_data_def)
  have "0 < length dw" "in_flight s ! 0 = hd (window s)"
    using assms(2) layout_length [OF l] by (auto simp: in_flight_def hd_conv_nth nth_append)
  with layout_packet [OF pay l, of 0] obtain q where
    "cells (mem s) (hd (window s)) = Some q" "pack q = Inr (data_wire_of ds (Suc (length dd)))" by auto
  then show ?thesis using assms(3) packets_sent_number [OF pay l] by (simp add: packet_at_def deref_def)
qed

text \<open>The round up to the resend: the expired packet leaves the timer's set, and nothing else changes.\<close>

lemma timer_run_snoc: "timer_run (Suc k) pc s = rbind (timer_run k pc s) (\<lambda>(pc, s). sr_timer_step pc s)"
proof (induction k arbitrary: pc s)
  case 0
  show ?case by (cases "sr_timer_step pc s") auto
next
  case (Suc k)
  show ?case
  proof (cases "sr_timer_step pc s")
    case (Inr x)
    then show ?thesis using Suc [of "fst x" "snd x"] by (cases x) simp
  qed simp
qed

lemma timeout_erases:
  assumes inv: "sr_inv ds R s" and u: "unacked_packets s = b # us"
    and expired: "stamp s b + PACKET_TIME_OUT \<le> clock s (ticks s)"
  shows "\<exists>as. timer_run 4 T_Begin s = Inr (T_Resend, s\<lparr>ticks := Suc (ticks s), unacked_packets := as\<rparr>) \<and>
    sr_inv ds R (s\<lparr>ticks := Suc (ticks s), unacked_packets := as\<rparr>) \<and> window s \<noteq> []"
proof -
  have core: "sr_core ds R s" and m: "\<not> set_mutex s" "\<not> wnd_mutex s"
    using inv by (simp_all add: sr_inv_def sr_core_def)
  have live: "all_live (unacked_packets s) s" by (rule core_unacked_live [OF core])
  have wlive: "all_live (window s) s" by (rule core_live [OF core]) (simp add: in_flight_def)
  have "b \<in> set (window s)" using core u by (simp add: sr_core_def sr_timed_def)
  then obtain a as where w: "window s = a # as" by (cases "window s") auto
  have 1: "sr_timer_step T_Begin s = Inr (T_Compare b, s)"
    using m u by (simp add: rbind_Inr_iff timer_first_Inr)
  let ?s1 = "s\<lparr>ticks := Suc (ticks s)\<rparr>"
  obtain p where p: "packet_at b ?s1 = Inr p" "time_stamp p = stamp s b"
    using live u by (auto simp: all_live_def packet_at_def deref_def stamp_def split: option.splits)
  then have 2: "sr_timer_step (T_Compare b) s = Inr (T_Erase b, ?s1)"
    using expired by (simp add: timer_expired_def now_def)
  let ?s2 = "?s1\<lparr>unacked_packets := set_erase (by_key (stamp s)) b (unacked_packets s)\<rparr>"
  have st: "stamp ?s1 = stamp s" by (rule stamp_cong) simp
  have lu: "all_live (unacked_packets ?s1) ?s1" "all_live (b # unacked_packets ?s1) ?s1"
    using live u by (auto simp: all_live_def)
  have "sr_timer_erase b ?s1 = locked_erase_unacked b ?s1"
    using m u lu by (auto simp: sr_timer_erase_def locked_erase_unacked_def lock_set_mutex_def all_live_def)
  also have "\<dots> = Inr ?s2" using m lu(2) by (subst locked_erase_eq) (simp_all add: st)
  finally have 3: "sr_timer_step (T_Erase b) ?s1 = Inr (T_Print, ?s2)" by simp
  have "sr_inv ds R ?s1" using inv sr_inv_ticks by blast
  then have i2: "sr_inv ds R ?s2" by (rule sr_timer_step_inv [OF _ 3])
  have 4: "sr_timer_step T_Print ?s2 = Inr (T_Resend, ?s2)"
    using m w wlive
    by (simp add: sr_timer_print_def lock_wnd_mutex_def unlock_wnd_mutex_def all_live_def wnd_mutex_False)
  have "timer_run 4 T_Begin s = Inr (T_Resend, ?s2)"
    using 1 2 3 4 by (simp add: numeral_eq_Suc del: sr_timer_step.simps(1-5))
  with i2 w show ?thesis by auto
qed

text \<open>
  C23: a timeout without interruption: when the first packet of the timer's set has expired, one
  round of the timer thread does not fail and brings the window back to one packet, the oldest
  one, all others going to the auxiliary window in order. That packet, the one after those
  acknowledged, is given to the link again: what the link lets through is sent, the link has
  advanced by that packet alone, and the packet has a new time stamp and is timed again.
\<close>

theorem timeout_round:
  assumes inv: "sr_inv ds R s" and u: "unacked_packets s = b # us"
    and expired: "stamp s b + PACKET_TIME_OUT \<le> clock s (ticks s)"
  shows "\<exists>s'. timer_run 5 T_Begin s = Inr (T_Loop, s') \<and> sr_inv ds R s' \<and>
    window s' = [hd (window s)] \<and> aux_window s' = tl (window s) @ aux_window s \<and>
    window_size s' = 1 \<and> unacked_packets s' = [hd (window s)] \<and>
    (\<exists>p dup out. packet_at (hd (window s)) s = Inr p \<and>
       pack p = Inr (data_wire_of ds (Suc (unat (packets_sent s)))) \<and>
       send_packet p (sender s) = Inr (dup, out, sender s') \<and>
       sent s' = sent s @ (case out of None \<Rightarrow> [] | Some d \<Rightarrow> [d]) \<and>
       stamp s' (hd (window s)) = clock s (Suc (ticks s)))"
proof -
  have core: "sr_core ds R s" using inv by (simp add: sr_inv_def)
  obtain ps where 4: "timer_run 4 T_Begin s = Inr (T_Resend, s\<lparr>ticks := Suc (ticks s), unacked_packets := ps\<rparr>)"
    and i2: "sr_inv ds R (s\<lparr>ticks := Suc (ticks s), unacked_packets := ps\<rparr>)" and ne: "window s \<noteq> []"
    using timeout_erases [OF inv u expired] by blast
  let ?s2 = "s\<lparr>ticks := Suc (ticks s), unacked_packets := ps\<rparr>"
  obtain a as where w: "window s = a # as" using ne by (cases "window s") auto
  have "window ?s2 = a # as" using w by simp
  from resend_exact [OF i2 this] obtain s' where s': "sr_timer_resend ?s2 = Inr s'" "sr_inv ds R s'"
    "window s' = [a]" "aux_window s' = as @ aux_window s" "window_size s' = 1" "unacked_packets s' = [a]"
    "sent_now a (clock s (Suc (ticks s))) ?s2 s'"
    by auto
  from sent_now_cong [OF s'(7), where r = s and r' = s'] have "sent_now a (clock s (Suc (ticks s))) s s'" by simp
  then obtain p dup out where x: "packet_at a s = Inr p" "send_packet p (sender s) = Inr (dup, out, sender s')"
    "sent s' = sent s @ (case out of None \<Rightarrow> [] | Some d \<Rightarrow> [d])" "stamp s' a = clock s (Suc (ticks s))"
    by (auto simp: sent_now_def)
  have "pack p = Inr (data_wire_of ds (Suc (unat (packets_sent s))))" using front_packet [OF core] w x(1) by simp
  have "timer_run 5 T_Begin s = Inr (T_Loop, s')"
    using 4 s'(1) timer_run_snoc [of 4 T_Begin s] by (simp add: numeral_eq_Suc del: timer_run.simps)
  moreover note \<open>pack p = _\<close> x
  ultimately show ?thesis using s' w by (intro exI [of _ s']) auto
qed

theorem timeout_round_witness:
  "\<exists>s s' p dup out. timer_run 5 T_Begin s = Inr (T_Loop, s') \<and> window_size s' = 1 \<and>
     unacked_packets s' = [hd (window s)] \<and> send_packet p (sender s) = Inr (dup, out, sender s') \<and>
     sent s' = sent s @ (case out of None \<Rightarrow> [] | Some d \<Rightarrow> [d])"
proof -
  obtain s b where s: "sr_inv [example_file] (\<lambda>_. False) s" "unacked_packets s = [b]"
    using one_packet_start [OF example_usable(1,2), of "\<lambda>k. k"] by (auto simp: example_file_def)
  let ?s = "s\<lparr>clock := (\<lambda>_. stamp s b + PACKET_TIME_OUT)\<rparr>"
  have "sr_core [example_file] (\<lambda>_. False) ?s = sr_core [example_file] (\<lambda>_. False) s"
    by (rule core_cong) simp_all
  then have "sr_inv [example_file] (\<lambda>_. False) ?s"
    using s(1) by (simp add: sr_inv_def front_ok_def acked_at_def)
  moreover have "stamp ?s b = stamp s b" by (simp add: stamp_def)
  ultimately obtain s' p dup out where "timer_run 5 T_Begin ?s = Inr (T_Loop, s')" "window_size s' = 1"
    "unacked_packets s' = [hd (window ?s)]" "send_packet p (sender ?s) = Inr (dup, out, sender s')"
    "sent s' = sent ?s @ (case out of None \<Rightarrow> [] | Some d \<Rightarrow> [d])"
    using timeout_round [of "[example_file]" "\<lambda>_. False" ?s b "[]"] s(2) by auto
  then show ?thesis by blast
qed

section \<open>The order of the timer's set\<close>

text \<open>
  The timer's set is ordered by time stamps alone: a packet sent at the same clock reading as
  one that is already in the set is not inserted, so no timeout will ever resend it on its own.
\<close>

theorem equal_time_stamps_lost:
  assumes "all_live (a # unacked_packets s) s" "sorted_by (stamp s) (unacked_packets s)"
    and "b \<in> set (unacked_packets s)" "stamp s b = stamp s a"
  shows "insert_unacked a s = Inr s"
proof -
  have "set_insert (by_key (stamp s)) a xs = xs"
    if "sorted_by (stamp s) xs" "b \<in> set xs" for xs
    using that assms(4) by (induction xs) (auto simp: by_key_def sorted_by_Cons)
  then show ?thesis
    using assms by (simp add: insert_unacked_def time_comparator_stamp)
qed

theorem equal_time_stamps_lost_witness:
  "\<exists>s. unacked_packets s = [0] \<and> cells (mem s) 1 \<noteq> None \<and> insert_unacked 1 s = Inr s"
proof -
  let ?s = "(base_strategy undefined undefined undefined 1 1 1 1)
    \<lparr>mem := \<lparr>cells = [0 \<mapsto> mk_packet [1] 1, 1 \<mapsto> mk_packet [2] 2], next_addr = 2\<rparr>,
     unacked_packets := [0]\<rparr>"
  have "insert_unacked 1 ?s = Inr ?s"
    by (rule equal_time_stamps_lost [of _ _ 0])
       (simp_all add: all_live_def stamp_def sorted_by_Cons)
  then show ?thesis by (intro exI [of _ ?s]) simp
qed

end
