(* ===== verification/Client_Properties.thy ===== *)
theory Client_Properties
  imports Client_Go_Back_N_Inv Wire_Properties
begin

text \<open>
  What the client's two strategies do with one datagram, and what go-back-N does with a
  sequence of them.
\<close>

section \<open>Selective repeat\<close>

lemma succeeds_rbind:
  "(\<And>x. m = Inr x \<Longrightarrow> succeeds (f x)) \<Longrightarrow> succeeds (rbind m f) \<longleftrightarrow> succeeds m"
  by (cases m) auto

lemma to_size_t_minus_1: "to_size_t (-1) = 2 ^ 64 - 1"
  by (subst to_size_t_neg) simp_all

text \<open>
  C38: which datagrams the client survives: \<open>run\<close> returns exactly for datagrams of at least eight
  bytes, whatever they hold; a shorter one, and an error of \<open>recvfrom\<close>, raise an uncaught
  exception or are undefined.
\<close>

theorem client_survives:
  "(succeeds (sr_client_run (Some x) c) \<longleftrightarrow> 8 \<le> length x) \<and> sr_client_run None c = Inl Length_Error"
proof -
  let ?x = "take MAX_PKT_SIZE x"
  have x: "length ?x < 2 ^ 63" "8 \<le> length ?x \<longleftrightarrow> 8 \<le> length x" by (auto simp: MAX_PKT_SIZE_def)
  have "succeeds (sr_client_run (Some x) c)
      \<longleftrightarrow> succeeds (data_packet_of_buffer ?x (int (length ?x)))"
    unfolding sr_client_run_def recvfrom_def option.case Let_def prod.case
    by (rule succeeds_rbind) (auto simp: calculate_checksum_eq)
  moreover have "sr_client_run None c = Inl Length_Error"
    by (simp add: sr_client_run_def recvfrom_def data_packet_of_buffer_def string_of_buffer_def
        to_size_t_minus_1)
  ultimately show ?thesis using receive_succeeds [OF x(1)] x(2) by simp
qed

lemma received_below: "cl_core ds e c \<Longrightarrow> j < e \<Longrightarrow> received c j"
  using core_number by (simp add: received_def)

lemma ack_wire_inj: "ack_wire a = ack_wire b \<longleftrightarrow> a = b"
  by (metis ack_packet_of_wire append_Nil2 mk_ack_simps(1) sum.inject(2))

text \<open>
  C24: delivery in order: when the packet the client expects arrives, it and all the packets
  buffered after it without a gap are written, the client goes on to expect the first packet it
  has not received, and it acknowledges the packet that arrived.
\<close>

theorem expected_packet_flushes:
  assumes inv: "cl_inv ds c" and i: "unat (expected_seqno c) = i" "i \<le> length ds"
    and n: "1 \<le> cl_window_size c" "cl_window_size c < 2 ^ 31"
  shows "\<exists>c'. sr_client_run (Some (data_wire_of ds i)) c = Inr c' \<and> i < unat (expected_seqno c') \<and>
    (\<forall>j. i < j \<and> j < unat (expected_seqno c') \<longrightarrow> received c j) \<and>
    (unat (expected_seqno c') \<le> length ds \<longrightarrow> \<not> received c (unat (expected_seqno c'))) \<and>
    cl_output c' = concat (take (unat (expected_seqno c') - 1) ds) \<and>
    ack_wire (of_nat i) \<in> set (cl_sent c')"
proof -
  let ?c' = "accept (ds ! (i - 1)) (of_nat i) c"
  obtain e where "cl_core ds e c" using inv by (auto simp: cl_inv_def)
  then have core: "cl_core ds i c" and i1: "1 \<le> i" using i core_number [of ds e c] by (auto simp: cl_core_def)
  have run: "sr_client_run (Some (data_wire_of ds i)) c = Inr ?c'"
    unfolding data_wire_of_def
    by (rule run_wire) (use core i1 i in \<open>auto simp: cl_core_def payloads_ok_def\<close>)
  have inv': "cl_inv ds ?c'" and r: "\<forall>j \<le> length ds. received c j \<longrightarrow> received ?c' j"
    and r': "\<forall>j \<le> length ds. received ?c' j \<longrightarrow> received c j \<or> j = i"
    using accept_packet [OF inv i1 i(2)] by auto
  have ack: "ack_wire (of_nat i) \<in> set (cl_sent ?c')"
    by (rule accept_acks [OF inv i1 i(2) _ n]) (simp add: i(1))
  have ri: "received ?c' i"
  proof -
    obtain k where k: "k \<le> length ds" "received ?c' k" "ack_wire (of_nat i) = ack_wire (of_nat k)"
      using inv' ack by (auto simp: cl_inv_def acks_ok_def)
    then have "k = i"
      using i(2) core_small [OF core, of i] core_small [OF core, of k]
      by (simp add: ack_wire_inj of_nat_32_inj)
    with k(2) show ?thesis by simp
  qed
  obtain e' where core': "cl_core ds e' ?c'" and e': "of_nat e' \<notin> seqno ` set (cl_window ?c')"
    using inv' by (auto simp: cl_inv_def)
  have ex: "unat (expected_seqno ?c') = e'" by (rule core_number [OF core'])
  have nr: "\<not> received ?c' e'" using e' ex by (simp add: received_def)
  have "i < e'"
  proof (rule ccontr)
    assume "\<not> i < e'"
    moreover have "e' \<noteq> i" using nr ri by auto
    ultimately have "e' < i" by simp
    then have "received c e'" by (rule received_below [OF core])
    then show False using r nr \<open>e' < i\<close> i(2) by simp
  qed
  moreover have "received c j" if "i < j" "j < e'" for j
  proof -
    have "j \<le> length ds" using that core' by (simp add: cl_core_def)
    with r' received_below [OF core' that(2)] that(1) show ?thesis by blast
  qed
  moreover have "e' \<le> length ds \<longrightarrow> \<not> received c e'" using r nr by blast
  moreover have "cl_output ?c' = concat (take (e' - 1) ds)" using core' by (simp add: cl_core_def)
  ultimately show ?thesis using run ex ack by (intro exI [of _ ?c']) simp
qed

theorem expected_packet_flushes_witness:
  "\<exists>c'. sr_client_run (Some (data_wire_of [[7], [8]] 1))
      (new_client_selective_repeat 1 (fw_open True [] new_file_writer)) = Inr c' \<and>
     expected_seqno c' = 2 \<and> cl_output c' = [7]"
proof -
  let ?c = "new_client_selective_repeat 1 (fw_open True [] new_file_writer)"
  have pay: "payloads_ok [[7], [8]]" by (simp add: payloads_ok_def)
  have inv: "cl_inv [[7], [8]] ?c" by (rule client_initial [OF pay]) (simp add: new_file_writer_def)
  have f: "unat (expected_seqno ?c) = 1" "1 \<le> cl_window_size ?c" "cl_window_size ?c < 2 ^ 31"
    and nr: "\<not> received ?c 2"
    by (simp_all add: new_client_selective_repeat_def received_def)
  have len: "1 \<le> length [[7], [8 :: byte]]" by simp
  from expected_packet_flushes [OF inv f(1) len f(2,3)] obtain c' where
    c': "sr_client_run (Some (data_wire_of [[7], [8]] 1)) ?c = Inr c'" "1 < unat (expected_seqno c')"
    "\<forall>j. 1 < j \<and> j < unat (expected_seqno c') \<longrightarrow> received ?c j"
    "cl_output c' = concat (take (unat (expected_seqno c') - 1) [[7], [8]])" by blast
  have "\<not> 2 < unat (expected_seqno c')" using c'(3) nr by auto
  then have e: "unat (expected_seqno c') = 2" using c'(2) by simp
  then have "expected_seqno c' = 2" by (simp add: word_unat_eq_iff)
  with c'(1,4) e show ?thesis by (intro exI [of _ c']) simp
qed

text \<open>
  A packet the client has already written is acknowledged again, however far below the window
  it is, and nothing else happens: a lost acknowledgement is repaired by the sender's repetition.
\<close>

theorem old_packet_acknowledged_again:
  assumes "length d \<le> 500" "n < expected_seqno c"
  shows "sr_client_run (Some (wire d n)) c = Inr (c\<lparr>cl_sent := cl_sent c @ [ack_wire n]\<rparr>)"
proof -
  have "\<not> expected_seqno c \<le> n" using assms(2) by simp
  with assms(2) show ?thesis using recvfrom_wire [OF assms(1)] receive_wire [OF assms(1)]
    by (simp add: sr_client_run_def calculate_checksum_eq Let_def)
qed

theorem old_packet_acknowledged_again_witness:
  "\<exists>c. cl_window c = [] \<and> sr_client_run (Some (wire [7] 1)) c = Inr (c\<lparr>cl_sent := [ack_wire 1]\<rparr>)"
proof -
  let ?c = "(new_client_selective_repeat 1 new_file_writer)\<lparr>expected_seqno := 5\<rparr>"
  have "sr_client_run (Some (wire [7] 1)) ?c = Inr (?c\<lparr>cl_sent := cl_sent ?c @ [ack_wire 1]\<rparr>)"
    by (rule old_packet_acknowledged_again) simp_all
  then show ?thesis by (intro exI [of _ ?c]) (simp add: new_client_selective_repeat_def)
qed

text \<open>
  A packet that is buffered but not yet written is not acknowledged again when it is repeated:
  if its first acknowledgement was lost, the sender hears of it only after the gap before it has
  been filled.
\<close>

theorem buffered_packet_not_acknowledged_again:
  assumes "length d \<le> 500" "d \<noteq> []" "sorted_by seqno (cl_window c)"
    and "n \<in> seqno ` set (cl_window c)" "expected_seqno c \<le> n"
  shows "sr_client_run (Some (wire d n)) c = Inr c"
  using assms(2,4,5) run_wire [OF assms(1,3)] by (auto simp: accept_def)

theorem buffered_packet_not_acknowledged_again_witness:
  "\<exists>c. cl_window c = [mk_packet [8] 2] \<and> sr_client_run (Some (wire [8] 2)) c = Inr c"
proof -
  let ?c = "(new_client_selective_repeat 4 new_file_writer)\<lparr>cl_window := [mk_packet [8] 2]\<rparr>"
  have "sr_client_run (Some (wire [8] 2)) ?c = Inr ?c"
    by (rule buffered_packet_not_acknowledged_again)
       (simp_all add: sorted_by_Cons new_client_selective_repeat_def word_le_nat_alt)
  then show ?thesis by (intro exI [of _ ?c]) simp
qed

section \<open>Go-back-N\<close>

text \<open>
  Go-back-N ignores a packet it has already written: unlike selective repeat it does not
  acknowledge it again, so a sender whose last acknowledgement was lost hears nothing from its
  repetitions.
\<close>

theorem gbn_old_packet_ignored:
  assumes "length d \<le> 500" "n < expected_seqno c"
  shows "gbn_client_run (Some (wire d n)) c = Inr c"
proof -
  have "\<not> expected_seqno c \<le> n" using assms(2) by simp
  then show ?thesis using gbn_run_wire [OF assms(1)] by (simp add: gbn_accept_def)
qed

theorem gbn_old_packet_ignored_witness:
  "\<exists>c. expected_seqno c = 3 \<and> gbn_client_run (Some (wire [7] 2)) c = Inr c"
proof -
  let ?c = "(new_client_go_back_N 4 new_file_writer)\<lparr>expected_seqno := 3\<rparr>"
  have "gbn_client_run (Some (wire [7] 2)) ?c = Inr ?c"
    by (rule gbn_old_packet_ignored) simp_all
  then show ?thesis by (intro exI [of _ ?c]) simp
qed

lemma header_readable: "readable (header_bytes n 8 ck) \<lparr>cksum = ck, len = 8, seqno = n,
    acked = False, time_stamp = 0, data = []\<rparr>"
  using data_packet_of_all [of "header_bytes n 8 ck"] unpack_header [of n 8 ck "[]" blank_data_packet]
  by (simp add: readable_def MAX_PKT_SIZE_def blank_data_packet_def)

text \<open>
  Go-back-N looks at the payload before it looks at the checksum: a datagram that is nothing
  but a header with the expected number and a wrong checksum ends the transfer.
\<close>

theorem gbn_damaged_header_ends:
  assumes "ck \<noteq> checksum_of 8 (expected_seqno c) []"
    and "expected_seqno c < expected_seqno c + word_of_int (cl_window_size c)"
  shows "damaged (header_bytes (expected_seqno c) 8 ck) \<and>
    gbn_client_run (Some (header_bytes (expected_seqno c) 8 ck)) c = Inr (c\<lparr>cl_done := True\<rparr>)"
  using assms gbn_run_readable [OF header_readable, of "expected_seqno c" ck c]
    header_readable [of "expected_seqno c" ck]
  by (auto simp: gbn_accept_def damaged_def readable_def calculate_checksum_eq)

theorem gbn_damaged_header_ends_witness:
  "\<exists>x c. damaged x \<and> cl_output c = [] \<and> \<not> cl_done c \<and> gbn_client_run (Some x) c = Inr (c\<lparr>cl_done := True\<rparr>)"
proof -
  let ?c = "new_client_go_back_N 4 new_file_writer"
  have "(0 :: 16 word) \<noteq> checksum_of 8 (expected_seqno ?c) []"
    using checksum_of_eq_0 [of 8 "expected_seqno ?c" "[]"]
      content_sum_pos [of 8 "expected_seqno ?c" "[]"] by simp
  moreover have "expected_seqno ?c < expected_seqno ?c + word_of_int (cl_window_size ?c)"
    by (simp add: new_client_go_back_N_def)
  ultimately have "damaged (header_bytes (expected_seqno ?c) 8 0) \<and>
      gbn_client_run (Some (header_bytes (expected_seqno ?c) 8 0)) ?c = Inr (?c\<lparr>cl_done := True\<rparr>)"
    by (rule gbn_damaged_header_ends)
  then show ?thesis
    by (intro exI [of _ "header_bytes (expected_seqno ?c) 8 0"] exI [of _ ?c])
       (simp add: cl_output_def new_client_go_back_N_def new_file_writer_def)
qed

text \<open>
  C24: whatever the network does to the packets of a file (losing, repeating, reordering them,
  damaging them without emptying them), go-back-N has written the first packets of the file, in
  order, and every acknowledgement it has sent names a packet up to which all are written (or,
  before the first, the number \<open>2 ^ 32 - 1\<close>).
\<close>

theorem gbn_writes_prefix:
  assumes "payloads_ok ds" "file_stream w = None" "\<forall>x \<in> set xs. gbn_traffic ds x"
  shows "\<exists>e \<le> length ds. \<exists>c. gbn_receive xs (new_client_go_back_N n (fw_open True name w)) = Inr c \<and>
    cl_output c = concat (take e ds) \<and> \<not> cl_done c \<and>
    (\<forall>x \<in> set (cl_sent c). \<exists>k \<le> e. x = ack_wire (of_nat k - 1))"
  using gbn_receive_inv [OF gbn_initial [OF assms(1,2)] assms(3), of n name]
  by (auto simp: gbn_inv_def)

theorem gbn_writes_prefix_witness:
  "\<exists>e \<le> 2. \<exists>c. gbn_receive [wire [8] 1, wire [7] 0, wire [7] 0]
      (new_client_go_back_N 4 (fw_open True [] new_file_writer)) = Inr c \<and>
    cl_output c = concat (take e [[7], [8]])"
proof -
  have "payloads_ok [[7], [8]]" by (simp add: payloads_ok_def)
  moreover have "\<forall>x \<in> set [wire [8] 1, wire [7] 0, wire [7] 0]. gbn_traffic [[7], [8]] x"
    by (auto simp: gbn_traffic_def less_Suc_eq numeral_2_eq_2)
  ultimately show ?thesis
    using gbn_writes_prefix [of "[[7], [8]]" new_file_writer "[wire [8] 1, wire [7] 0, wire [7] 0]" 4 "[]"]
    by (simp add: new_file_writer_def del: gbn_receive.simps) (metis numeral_2_eq_2)
qed

end
