(* ===== verification/Addresses.thy ===== *)
theory Addresses
  imports Prelude
begin

text \<open>
  What the two programs share: socket addresses (\<open>get_address_string\<close> of \<open>server/server.cpp\<close>,
  which the server's table of clients is indexed by, and \<open>is_server_addr\<close> of
  \<open>client/client.cpp\<close>), the three modes, and the check of the number of arguments.
\<close>

unbundle bit_operations_syntax

section \<open>Text\<close>

definition bytes :: "string \<Rightarrow> byte list" where
  "bytes s = map of_char s"

text \<open>\<open>std::to_string\<close> of an unsigned number.\<close>

fun decimal :: "nat \<Rightarrow> byte list" where
  "decimal n = (if n < 10 then [of_nat (48 + n)] else decimal (n div 10) @ [of_nat (48 + n mod 10)])"

declare decimal.simps [simp del]

section \<open>Modes and arguments\<close>

datatype mode = STOP_AND_WAIT | SELECTIVE_REPEAT | GO_BACK_N

definition validate_args :: "nat \<Rightarrow> unit res" where
  "validate_args argc = (if argc \<noteq> 2 then Inl Exit_Failure else Inr ())"

section \<open>Addresses\<close>

text \<open>The fields of the structure; port and host address are in network byte order.\<close>

record sockaddr_in =
  sin_family :: "16 word"
  sin_port :: "16 word"
  sin_addr :: "byte \<times> byte \<times> byte \<times> byte"

definition AF_INET :: "16 word" where "AF_INET = 2"

definition ntohs :: "16 word \<Rightarrow> 16 word" where
  "ntohs w = push_bit 8 w OR drop_bit 8 w"

text \<open>\<open>inet_ntop\<close> for an address of version 4 is its dotted decimal form.\<close>

fun inet_ntop :: "byte \<times> byte \<times> byte \<times> byte \<Rightarrow> byte list" where
  "inet_ntop (a, b, c, d) =
     decimal (unat a) @ bytes ''.'' @ decimal (unat b) @ bytes ''.'' @ decimal (unat c) @ bytes ''.'' @
     decimal (unat d)"

definition get_address_string :: "sockaddr_in \<Rightarrow> byte list" where
  "get_address_string address =
     inet_ntop (sin_addr address) @ bytes '':'' @ decimal (unat (ntohs (sin_port address)))"

definition is_server_addr :: "sockaddr_in \<Rightarrow> sockaddr_in \<Rightarrow> bool" where
  "is_server_addr server_addr sender_addr \<longleftrightarrow>
     sin_family sender_addr = sin_family server_addr \<and>
     sin_addr sender_addr = sin_addr server_addr \<and>
     sin_port sender_addr = sin_port server_addr"

lemma is_server_addr_iff [simp]: "is_server_addr a b \<longleftrightarrow> a = b"
  by (auto simp: is_server_addr_def)

section \<open>Different clients have different keys\<close>

lemma ntohs_ntohs [simp]: "ntohs (ntohs w) = w"
  by (rule bit_word_eqI) (auto simp: ntohs_def bit_simps)

lemma digit_value: "d < 10 \<Longrightarrow> unat (of_nat (48 + d) :: byte) = 48 + d"
  by (simp add: unat_of_nat del: of_nat_add)

lemma digit_inj: "i < 10 \<Longrightarrow> j < 10 \<Longrightarrow> (of_nat (48 + i) :: byte) = of_nat (48 + j) \<longleftrightarrow> i = j"
  by (metis add_left_imp_eq digit_value)

lemma decimal_neq_Nil [simp]: "decimal n \<noteq> []"
  by (subst decimal.simps) simp

lemma decimal_digits: "x \<in> set (decimal n) \<Longrightarrow> \<exists>d < 10. x = of_nat (48 + d)"
proof (induction n rule: decimal.induct)
  case (1 n)
  show ?case
  proof (cases "n < 10")
    case True
    then show ?thesis using 1(2) by (subst (asm) decimal.simps) auto
  next
    case False
    have "n mod 10 < 10" by simp
    with 1 False show ?thesis by (subst (asm) decimal.simps) fastforce
  qed
qed

lemma decimal_inj: "decimal m = decimal n \<Longrightarrow> m = n"
proof (induction m arbitrary: n rule: decimal.induct)
  case (1 m)
  have e: "(if m < 10 then [of_nat (48 + m)] else decimal (m div 10) @ [of_nat (48 + m mod 10)]) =
      (if n < 10 then [of_nat (48 + n)] else decimal (n div 10) @ [of_nat (48 + n mod 10) :: byte])"
    using 1(2) by (subst (asm) (1 2) decimal.simps)
  show ?case
  proof (cases "m < 10")
    case True
    with e have n: "n < 10" by (cases "n < 10") (auto simp: Cons_eq_append_conv)
    with e True have "(of_nat (48 + m) :: byte) = of_nat (48 + n)" by simp
    then show ?thesis using digit_inj [OF True n] by simp
  next
    case False
    with e have n: "\<not> n < 10" by (cases "n < 10") (auto simp: append_eq_Cons_conv)
    with e False have "decimal (m div 10) = decimal (n div 10)"
      "(of_nat (48 + m mod 10) :: byte) = of_nat (48 + n mod 10)" by simp_all
    then have "m div 10 = n div 10" "m mod 10 = n mod 10"
      using 1(1) [OF False] digit_inj [of "m mod 10" "n mod 10"] by simp_all
    then show ?thesis by (metis div_mult_mod_eq)
  qed
qed

text \<open>Fields that do not contain the separator can be told apart.\<close>

lemma split_field:
  assumes "a @ x # r = a' @ x # r'" "x \<notin> set a" "x \<notin> set a'"
  shows "a = a' \<and> r = r'"
  using assms
proof (induction a arbitrary: a')
  case Nil
  then show ?case by (cases a') auto
next
  case (Cons y a)
  then show ?case by (cases a') auto
qed

lemma separators: "bytes ''.'' = [46]" "bytes '':'' = [58]"
  by (simp_all add: bytes_def)

lemma separator_free: "46 \<notin> set (decimal n)" "58 \<notin> set (decimal n)"
proof -
  have "48 \<le> unat x \<and> unat x \<le> 57" if "x \<in> set (decimal n)" for x
    using decimal_digits [OF that] digit_value by fastforce
  from this [of 46] this [of 58] show "46 \<notin> set (decimal n)" "58 \<notin> set (decimal n)" by auto
qed

lemma get_address_string_inj:
  assumes "get_address_string a = get_address_string b"
  shows "sin_addr a = sin_addr b \<and> sin_port a = sin_port b"
proof -
  obtain a1 a2 a3 a4 where a: "sin_addr a = (a1, a2, a3, a4)" by (cases "sin_addr a")
  obtain b1 b2 b3 b4 where b: "sin_addr b = (b1, b2, b3, b4)" by (cases "sin_addr b")
  have "decimal (unat a1) @ 46 # decimal (unat a2) @ 46 # decimal (unat a3) @ 46 # decimal (unat a4) @
      58 # decimal (unat (ntohs (sin_port a))) =
    decimal (unat b1) @ 46 # decimal (unat b2) @ 46 # decimal (unat b3) @ 46 # decimal (unat b4) @
      58 # decimal (unat (ntohs (sin_port b)))"
    using assms by (simp add: get_address_string_def a b separators)
  then have "decimal (unat a1) = decimal (unat b1)" "decimal (unat a2) = decimal (unat b2)"
    "decimal (unat a3) = decimal (unat b3)" "decimal (unat a4) = decimal (unat b4)"
    "decimal (unat (ntohs (sin_port a))) = decimal (unat (ntohs (sin_port b)))"
    by (blast dest: split_field [OF _ separator_free(1) separator_free(1)]
        split_field [OF _ separator_free(2) separator_free(2)])+
  then have "a1 = b1" "a2 = b2" "a3 = b3" "a4 = b4" "ntohs (sin_port a) = ntohs (sin_port b)"
    by (blast dest: decimal_inj unsigned_word_eqI)+
  then show ?thesis using a b by (metis ntohs_ntohs)
qed

end
