(* ===== verification/Server_Main.thy ===== *)
theory Server_Main
  imports Addresses Client_Strategy Selective_Repeat Stop_And_Wait Go_Back_N
begin

text \<open>
  \<open>server/server.cpp\<close> and \<open>server/worker_thread.cpp\<close>: the main thread, which receives datagrams
  and hands them to the workers, and the worker threads, one for each registered client. A step
  of a thread is what it does between two points where another thread can come in: a critical
  section, an operation of its strategy, a system call.
\<close>

section \<open>Modes and the virtual operations\<close>

definition set_mode :: "byte list \<Rightarrow> mode res" where
  "set_mode mode_str =
     (if mode_str = bytes ''selective_repeat'' then Inr SELECTIVE_REPEAT
      else if mode_str = bytes ''go_back_n'' then Inr GO_BACK_N
      else if mode_str = bytes ''stop_and_wait'' then Inr STOP_AND_WAIT
      else Inl Exit_Failure)"

text \<open>
  What does not change while the server runs: its mode and window, the working directory, the
  file system and the clock, whether iterators are checked, and the values the three
  indeterminate members of \<open>go_back_N_strategy\<close> happen to have.
\<close>

record config =
  server_mode :: mode
  MAX_WINDOW_SIZE :: int
  working_directory :: path
  file_system :: "path \<rightharpoonup> byte list"
  clock_source :: "nat \<Rightarrow> nat"
  checked_iterators :: bool
  indeterminate :: "32 word \<times> int \<times> int"

text \<open>
  An object of a subclass is the class \<open>new\<close> named, written as the mode it is for, and its
  members. The class decides which definition a virtual call runs: \<open>start_strategy\<close>,
  \<open>acknowledge\<close> and \<open>handle_time_out\<close> choose by it, and not by the mode of the server.
\<close>

definition new_strategy :: "config \<Rightarrow> path \<Rightarrow> packet_sender \<Rightarrow> (mode \<times> rdt_strategy) res" where
  "new_strategy cfg file_path link =
     (case server_mode cfg of
        STOP_AND_WAIT \<Rightarrow>
          rbind (new_stop_and_wait (working_directory cfg) (file_system cfg) file_path 1 1 link (clock_source cfg))
            (\<lambda>rdt. Inr (STOP_AND_WAIT, rdt))
      | SELECTIVE_REPEAT \<Rightarrow>
          rbind (new_selective_repeat (working_directory cfg) (file_system cfg) file_path (MAX_WINDOW_SIZE cfg)
            link (clock_source cfg)) (\<lambda>rdt. Inr (SELECTIVE_REPEAT, rdt))
      | GO_BACK_N \<Rightarrow>
          (let (n, mx, thr) = indeterminate cfg
           in rbind (new_go_back_N n mx thr (working_directory cfg) (file_system cfg) file_path link
                (clock_source cfg)) (\<lambda>rdt. Inr (GO_BACK_N, rdt))))"

definition start_strategy :: "mode \<Rightarrow> rdt_strategy \<Rightarrow> rdt_strategy res" where
  "start_strategy strategy_class =
     (case strategy_class of STOP_AND_WAIT \<Rightarrow> sw_start | SELECTIVE_REPEAT \<Rightarrow> sr_start | GO_BACK_N \<Rightarrow> gbn_start)"

definition acknowledge :: "config \<Rightarrow> mode \<Rightarrow> ack_packet \<Rightarrow> rdt_strategy \<Rightarrow> rdt_strategy res" where
  "acknowledge cfg strategy_class =
     (case strategy_class of
        STOP_AND_WAIT \<Rightarrow> sw_acknowledge_packet
      | SELECTIVE_REPEAT \<Rightarrow> sr_acknowledge_packet
      | GO_BACK_N \<Rightarrow> gbn_acknowledge_packet (checked_iterators cfg))"

text \<open>The place of a timer thread, in the \<open>handle_time_out\<close> of the class of the strategy.\<close>

datatype any_timer = SW_Timer sw_timer_pc | SR_Timer timer_pc | GBN_Timer gbn_timer_pc

definition timer_start :: "mode \<Rightarrow> any_timer" where
  "timer_start strategy_class =
     (case strategy_class of STOP_AND_WAIT \<Rightarrow> SW_Timer W_Loop | SELECTIVE_REPEAT \<Rightarrow> SR_Timer T_Loop
      | GO_BACK_N \<Rightarrow> GBN_Timer G_Loop)"

fun timer_class :: "any_timer \<Rightarrow> mode" where
  "timer_class (SW_Timer pc) = STOP_AND_WAIT"
| "timer_class (SR_Timer pc) = SELECTIVE_REPEAT"
| "timer_class (GBN_Timer pc) = GO_BACK_N"

fun handle_time_out :: "any_timer \<Rightarrow> rdt_strategy \<Rightarrow> (any_timer \<times> rdt_strategy) res" where
  "handle_time_out (SW_Timer pc) s = rbind (sw_timer_step pc s) (\<lambda>(pc, s). Inr (SW_Timer pc, s))"
| "handle_time_out (SR_Timer pc) s = rbind (sr_timer_step pc s) (\<lambda>(pc, s). Inr (SR_Timer pc, s))"
| "handle_time_out (GBN_Timer pc) s = rbind (gbn_timer_step pc s) (\<lambda>(pc, s). Inr (GBN_Timer pc, s))"

section \<open>The state\<close>

text \<open>
  Threads are named by numbers; 0 is the default of \<open>std::thread::id\<close>, which names no thread.
\<close>

type_synonym thread_id = nat

record worker_thread =
  wt_thread :: thread_id
  wt_done :: bool

definition new_worker_thread :: "thread_id \<Rightarrow> worker_thread" where
  "new_worker_thread th = \<lparr>wt_thread = th, wt_done = False\<rparr>"

definition mark_done :: "worker_thread \<Rightarrow> worker_thread" where
  "mark_done w = w\<lparr>wt_done := True\<rparr>"

datatype worker_pc =
    K_Start                   \<comment> \<open>about to construct and start the strategy\<close>
  | K_Check                   \<comment> \<open>at the head of the loop\<close>
  | K_Wait                    \<comment> \<open>about to look into its queue\<close>
  | K_Acknowledge ack_packet  \<comment> \<open>has taken an acknowledgement\<close>
  | K_Finish                  \<comment> \<open>about to send the empty packet\<close>
  | K_Finalize                \<comment> \<open>about to mark itself done\<close>
  | K_Ended

text \<open>
  A worker before its start has no strategy and no timer thread: \<open>timer_place\<close> has no meaning
  then, and is set from the class of the strategy when that is constructed.
\<close>

record worker =
  thread :: thread_id
  peer :: sockaddr_in
  file_path :: path
  place :: worker_pc
  rdt :: "rdt_strategy option"
  timer_place :: any_timer

datatype main_pc =
    M_Receive                       \<comment> \<open>about to call \<open>recvfrom\<close>\<close>
  | M_Route sockaddr_in ack_packet  \<comment> \<open>about to look up the worker of a registered client\<close>
  | M_Push thread_id ack_packet     \<comment> \<open>about to push an acknowledgement\<close>
  | M_Dispatch sockaddr_in path     \<comment> \<open>about to start a worker\<close>
  | M_Register thread_id sockaddr_in  \<comment> \<open>about to register its client\<close>
  | M_Record thread_id              \<comment> \<open>about to record the worker thread\<close>

text \<open>
  The static state of the link belongs to the whole process. The objects \<open>working_threads\<close>
  points to are never deleted and nothing else points to them, so the map holds them; \<open>Some
  None\<close> is the null pointer \<open>operator[]\<close> inserts.
\<close>

record server_state =
  link :: packet_sender
  buffer :: "byte list"
  registered_clients :: "byte list \<rightharpoonup> thread_id"
  worker_threads_acks :: "thread_id \<rightharpoonup> ack_packet list"
  working_threads :: "thread_id \<rightharpoonup> worker_thread option"
  workers :: "worker list"
  main_place :: main_pc
  handshakes :: "(sockaddr_in \<times> byte list) list"

definition new_server :: "nat \<Rightarrow> rat \<Rightarrow> int list \<Rightarrow> byte list \<Rightarrow> server_state" where
  "new_server seed probability sequence garbage =
     \<lparr>link = set_loss_sequence sequence (set_probability probability (set_seed seed initial_sender)),
      buffer = garbage, registered_clients = Map.empty, worker_threads_acks = Map.empty,
      working_threads = Map.empty, workers = [], main_place = M_Receive, handshakes = []\<rparr>"

text \<open>\<open>operator[]\<close> of a map: the value, which is inserted when there is none.\<close>

definition index_map :: "'v \<Rightarrow> 'k \<Rightarrow> ('k \<rightharpoonup> 'v) \<Rightarrow> 'v \<times> ('k \<rightharpoonup> 'v)" where
  "index_map v0 k m = (case m k of Some v \<Rightarrow> (v, m) | None \<Rightarrow> (v0, m(k \<mapsto> v0)))"

section \<open>The main thread\<close>

definition MAX_UDP_BUFFER_SIZE :: nat where "MAX_UDP_BUFFER_SIZE = 65536"

definition any_address :: sockaddr_in where
  "any_address = \<lparr>sin_family = 0, sin_port = 0, sin_addr = (0, 0, 0, 0)\<rparr>"

text \<open>An address that is not registered: its datagram is a request, which is answered at once.\<close>

definition receive_request :: "sockaddr_in \<Rightarrow> int \<Rightarrow> server_state \<Rightarrow> server_state res" where
  [simp]: "receive_request client_address bytes_received s =
     rbind (data_packet_of_buffer (buffer s) bytes_received) (\<lambda>request.
     rbind default_ack_packet (\<lambda>ack.
     rbind (pack_ack ack) (\<lambda>pkt.
       Inr (s\<lparr>handshakes := handshakes s @ [(client_address, pkt)],
              main_place := M_Dispatch client_address (data request)\<rparr>))))"

text \<open>
  The body of the loop of \<open>start\<close> up to the lookup of the worker, or its creation. \<open>None\<close> is
  an error of \<open>recvfrom\<close>, which leaves the address zero.
\<close>

definition server_receive :: "(sockaddr_in \<times> byte list) option \<Rightarrow> server_state \<Rightarrow> server_state res" where
  "server_receive received s =
     (let (d, bytes_received) = recvfrom MAX_UDP_BUFFER_SIZE (map_option snd received);
          client_address = (case received of None \<Rightarrow> any_address | Some (a, _) \<Rightarrow> a);
          s = s\<lparr>buffer := d @ drop (length d) (buffer s)\<rparr>
      in if registered_clients s (get_address_string client_address) \<noteq> None then
           rbind (ack_packet_of_buffer (buffer s)) (\<lambda>ack.
             Inr (s\<lparr>main_place := M_Route client_address ack\<rparr>))
         else receive_request client_address bytes_received s)"

text \<open>
  The rest of the loop: the two critical sections that pass an acknowledgement on, and those of
  \<open>dispatch_worker_thread\<close>. \<open>tid\<close> is the name the system gives to a thread that is created here.
\<close>

definition route_ack :: "sockaddr_in \<Rightarrow> ack_packet \<Rightarrow> server_state \<Rightarrow> server_state" where
  [simp]: "route_ack client_address ack s =
     (let (worker_to_ack, m) = index_map 0 (get_address_string client_address) (registered_clients s)
      in s\<lparr>registered_clients := m, main_place := M_Push worker_to_ack ack\<rparr>)"

definition push_ack :: "thread_id \<Rightarrow> ack_packet \<Rightarrow> server_state \<Rightarrow> server_state" where
  [simp]: "push_ack worker_to_ack ack s =
     (let (q, m) = index_map [] worker_to_ack (worker_threads_acks s)
      in s\<lparr>worker_threads_acks := m(worker_to_ack \<mapsto> q @ [ack]), main_place := M_Receive\<rparr>)"

definition no_timer :: any_timer where
  "no_timer = SW_Timer W_Loop"

definition create_worker :: "thread_id \<Rightarrow> sockaddr_in \<Rightarrow> path \<Rightarrow> server_state \<Rightarrow> server_state" where
  [simp]: "create_worker tid client_address path s =
     s\<lparr>workers := workers s @ [\<lparr>thread = tid, peer = client_address, file_path = path, place = K_Start,
         rdt = None, timer_place = no_timer\<rparr>],
       main_place := M_Register tid client_address\<rparr>"

definition register_client :: "thread_id \<Rightarrow> sockaddr_in \<Rightarrow> server_state \<Rightarrow> server_state" where
  [simp]: "register_client th client_address s =
     s\<lparr>registered_clients := (registered_clients s)(get_address_string client_address \<mapsto> th),
       main_place := M_Record th\<rparr>"

definition record_worker :: "thread_id \<Rightarrow> server_state \<Rightarrow> server_state" where
  [simp]: "record_worker th s =
     s\<lparr>working_threads := (working_threads s)(th \<mapsto> Some (new_worker_thread th)), main_place := M_Receive\<rparr>"

fun main_step :: "config \<Rightarrow> thread_id \<Rightarrow> server_state \<Rightarrow> main_pc \<Rightarrow> server_state" where
  "main_step cfg tid s M_Receive = s"
| "main_step cfg tid s (M_Route client_address ack) = route_ack client_address ack s"
| "main_step cfg tid s (M_Push worker_to_ack ack) = push_ack worker_to_ack ack s"
| "main_step cfg tid s (M_Dispatch client_address path) = create_worker tid client_address path s"
| "main_step cfg tid s (M_Register th client_address) = register_client th client_address s"
| "main_step cfg tid s (M_Record th) = record_worker th s"

section \<open>The worker threads\<close>

definition finalize_worker_thread :: "thread_id \<Rightarrow> server_state \<Rightarrow> server_state res" where
  "finalize_worker_thread tid s =
     (case index_map None tid (working_threads s) of
        (None, m) \<Rightarrow> Inl Null_Pointer
      | (Some w, m) \<Rightarrow> Inr (s\<lparr>working_threads := m(tid \<mapsto> Some (mark_done w))\<rparr>))"

definition set_worker :: "nat \<Rightarrow> worker \<Rightarrow> server_state \<Rightarrow> server_state" where
  "set_worker k w s = s\<lparr>workers := (workers s)[k := w]\<rparr>"

text \<open>An operation of the strategy of worker \<open>k\<close>, with the state of the link it shares.\<close>

definition on_strategy ::
    "nat \<Rightarrow> (rdt_strategy \<Rightarrow> rdt_strategy res) \<Rightarrow> worker_pc \<Rightarrow> server_state \<Rightarrow> server_state res" where
  "on_strategy k operation next_place s =
     (let w = workers s ! k
      in case rdt w of
           None \<Rightarrow> Inl Null_Pointer
         | Some r \<Rightarrow>
             rbind (operation (r\<lparr>sender := link s\<rparr>)) (\<lambda>r.
               Inr (set_worker k (w\<lparr>rdt := Some r, place := next_place\<rparr>) (s\<lparr>link := sender r\<rparr>))))"

definition worker_step :: "config \<Rightarrow> nat \<Rightarrow> server_state \<Rightarrow> server_state res" where
  "worker_step cfg k s =
     (let w = workers s ! k
      in case place w of
           K_Start \<Rightarrow>
             rbind (new_strategy cfg (file_path w) (link s)) (\<lambda>(strategy_class, r).
               on_strategy k (start_strategy strategy_class) K_Check
                 (set_worker k (w\<lparr>rdt := Some r, timer_place := timer_start strategy_class\<rparr>) s))
         | K_Check \<Rightarrow>
             (case rdt w of
                None \<Rightarrow> Inl Null_Pointer
              | Some r \<Rightarrow>
                  let (done_now, r) = is_done r
                  in Inr (set_worker k (w\<lparr>rdt := Some r, place := if done_now then K_Finish else K_Wait\<rparr>) s))
         | K_Wait \<Rightarrow>
             (let (q, m) = index_map [] (thread w) (worker_threads_acks s)
              in case q of
                   [] \<Rightarrow> Inr (s\<lparr>worker_threads_acks := m\<rparr>)
                 | ack # q \<Rightarrow> Inr (set_worker k (w\<lparr>place := K_Acknowledge ack\<rparr>)
                     (s\<lparr>worker_threads_acks := m(thread w \<mapsto> q)\<rparr>)))
         | K_Acknowledge ack \<Rightarrow> on_strategy k (acknowledge cfg (timer_class (timer_place w)) ack) K_Check s
         | K_Finish \<Rightarrow> on_strategy k send_empty_packet K_Finalize s
         | K_Finalize \<Rightarrow>
             rbind (finalize_worker_thread (thread w) s) (\<lambda>s. Inr (set_worker k (w\<lparr>place := K_Ended\<rparr>) s))
         | K_Ended \<Rightarrow> Inr s)"

text \<open>The timer thread of worker \<open>k\<close>, once the strategy has created it.\<close>

definition timer_step :: "nat \<Rightarrow> server_state \<Rightarrow> server_state res" where
  "timer_step k s =
     (let w = workers s ! k
      in case rdt w of
           None \<Rightarrow> Inr s
         | Some r \<Rightarrow>
             if \<not> timer r then Inr s
             else rbind (handle_time_out (timer_place w) (r\<lparr>sender := link s\<rparr>)) (\<lambda>(pc, r).
               Inr (set_worker k (w\<lparr>rdt := Some r, timer_place := pc\<rparr>) (s\<lparr>link := sender r\<rparr>))))"

section \<open>The system of threads\<close>

text \<open>
  A new thread can get the name of a thread that has ended, if \<open>reuse\<close>.
\<close>

definition running_threads :: "bool \<Rightarrow> server_state \<Rightarrow> thread_id set" where
  "running_threads reuse s = thread ` {w \<in> set (workers s). reuse \<longrightarrow> place w \<noteq> K_Ended}"

inductive server_step ::
    "config \<Rightarrow> bool \<Rightarrow> (sockaddr_in \<Rightarrow> byte list \<Rightarrow> bool) \<Rightarrow> server_state \<Rightarrow> server_state \<Rightarrow> bool"
  for cfg :: config and reuse :: bool and arrives :: "sockaddr_in \<Rightarrow> byte list \<Rightarrow> bool" where
  main_receives:
    "main_place s = M_Receive \<Longrightarrow> arrives a d \<Longrightarrow> server_receive (Some (a, d)) s = Inr s' \<Longrightarrow>
     server_step cfg reuse arrives s s'"
| main_continues:
    "main_place s = pc \<Longrightarrow> pc \<noteq> M_Receive \<Longrightarrow> tid \<notin> running_threads reuse s \<Longrightarrow> tid \<noteq> 0 \<Longrightarrow>
     server_step cfg reuse arrives s (main_step cfg tid s pc)"
| worker_steps:
    "k < length (workers s) \<Longrightarrow> worker_step cfg k s = Inr s' \<Longrightarrow> server_step cfg reuse arrives s s'"
| timer_steps:
    "k < length (workers s) \<Longrightarrow> timer_step k s = Inr s' \<Longrightarrow> server_step cfg reuse arrives s s'"

inductive_cases server_stepE: "server_step cfg reuse arrives s s'"

end
