(* ===== verification/Server_Routing.thy ===== *)
theory Server_Routing
  imports Server_Main
begin

text \<open>
  What the threads of the server do to the tables: each client that is registered has exactly
  one worker, for ever, and its acknowledgements go through that worker's queue in order.
\<close>

section \<open>What a step leaves alone\<close>

text \<open>The name, the client and the file of a worker are set once.\<close>

definition same_worker :: "worker \<Rightarrow> worker \<Rightarrow> bool" where
  "same_worker w w' \<longleftrightarrow> thread w' = thread w \<and> peer w' = peer w \<and> file_path w' = file_path w"

lemma set_worker_simps [simp]:
  "workers (set_worker k w s) = (workers s)[k := w]" "link (set_worker k w s) = link s"
  "registered_clients (set_worker k w s) = registered_clients s" "buffer (set_worker k w s) = buffer s"
  "worker_threads_acks (set_worker k w s) = worker_threads_acks s"
  "working_threads (set_worker k w s) = working_threads s"
  "main_place (set_worker k w s) = main_place s" "handshakes (set_worker k w s) = handshakes s"
  by (simp_all add: set_worker_def)

lemma on_strategyE:
  assumes "on_strategy k operation pc s = Inr s'"
  obtains r r' where "rdt (workers s ! k) = Some r" "operation (r\<lparr>sender := link s\<rparr>) = Inr r'"
    "s' = set_worker k ((workers s ! k)\<lparr>rdt := Some r', place := pc\<rparr>) (s\<lparr>link := sender r'\<rparr>)"
  using assms by (auto simp: on_strategy_def Let_def rbind_Inr_iff split: option.splits)

text \<open>A worker that starts: the class of its strategy decides what its start and its timer run.\<close>

lemma worker_startE:
  assumes "worker_step cfg k s = Inr s'" "place (workers s ! k) = K_Start" "k < length (workers s)"
  obtains m r r' where "new_strategy cfg (file_path (workers s ! k)) (link s) = Inr (m, r)"
    "start_strategy m (r\<lparr>sender := link s\<rparr>) = Inr r'"
    "s' = set_worker k ((workers s ! k)\<lparr>rdt := Some r', timer_place := timer_start m, place := K_Check\<rparr>)
       (s\<lparr>link := sender r'\<rparr>)"
proof -
  obtain m r where n: "new_strategy cfg (file_path (workers s ! k)) (link s) = Inr (m, r)"
    and on: "on_strategy k (start_strategy m) K_Check
      (set_worker k ((workers s ! k)\<lparr>rdt := Some r, timer_place := timer_start m\<rparr>) s) = Inr s'"
    using assms(1,2) by (auto simp: worker_step_def Let_def rbind_Inr_iff)
  have order: "v\<lparr>timer_place := tp, rdt := x, place := pc\<rparr> = v\<lparr>rdt := x, timer_place := tp, place := pc\<rparr>"
    for v :: worker and tp x pc by (cases v) simp
  from on show ?thesis using n assms(3) by (auto elim!: on_strategyE intro!: that simp: set_worker_def order)
qed

lemma worker_acknowledgeE:
  assumes "worker_step cfg k s = Inr s'" "place (workers s ! k) = K_Acknowledge ack"
  obtains r r' where "rdt (workers s ! k) = Some r"
    "acknowledge cfg (timer_class (timer_place (workers s ! k))) ack (r\<lparr>sender := link s\<rparr>) = Inr r'"
    "s' = set_worker k ((workers s ! k)\<lparr>rdt := Some r', place := K_Check\<rparr>) (s\<lparr>link := sender r'\<rparr>)"
  using assms by (auto simp: worker_step_def Let_def elim!: on_strategyE)

lemma new_strategy_class: "new_strategy cfg path l = Inr (m, r) \<Longrightarrow> m = server_mode cfg"
  by (cases "server_mode cfg") (auto simp: new_strategy_def rbind_Inr_iff split: prod.splits)

lemma timer_class_start [simp]: "timer_class (timer_start m) = m"
  by (cases m) (simp_all add: timer_start_def)

text \<open>The effect of a step of worker \<open>k\<close>: its own entry, its queue, its object and the link.\<close>

definition own_step :: "nat \<Rightarrow> server_state \<Rightarrow> server_state \<Rightarrow> bool" where
  "own_step k s s' \<longleftrightarrow>
     registered_clients s' = registered_clients s \<and> main_place s' = main_place s \<and>
     handshakes s' = handshakes s \<and> buffer s' = buffer s \<and>
     (\<exists>w'. workers s' = (workers s)[k := w'] \<and> same_worker (workers s ! k) w')"

lemma own_stepI:
  "registered_clients s' = registered_clients s \<Longrightarrow> main_place s' = main_place s \<Longrightarrow>
   handshakes s' = handshakes s \<Longrightarrow> buffer s' = buffer s \<Longrightarrow> workers s' = (workers s)[k := w'] \<Longrightarrow>
   same_worker (workers s ! k) w' \<Longrightarrow> own_step k s s'"
  unfolding own_step_def by blast

lemma on_strategy_own:
  assumes "on_strategy k operation pc s = Inr s'"
  shows "own_step k s s'" "worker_threads_acks s' = worker_threads_acks s"
  using assms by (auto elim!: on_strategyE intro!: own_stepI simp: same_worker_def)

lemma worker_step_own:
  assumes k: "k < length (workers s)" and st: "worker_step cfg k s = Inr s'"
  shows "own_step k s s'"
proof -
  let ?w = "workers s ! k"
  show ?thesis
  proof (cases "place ?w")
    case K_Start
    with st k show ?thesis by (auto elim!: worker_startE intro!: own_stepI simp: same_worker_def)
  next
    case K_Check
    then show ?thesis using st
      by (auto intro!: own_stepI simp: worker_step_def Let_def same_worker_def split: option.splits prod.splits)
  next
    case K_Wait
    obtain q m where q: "index_map [] (thread ?w) (worker_threads_acks s) = (q, m)" by fastforce
    show ?thesis
    proof (cases q)
      case Nil
      then have "s' = s\<lparr>worker_threads_acks := m\<rparr>" using st K_Wait q by (simp add: worker_step_def Let_def)
      then show ?thesis by (auto intro!: own_stepI [of _ _ _ ?w] simp: same_worker_def)
    next
      case (Cons a q')
      then have "s' = set_worker k (?w\<lparr>place := K_Acknowledge a\<rparr>)
          (s\<lparr>worker_threads_acks := m(thread ?w \<mapsto> q')\<rparr>)" using st K_Wait q by (simp add: worker_step_def Let_def)
      then show ?thesis by (auto intro!: own_stepI simp: same_worker_def)
    qed
  next
    case K_Acknowledge
    then show ?thesis using st on_strategy_own by (simp add: worker_step_def Let_def)
  next
    case K_Finish
    then show ?thesis using st on_strategy_own by (simp add: worker_step_def Let_def)
  next
    case K_Finalize
    then show ?thesis using st
      by (auto intro!: own_stepI simp: worker_step_def Let_def finalize_worker_thread_def rbind_Inr_iff same_worker_def
          split: prod.splits option.splits)
  next
    case K_Ended
    then show ?thesis using st
      by (auto intro!: own_stepI [of _ _ _ ?w] simp: worker_step_def Let_def same_worker_def)
  qed
qed

lemma timer_step_own:
  assumes "timer_step k s = Inr s'"
  shows "own_step k s s'" "worker_threads_acks s' = worker_threads_acks s"
proof -
  let ?w = "workers s ! k"
  show "own_step k s s'" using assms
    by (auto intro!: own_stepI [of _ _ _ ?w] own_stepI simp: timer_step_def Let_def rbind_Inr_iff same_worker_def
        split: option.splits if_splits)
  show "worker_threads_acks s' = worker_threads_acks s" using assms
    by (auto simp: timer_step_def Let_def rbind_Inr_iff split: option.splits if_splits)
qed

section \<open>One worker for each client\<close>

definition client_key :: "worker \<Rightarrow> byte list" where
  "client_key w = get_address_string (peer w)"

fun main_ok :: "server_state \<Rightarrow> main_pc \<Rightarrow> bool" where
  "main_ok s M_Receive \<longleftrightarrow> True"
| "main_ok s (M_Route a ack) \<longleftrightarrow> registered_clients s (get_address_string a) \<noteq> None"
| "main_ok s (M_Push tid ack) \<longleftrightarrow> tid \<in> thread ` set (workers s)"
| "main_ok s (M_Dispatch a path) \<longleftrightarrow> registered_clients s (get_address_string a) = None"
| "main_ok s (M_Register tid a) \<longleftrightarrow> registered_clients s (get_address_string a) = None \<and>
     (\<exists>w \<in> set (workers s). thread w = tid \<and> peer w = a)"
| "main_ok s (M_Record tid) \<longleftrightarrow> tid \<in> thread ` set (workers s)"

definition routing_inv :: "server_state \<Rightarrow> bool" where
  "routing_inv s \<longleftrightarrow>
     distinct (map client_key (workers s)) \<and>
     (\<forall>key tid. registered_clients s key = Some tid \<longrightarrow>
        (\<exists>w \<in> set (workers s). thread w = tid \<and> client_key w = key)) \<and>
     (\<forall>w \<in> set (workers s). registered_clients s (client_key w) = Some (thread w) \<or>
        main_place s = M_Register (thread w) (peer w)) \<and>
     main_ok s (main_place s)"

lemma same_worker_key: "same_worker w w' \<Longrightarrow> client_key w' = client_key w"
  by (simp add: same_worker_def client_key_def)

text \<open>The entries of the table, without what changes in them.\<close>

definition entry :: "worker \<Rightarrow> thread_id \<times> sockaddr_in \<times> path" where
  "entry w = (thread w, peer w, file_path w)"

lemma own_entries:
  "own_step k s s' \<Longrightarrow> k < length (workers s) \<Longrightarrow> map entry (workers s') = map entry (workers s)"
  by (auto simp: own_step_def same_worker_def entry_def map_update intro!: list_update_same_conv [THEN iffD2])

lemma entries_routing:
  assumes e: "map entry (workers s') = map entry (workers s)"
    and r: "registered_clients s' = registered_clients s" "main_place s' = main_place s"
  shows "routing_inv s' = routing_inv s"
proof -
  define ck :: "thread_id \<times> sockaddr_in \<times> path \<Rightarrow> byte list" where "ck = (\<lambda>(t, a, p). get_address_string a)"
  have k: "client_key = ck \<circ> entry" "thread = fst \<circ> entry" "peer = fst \<circ> snd \<circ> entry"
    by (simp_all add: fun_eq_iff client_key_def ck_def entry_def)
  have se: "entry ` set (workers s') = entry ` set (workers s)" using e by (metis list.set_map)
  have mk: "map client_key (workers s') = map client_key (workers s)" using e by (simp add: k(1) map_map [symmetric] del: map_map)
  have ball: "(\<forall>w \<in> set (workers s'). P (thread w) (peer w)) = (\<forall>w \<in> set (workers s). P (thread w) (peer w))"
    and bex: "(\<exists>w \<in> set (workers s'). P (thread w) (peer w)) = (\<exists>w \<in> set (workers s). P (thread w) (peer w))" for P
    using se by (auto simp: entry_def set_eq_iff image_iff) metis+
  have th: "thread ` set (workers s') = thread ` set (workers s)" using se by (metis k(2) image_comp)
  have mo: "main_ok s' pc = main_ok s pc" for pc
    using bex [of "\<lambda>t a. t = _ \<and> a = _"] th r(1) by (cases pc) auto
  show ?thesis unfolding routing_inv_def mk r mo client_key_def
    using bex [of "\<lambda>t a. t = tid \<and> get_address_string a = key" for tid key]
      ball [of "\<lambda>t a. registered_clients s (get_address_string a) = Some t \<or> main_place s = M_Register t a"]
    by (simp only:)
qed

lemma start_routing: "routing_inv (new_server seed p sequence g)"
  by (simp add: routing_inv_def new_server_def)

lemma server_receive_cases:
  assumes "server_receive (Some (a, d)) s = Inr s'"
  obtains (registered) ack where "registered_clients s (get_address_string a) \<noteq> None"
      "ack_packet_of_buffer (buffer s') = Inr ack"
      "s' = s\<lparr>buffer := take MAX_UDP_BUFFER_SIZE d @ drop (length (take MAX_UDP_BUFFER_SIZE d)) (buffer s),
        main_place := M_Route a ack\<rparr>"
  | (request) request where "registered_clients s (get_address_string a) = None"
      "data_packet_of_buffer (buffer s') (int (length (take MAX_UDP_BUFFER_SIZE d))) = Inr request"
      "s' = s\<lparr>buffer := take MAX_UDP_BUFFER_SIZE d @ drop (length (take MAX_UDP_BUFFER_SIZE d)) (buffer s),
        handshakes := handshakes s @ [(a, ack_wire 0)], main_place := M_Dispatch a (data request)\<rparr>"
  using assms
  by (auto simp: server_receive_def recvfrom_def Let_def rbind_Inr_iff pack_mk_ack split: if_splits)

lemma receive_routing:
  assumes inv: "routing_inv s" and pl: "main_place s = M_Receive" and st: "server_receive (Some (a, d)) s = Inr s'"
  shows "routing_inv s'"
proof -
  have "registered_clients s' = registered_clients s" "workers s' = workers s" "main_ok s' (main_place s')"
    using st by (auto elim!: server_receive_cases)
  then show ?thesis using inv pl by (simp add: routing_inv_def)
qed

lemma main_step_routing:
  assumes inv: "routing_inv s"
  shows "routing_inv (main_step cfg tid s (main_place s))"
proof (cases "main_place s")
  case (M_Route a ack)
  then obtain th where "registered_clients s (get_address_string a) = Some th" using inv by (auto simp: routing_inv_def)
  then show ?thesis using inv M_Route
    by (fastforce simp: routing_inv_def index_map_def)
next
  case (M_Push th ack)
  then show ?thesis using inv by (auto simp: routing_inv_def index_map_def split: option.splits)
next
  case (M_Dispatch a path)
  then have reg: "\<forall>w \<in> set (workers s). registered_clients s (client_key w) = Some (thread w)"
    and new: "registered_clients s (get_address_string a) = None" using inv by (auto simp: routing_inv_def)
  then have "\<forall>w \<in> set (workers s). client_key w \<noteq> get_address_string a" by force
  then show ?thesis using inv M_Dispatch reg
    by (auto simp: routing_inv_def client_key_def)
next
  case (M_Register th a)
  then obtain w where w: "w \<in> set (workers s)" "thread w = th" "peer w = a" using inv by (auto simp: routing_inv_def)
  have d: "distinct (map client_key (workers s))"
    and reg: "\<And>key tid. registered_clients s key = Some tid \<Longrightarrow> \<exists>w \<in> set (workers s). thread w = tid \<and> client_key w = key"
    using inv by (auto simp: routing_inv_def)
  have key: "client_key v = get_address_string a \<longleftrightarrow> v = w" if "v \<in> set (workers s)" for v
    using that w d by (auto simp: distinct_map client_key_def inj_on_def)
  have others: "registered_clients s (client_key v) = Some (thread v)" if v: "v \<in> set (workers s)" "v \<noteq> w" for v
  proof -
    have "registered_clients s (client_key v) = Some (thread v) \<or> main_place s = M_Register (thread v) (peer v)"
      using inv v(1) by (simp add: routing_inv_def)
    moreover have "peer v \<noteq> a" using key [OF v(1)] v(2) by (auto simp: client_key_def)
    ultimately show ?thesis using M_Register by simp
  qed
  let ?s' = "main_step cfg tid s (M_Register th a)"
  have s': "workers ?s' = workers s" "main_place ?s' = M_Record th"
    "registered_clients ?s' = (registered_clients s)(get_address_string a \<mapsto> th)" by simp_all
  have "\<exists>v \<in> set (workers s). thread v = t \<and> client_key v = k"
    if "((registered_clients s)(get_address_string a \<mapsto> th)) k = Some t" for k t
    using that reg w by (auto simp: client_key_def split: if_splits)
  moreover have "((registered_clients s)(get_address_string a \<mapsto> th)) (client_key v) = Some (thread v)"
    if "v \<in> set (workers s)" for v
    using that key others w(2) by (cases "v = w") auto
  ultimately show ?thesis unfolding M_Register routing_inv_def s' using d w by auto
next
  case (M_Record th)
  then show ?thesis using inv by (auto simp: routing_inv_def)
qed (use inv in simp)

lemma own_routing: "own_step k s s' \<Longrightarrow> k < length (workers s) \<Longrightarrow> routing_inv s' = routing_inv s"
  by (rule entries_routing [OF own_entries]) (auto simp: own_step_def)

lemma server_step_routing: "routing_inv s \<Longrightarrow> server_step cfg reuse arrives s s' \<Longrightarrow> routing_inv s'"
  by (erule server_stepE)
     (auto simp: receive_routing main_step_routing dest: own_routing [OF worker_step_own] own_routing [OF timer_step_own(1)])

section \<open>Threads that are named once\<close>

definition threads_inv :: "server_state \<Rightarrow> bool" where
  "threads_inv s \<longleftrightarrow> distinct (map thread (workers s))"

lemma main_step_threads:
  assumes "threads_inv s" "tid \<notin> running_threads False s"
  shows "threads_inv (main_step cfg tid s pc)"
  using assms by (cases pc) (auto simp: threads_inv_def running_threads_def index_map_def split: option.splits)

lemma own_threads: "own_step k s s' \<Longrightarrow> k < length (workers s) \<Longrightarrow> threads_inv s' = threads_inv s"
proof -
  assume a: "own_step k s s'" "k < length (workers s)"
  have "thread = fst \<circ> entry" by (simp add: fun_eq_iff entry_def)
  then have "map thread (workers s') = map thread (workers s)"
    using own_entries [OF a] by (metis map_map)
  then show ?thesis by (simp add: threads_inv_def)
qed

lemma receive_threads: "threads_inv s \<Longrightarrow> server_receive (Some (a, d)) s = Inr s' \<Longrightarrow> threads_inv s'"
  by (auto simp: threads_inv_def elim!: server_receive_cases)

lemma server_step_threads: "threads_inv s \<Longrightarrow> server_step cfg False arrives s s' \<Longrightarrow> threads_inv s'"
  by (erule server_stepE)
     (auto simp: main_step_threads receive_threads dest: own_threads [OF worker_step_own] own_threads [OF timer_step_own(1)])

end
