(* ===== verification/Client_Main.thy ===== *)
theory Client_Main
  imports Addresses Client_Strategy
begin

text \<open>
  \<open>client/client.cpp\<close>: the request and its repetition until something comes from the server, and
  the loop that receives the file.
\<close>

section \<open>The client's state\<close>

definition set_client_mode :: "byte list \<Rightarrow> mode res" where
  "set_client_mode mode_str =
     (if mode_str = bytes ''stop_and_wait'' then Inr STOP_AND_WAIT
      else if mode_str = bytes ''selective_repeat'' then Inr SELECTIVE_REPEAT
      else if mode_str = bytes ''go_back_n'' then Inr GO_BACK_N
      else Inl Exit_Failure)"

text \<open>The arguments that matter after \<open>init\<close>, and whether the system lets the file be created.\<close>

record client_config =
  client_mode :: mode
  server_address :: sockaddr_in
  req_file_name :: "byte list"
  default_window_size :: int
  creatable :: bool

datatype client_place =
    C_Waiting                      \<comment> \<open>for the acknowledgement of the request\<close>
  | C_Receiving client_strategy
  | C_Closed client_strategy       \<comment> \<open>everything received, the file closed\<close>

record client_state =
  req_datagram_buffer :: "byte list"
  requests :: "byte list list"     \<comment> \<open>the request datagrams sent\<close>
  client_at :: client_place

section \<open>The request\<close>

definition create_req_datagram :: "byte list \<Rightarrow> byte list res" where
  "create_req_datagram file_name = rbind (new_data_packet file_name 0) pack"

definition client_begin :: "client_config \<Rightarrow> client_state res" where
  "client_begin cfg =
     rbind (create_req_datagram (req_file_name cfg)) (\<lambda>req.
       Inr \<lparr>req_datagram_buffer = req, requests = [req], client_at = C_Waiting\<rparr>)"

section \<open>The two loops\<close>

text \<open>
  The strategy \<open>receive_datagrams\<close> constructs, and the file it opens.
\<close>

definition new_client_strategy :: "client_config \<Rightarrow> client_strategy" where
  "new_client_strategy cfg =
     (let w = fw_open (creatable cfg) (req_file_name cfg) new_file_writer
      in case client_mode cfg of
           STOP_AND_WAIT \<Rightarrow> new_client_selective_repeat 1 w
         | SELECTIVE_REPEAT \<Rightarrow> new_client_selective_repeat (default_window_size cfg) w
         | GO_BACK_N \<Rightarrow> new_client_go_back_N (default_window_size cfg) w)"

definition run_client :: "mode \<Rightarrow> byte list option \<Rightarrow> client_strategy \<Rightarrow> client_strategy res" where
  "run_client m = (case m of GO_BACK_N \<Rightarrow> gbn_client_run | _ \<Rightarrow> sr_client_run)"

text \<open>
  What \<open>select\<close> returns in \<open>handle_ack_timeout\<close>. Of a datagram that has arrived only the sender
  is looked at: whatever the server has sent counts as the acknowledgement and is dropped.
\<close>

datatype select_result = Select_Error | Time_Out | Readable sockaddr_in

definition handle_ack_timeout :: "client_config \<Rightarrow> select_result \<Rightarrow> client_state \<Rightarrow> client_state res" where
  "handle_ack_timeout cfg r s =
     (case r of
        Select_Error \<Rightarrow> Inl Exit_Failure
      | Readable sender_addr \<Rightarrow>
          Inr (if is_server_addr (server_address cfg) sender_addr
               then s\<lparr>client_at := C_Receiving (new_client_strategy cfg)\<rparr> else s)
      | Time_Out \<Rightarrow> Inr (s\<lparr>requests := requests s @ [req_datagram_buffer s]\<rparr>))"

text \<open>A round of the loop of \<open>receive_datagrams\<close>, or the end of it.\<close>

definition receive_datagrams ::
    "client_config \<Rightarrow> byte list option \<Rightarrow> client_strategy \<Rightarrow> client_state \<Rightarrow> client_state res" where
  "receive_datagrams cfg received c s =
     (if cl_done c then Inr (s\<lparr>client_at := C_Closed (c\<lparr>writer := fw_close (writer c)\<rparr>)\<rparr>)
      else rbind (run_client (client_mode cfg) received c) (\<lambda>c. Inr (s\<lparr>client_at := C_Receiving c\<rparr>)))"

text \<open>The program on the events it meets, one after the other.\<close>

datatype client_event = Selected select_result | Received "byte list option"

fun client_step :: "client_config \<Rightarrow> client_event \<Rightarrow> client_state \<Rightarrow> client_state res" where
  "client_step cfg (Selected r) s =
     (case client_at s of C_Waiting \<Rightarrow> handle_ack_timeout cfg r s | _ \<Rightarrow> Inr s)"
| "client_step cfg (Received x) s =
     (case client_at s of C_Receiving c \<Rightarrow> receive_datagrams cfg x c s | _ \<Rightarrow> Inr s)"

fun client_events :: "client_config \<Rightarrow> client_event list \<Rightarrow> client_state \<Rightarrow> client_state res" where
  "client_events cfg [] s = Inr s"
| "client_events cfg (e # es) s = rbind (client_step cfg e s) (client_events cfg es)"

definition run_program :: "client_config \<Rightarrow> client_event list \<Rightarrow> client_state res" where
  "run_program cfg es = rbind (client_begin cfg) (client_events cfg es)"

end
