(* ===== verification/Loss_Probability.thy ===== *)
theory Loss_Probability
  imports Server_Main File_Transfer Stop_And_Wait_Transfer
begin

text \<open>
  What no operation of a strategy changes: the probability with which the link, which the workers
  share, loses packets, and the largest window. So to one transfer another worker's sending is a
  step that leaves the loss probability alone, and a strategy keeps the bound it was constructed
  with.
\<close>

section \<open>The containers and the selective-repeat and stop-and-wait senders\<close>

definition constants :: "rdt_strategy \<Rightarrow> rat \<times> int" where
  "constants s = (loss_probability (sender s), max_window_size s)"

lemma send_packet_loss: "send_packet q l = Inr (dup, out, l') \<Longrightarrow> loss_probability l' = loss_probability l"
  by (auto simp: send_packet_def Let_def rbind_Inr_iff split: if_splits prod.splits)

lemma transmit_loss: "transmit a s = Inr (dup, s') \<Longrightarrow> constants s' = constants s"
  by (auto simp: transmit_def now_def set_packet_def locked_insert_unacked_def lock_set_mutex_def constants_def
      insert_unacked_def unlock_set_mutex_def Let_def rbind_Inr_iff dest: send_packet_loss split: if_splits)

lemma container_loss:
  "insert_aux a s = Inr s' \<Longrightarrow> constants s' = constants s"
  "locked_erase_unacked a s = Inr s' \<Longrightarrow> constants s' = constants s"
  "set_packet a f s = Inr s' \<Longrightarrow> constants s' = constants s"
  "delete_packet a s = Inr s' \<Longrightarrow> constants s' = constants s"
  "next_packet s = Inr (b, s') \<Longrightarrow> constants s' = constants s"
  "lock_wnd_mutex s = Inr s' \<Longrightarrow> constants s' = constants s"
  "lock_set_mutex s = Inr s' \<Longrightarrow> constants s' = constants s"
  "erase_unacked a s = Inr s' \<Longrightarrow> constants s' = constants s"
  by (auto simp: insert_aux_def locked_erase_unacked_def lock_set_mutex_def erase_unacked_def
      unlock_set_mutex_def set_packet_def delete_packet_def next_packet_def lock_wnd_mutex_def constants_def
      rbind_Inr_iff split: if_splits)

lemma update_loss [simp]:
  "constants (s\<lparr>window := w\<rparr>) = constants s" "constants (s\<lparr>aux_window := w\<rparr>) = constants s" "constants (s\<lparr>threshold := i\<rparr>) = constants s"
  "constants (s\<lparr>window_size := i\<rparr>) = constants s" "constants (s\<lparr>packets_sent := k\<rparr>) = constants s" "constants (s\<lparr>timer := b\<rparr>) = constants s"
  "constants (s\<lparr>window_size_history := h\<rparr>) = constants s" "constants (s\<lparr>start_time_stamp := m\<rparr>) = constants s"
  "constants (s\<lparr>ticks := m\<rparr>) = constants s" "constants (s\<lparr>sent := x\<rparr>) = constants s" "constants (s\<lparr>stats := v\<rparr>) = constants s"
  "constants (unlock_wnd_mutex s) = constants s" "constants (unlock_set_mutex s) = constants s"
  by (simp_all add: constants_def unlock_wnd_mutex_def unlock_set_mutex_def)

lemma shrink_loss: "shrink_window n s = Inr s' \<Longrightarrow> constants s' = constants s"
proof -
  have "shrink_loop k as s = Inr s' \<Longrightarrow> constants s' = constants s" for k as s
    by (induction k as s rule: shrink_loop.induct) (auto simp: rbind_Inr_iff container_loss)
  then show "shrink_window n s = Inr s' \<Longrightarrow> constants s' = constants s"
    by (auto simp: shrink_window_def Let_def split: if_splits)
qed

lemma sr_send_loss: "sr_send_packet a s = Inr s' \<Longrightarrow> constants s' = constants s"
proof -
  assume "sr_send_packet a s = Inr s'"
  then obtain dup s1 where "transmit a s = Inr (dup, s1)"
    "(if dup then shrink_window (half (window_size s1)) s1 else Inr s1) = Inr s'"
    by (auto simp: sr_send_packet_def rbind_Inr_iff)
  then show "constants s' = constants s" using transmit_loss shrink_loss by (auto split: if_splits)
qed

lemma sw_send_loss: "sw_send_packet a s = Inr s' \<Longrightarrow> constants s' = constants s"
  by (auto simp: sw_send_packet_def rbind_Inr_iff dest: transmit_loss)

lemma expand_loss: "expand_window s = Inr s' \<Longrightarrow> constants s' = constants s"
proof (induction s rule: expand_window.induct)
  case (1 s)
  show ?case
  proof (cases "window_open s \<and> (aux_window s \<noteq> [] \<or> has_next (pkt_builder s))")
    case False
    then show ?thesis using "1.prems" by (subst (asm) expand_window.simps) (simp split: if_splits)
  next
    case True
    with "1.prems" obtain a s0 s1 s2 where n: "next_to_send s = Inr (a, s0)"
      "set_packet a (set_ack False) s0 = Inr s1" "sr_send_packet a (s1\<lparr>window := window s1 @ [a]\<rparr>) = Inr s2"
      and e: "expand_window s2 = Inr s'"
      by (subst (asm) expand_window.simps) (auto simp: rbind_Inr_iff)
    have "constants s0 = constants s" using n(1) by (auto simp: next_to_send_def container_loss split: list.splits)
    with "1.IH" [OF True n(1)] n e show ?thesis by (simp add: container_loss sr_send_loss)
  qed
qed

lemma sr_advance_loss: "sr_advance_loop as s = Inr s' \<Longrightarrow> constants s' = constants s"
  by (induction as s rule: sr_advance_loop.induct) (auto simp: rbind_Inr_iff container_loss split: if_splits)

lemma sr_ack_found_loss: "sr_ack_found i a s = Inr s' \<Longrightarrow> constants s' = constants s"
proof -
  assume "sr_ack_found i a s = Inr s'"
  then obtain p where "packet_at a s = Inr p" and r: "(if acked p then Inr s
      else rbind (set_packet a (set_ack True) s) (\<lambda>s. rbind (locked_erase_unacked a s) (\<lambda>s.
        rbind (if i = 0 then sr_advance_window s else Inr s) (\<lambda>s. expand_window (adjust_window_size s))))) = Inr s'"
    by (auto simp: sr_ack_found_def rbind_Inr_iff)
  show "constants s' = constants s"
  proof (cases "acked p")
    case False
    with r obtain s1 s2 s3 where s: "set_packet a (set_ack True) s = Inr s1" "locked_erase_unacked a s1 = Inr s2"
      "(if i = 0 then sr_advance_window s2 else Inr s2) = Inr s3" "expand_window (adjust_window_size s3) = Inr s'"
      by (auto simp: rbind_Inr_iff)
    have "constants s3 = constants s2" using s(3) by (auto simp: sr_advance_window_def sr_advance_loss split: if_splits)
    moreover have "constants (adjust_window_size s3) = constants s3" by (simp add: adjust_window_size_def Let_def)
    ultimately show ?thesis using s expand_loss container_loss(2,3) by simp
  qed (use r in simp)
qed

lemma sr_acknowledge_loss: "sr_acknowledge_packet a s = Inr s' \<Longrightarrow> constants s' = constants s"
  by (auto simp: sr_acknowledge_packet_def Let_def rbind_Inr_iff container_loss(6) sr_ack_found_loss
      split: if_splits option.splits)

lemma sw_advance_loss: "sw_advance_window s = Inr s' \<Longrightarrow> constants s' = constants s"
proof (erule yieldsD [rotated], induction s rule: sw_advance_window.induct)
  case (1 s)
  have inner: "yields (\<lambda>s'. constants s' = constants s)
     (if has_next (pkt_builder s1)
      then rbind (next_packet s1) (\<lambda>x.
        rbind (sw_send_packet (fst x) ((snd x)\<lparr>window := window (snd x) @ [fst x]\<rparr>)) sw_advance_window)
      else sw_advance_window s1)"
    if p: "window s \<noteq> []" "packet_at (hd (window s)) s = Inr p" "acked p" and
      s1: "delete_packet (hd (window s)) (s\<lparr>packets_sent := packets_sent s + 1, window := tl (window s)\<rparr>) = Inr s1"
    for p s1
  proof -
    have l: "constants s1 = constants s" using container_loss(4) [OF s1] by simp
    show ?thesis
    proof (intro yields_if yields_bind)
      fix x s2 assume x: "has_next (pkt_builder s1)" "next_packet s1 = Inr x"
        "sw_send_packet (fst x) ((snd x)\<lparr>window := window (snd x) @ [fst x]\<rparr>) = Inr s2"
      have "constants (snd x) = constants s1" using container_loss(5) [of s1 "fst x" "snd x"] x(2) by simp
      then have "constants s2 = constants s" using sw_send_loss [OF x(3)] l by simp
      then show "yields (\<lambda>s'. constants s' = constants s) (sw_advance_window s2)"
        using "1.IH"(1) [OF p s1 x] by simp
    next
      assume "\<not> has_next (pkt_builder s1)"
      then show "yields (\<lambda>s'. constants s' = constants s) (sw_advance_window s1)"
        using "1.IH"(2) [OF p s1] l by simp
    qed
  qed
  show ?case
    by (subst sw_advance_window.simps, rule yields_if, rule yields_Inr, rule refl, rule yields_bind,
        rule yields_if, rule yields_bind, rule inner, assumption+, rule yields_Inr, rule refl)
qed

lemma sw_acknowledge_loss: "sw_acknowledge_packet a s = Inr s' \<Longrightarrow> constants s' = constants s"
  by (auto simp: sw_acknowledge_packet_def sw_ack_found_def rbind_Inr_iff container_loss
      dest!: sw_advance_loss split: if_splits option.splits)

lemma timer_first_loss: "timer_first s = Inr (a, s') \<Longrightarrow> constants s' = constants s"
  by (simp add: timer_first_Inr)

lemma timer_expired_loss: "timer_expired a s = Inr (b, s') \<Longrightarrow> constants s' = constants s"
  by (auto simp: timer_expired_def now_def rbind_Inr_iff split: if_splits)

lemma sr_resend_loss: "sr_timer_resend s = Inr s' \<Longrightarrow> constants s' = constants s"
proof -
  assume "sr_timer_resend s = Inr s'"
  then obtain s1 s2 where s: "lock_wnd_mutex s = Inr s1" "shrink_window 1 s1 = Inr s2"
    and r: "(case window s2 of [] \<Rightarrow> Inl Empty_Container
      | a # _ \<Rightarrow> rbind (sr_send_packet a s2) (\<lambda>s. Inr (unlock_wnd_mutex s))) = Inr s'"
    by (auto simp: sr_timer_resend_def rbind_Inr_iff)
  have "constants s' = constants s2" using r by (cases "window s2") (auto simp: rbind_Inr_iff sr_send_loss)
  then show "constants s' = constants s" using s shrink_loss container_loss(6) by simp
qed

lemma sr_timer_loss: "sr_timer_step pc s = Inr (pc', s') \<Longrightarrow> constants s' = constants s"
  by (cases pc)
     (auto simp: rbind_Inr_iff sr_timer_erase_def sr_timer_print_def container_loss
       timer_first_loss timer_expired_loss sr_resend_loss split: if_splits)

lemma sw_timer_loss: "sw_timer_step pc s = Inr (pc', s') \<Longrightarrow> constants s' = constants s"
  by (cases pc)
     (auto simp: rbind_Inr_iff container_loss timer_first_loss timer_expired_loss sw_send_loss)

lemma start_loop_loss:
  "sr_start_loop b as s = Inr s' \<Longrightarrow> constants s' = constants s"
  "sw_start_loop b as s = Inr s' \<Longrightarrow> constants s' = constants s"
proof -
  show "sr_start_loop b as s = Inr s' \<Longrightarrow> constants s' = constants s"
    by (induction b as s rule: sr_start_loop.induct) (auto simp: rbind_Inr_iff sr_send_loss split: if_splits)
  show "sw_start_loop b as s = Inr s' \<Longrightarrow> constants s' = constants s"
    by (induction b as s rule: sw_start_loop.induct) (auto simp: rbind_Inr_iff sw_send_loss split: if_splits)
qed

section \<open>Go-back-N\<close>

lemma gbn_send_loss: "gbn_send_packet a s = Inr s' \<Longrightarrow> constants s' = constants s"
  by (auto simp: gbn_send_packet_def rbind_Inr_iff dest: transmit_loss)

lemma gbn_stamp_loss: "gbn_stamp a s = Inr s' \<Longrightarrow> constants s' = constants s"
  by (auto simp: gbn_stamp_def now_def dest!: container_loss(3))

lemma gbn_link_loss: "gbn_link_send a s = Inr s' \<Longrightarrow> constants s' = constants s"
  by (auto simp: gbn_link_send_def now_def constants_def Let_def rbind_Inr_iff set_packet_def dest: send_packet_loss)

lemma insert_unacked_loss: "insert_unacked a s = Inr s' \<Longrightarrow> constants s' = constants s"
  by (auto simp: insert_unacked_def constants_def split: if_splits)

lemma locked_insert_loss: "locked_insert_unacked a s = Inr s' \<Longrightarrow> constants s' = constants s"
  by (auto simp: locked_insert_unacked_def rbind_Inr_iff dest!: container_loss(7) insert_unacked_loss)

lemma gbn_loop_loss:
  "gbn_start_loop b as s = Inr s' \<Longrightarrow> constants s' = constants s"
  "gbn_ack_back strict as s = Inr s' \<Longrightarrow> constants s' = constants s"
  "gbn_reinsert as s = Inr s' \<Longrightarrow> constants s' = constants s"
proof -
  show "gbn_start_loop b as s = Inr s' \<Longrightarrow> constants s' = constants s"
    by (induction b as s rule: gbn_start_loop.induct)
       (force simp: rbind_Inr_iff gbn_send_loss gbn_stamp_loss split: if_splits)+
  show "gbn_ack_back strict as s = Inr s' \<Longrightarrow> constants s' = constants s"
    by (induction strict as s rule: gbn_ack_back.induct)
       (auto simp: rbind_Inr_iff container_loss split: if_splits)
  show "gbn_reinsert as s = Inr s' \<Longrightarrow> constants s' = constants s"
    by (induction as s rule: gbn_reinsert.induct) (force simp: rbind_Inr_iff insert_unacked_loss)+
qed

lemma gbn_advance_loss: "gbn_advance_window s = Inr s' \<Longrightarrow> constants s' = constants s"
proof -
  have "yields (\<lambda>s'. constants s' = constants s) (gbn_advance_window s)"
  proof (induction s rule: gbn_advance_window.induct)
    case (1 s)
    have more: "yields (\<lambda>s'. constants s' = constants s) (gbn_advance_window s1)"
      if p: "window s \<noteq> []" "packet_at (hd (window s)) s = Inr p" "acked p" "has_next (pkt_builder s)"
        and x: "next_packet (s\<lparr>window := tl (window s)\<rparr>) = Inr x"
        and s1: "gbn_send_packet (fst x) ((snd x)\<lparr>window := window (snd x) @ [fst x]\<rparr>) = Inr s1" for p x s1
    proof -
      have "constants (snd x) = constants s" using container_loss(5) [of _ "fst x" "snd x"] x by fastforce
      then have "constants s1 = constants s" using gbn_send_loss [OF s1] by simp
      then show ?thesis using "1.IH"(1) [OF p x s1] by simp
    qed
    have last: "yields (\<lambda>s'. constants s' = constants s) (gbn_advance_window (s\<lparr>window := tl (window s)\<rparr>))"
      if "window s \<noteq> []" "packet_at (hd (window s)) s = Inr p" "acked p" "\<not> has_next (pkt_builder s)" for p
      using "1.IH"(2) [OF that] by simp
    show ?case
      by (subst gbn_advance_window.simps)
         (intro yields_if yields_bind yields_Inr refl; (rule more last; assumption))
  qed
  then show "gbn_advance_window s = Inr s' \<Longrightarrow> constants s' = constants s" by (rule yieldsD)
qed

lemma gbn_acknowledge_loss: "gbn_acknowledge_packet b a s = Inr s' \<Longrightarrow> constants s' = constants s"
  by (auto simp: gbn_acknowledge_packet_def gbn_ack_found_def rbind_Inr_iff container_loss
      dest!: gbn_advance_loss gbn_loop_loss(2) split: option.splits)

lemma constants_unacked: "constants (s\<lparr>unacked_packets := as\<rparr>) = constants s"
  by (simp add: constants_def)

lemma gbn_timer_loss: "gbn_timer_step pc s = Inr (pc', s') \<Longrightarrow> constants s' = constants s"
  by (induction pc s rule: gbn_timer_step.induct)
     (auto simp: rbind_Inr_iff container_loss timer_first_loss timer_expired_loss
       constants_unacked
       dest!: gbn_loop_loss(3) gbn_stamp_loss gbn_link_loss locked_insert_loss)

section \<open>The operations the server calls\<close>

lemma timer_loss: "handle_time_out pc s = Inr (pc', s') \<Longrightarrow> constants s' = constants s"
  by (cases pc) (auto simp: rbind_Inr_iff dest: sw_timer_loss sr_timer_loss gbn_timer_loss)

lemma acknowledge_loss: "acknowledge cfg m a s = Inr s' \<Longrightarrow> constants s' = constants s"
  by (cases m)
     (simp_all add: acknowledge_def sw_acknowledge_loss sr_acknowledge_loss gbn_acknowledge_loss)

lemma start_strategy_loss: "start_strategy m s = Inr s' \<Longrightarrow> constants s' = constants s"
  by (cases m)
     (auto simp: start_strategy_def sw_start_def sr_start_def gbn_start_def now_def Let_def rbind_Inr_iff
       container_loss(6) start_loop_loss gbn_loop_loss(1))

lemma send_empty_loss: "send_empty_packet s = Inr s' \<Longrightarrow> constants s' = constants s"
  by (auto simp: send_empty_packet_def constants_def rbind_Inr_iff)

end
