(* ===== verification/Served_Strategies.thy ===== *)
theory Served_Strategies
  imports Loss_Probability
begin

text \<open>
  What the server relies on when it calls a strategy of one of the two modes that keep the
  contract of \<open>Session\<close>: the contract for the strategy the mode selects, and the state it
  starts from.
\<close>

section \<open>The contract for the mode of the server\<close>

fun sinv_of :: "config \<Rightarrow> byte list list \<Rightarrow> (nat \<Rightarrow> bool) \<Rightarrow> any_timer \<Rightarrow> rdt_strategy \<Rightarrow> bool" where
  "sinv_of cfg ds R (SW_Timer pc) s \<longleftrightarrow> server_mode cfg = STOP_AND_WAIT \<and> sw_inv ds R pc s"
| "sinv_of cfg ds R (SR_Timer pc) s \<longleftrightarrow> server_mode cfg = SELECTIVE_REPEAT \<and> sr_inv ds R s"
| "sinv_of cfg ds R (GBN_Timer pc) s \<longleftrightarrow> False"

fun quiet_of :: "config \<Rightarrow> any_timer \<Rightarrow> rdt_strategy \<Rightarrow> bool" where
  "quiet_of cfg (SW_Timer pc) s \<longleftrightarrow> server_mode cfg = STOP_AND_WAIT \<and> sw_quiet pc s"
| "quiet_of cfg (SR_Timer pc) s \<longleftrightarrow> server_mode cfg = SELECTIVE_REPEAT \<and> sr_quiet pc s"
| "quiet_of cfg (GBN_Timer pc) s \<longleftrightarrow> False"

definition trusts_of :: "config \<Rightarrow> ack_packet \<Rightarrow> bool" where
  "trusts_of cfg a \<longleftrightarrow> (server_mode cfg = SELECTIVE_REPEAT \<longrightarrow> ack_cksum a = checksum_of (ack_len a) (ackno a) [])"

definition damage_of :: "config \<Rightarrow> byte list \<Rightarrow> bool" where
  "damage_of cfg = (if server_mode cfg = SELECTIVE_REPEAT then idle_ack else zero_ack)"

interpretation served: sending_strategy "acknowledge cfg (server_mode cfg)" handle_time_out "damage_of cfg" "trusts_of cfg"
    "sinv_of cfg" "quiet_of cfg" for cfg
proof (unfold_locales, goal_cases)
  case (1 ds R pc s R')
  then show ?case using selective_repeat.inv_mono [of ds R s R'] stop_and_wait.inv_mono [of ds R _ s R']
    by (cases pc) auto
next
  case (2 ds R pc s x)
  then show ?case using selective_repeat.inv_sent [of ds R s x] stop_and_wait.inv_sent [of ds R _ s x]
    by (cases pc) auto
next
  case (3 ds R pc s)
  then show ?case using selective_repeat.inv_empty [of ds R s] stop_and_wait.inv_empty [of ds R _ s]
    by (cases pc) auto
next
  case (4 ds R pc s k v l)
  then show ?case using selective_repeat.inv_quiet [of ds R s _ k v l] stop_and_wait.inv_quiet [of ds R _ s k v l]
    by (cases pc) auto
next
  case (5 ds R pc s a)
  then show ?case using selective_repeat.inv_ack [of ds R s a] stop_and_wait.inv_ack [of ds R _ s a]
    by (cases pc) (auto simp: acknowledge_def trusts_of_def)
next
  case (6 ds R pc s pc' s')
  then show ?case using selective_repeat.inv_tick [of ds R s _ _ s'] stop_and_wait.inv_tick [of ds R _ s _ s']
    by (cases pc) (auto simp: rbind_Inr_iff)
next
  case (7 pc s pc' s')
  then show ?case using selective_repeat.quiet_tick [of _ s _ s'] stop_and_wait.quiet_tick [of _ s _ s']
    by (cases pc) (auto simp: rbind_Inr_iff)
next
  case (8 pc s)
  then show ?case using selective_repeat.quiet_window [of _ s] stop_and_wait.quiet_window [of _ s] by (cases pc) auto
next
  case (9 ds R pc s)
  then show ?case using selective_repeat.inv_sender [of ds R s] stop_and_wait.inv_sender [of ds R _ s] by (cases pc) auto
next
  case (10 ds R pc s)
  then show ?case using selective_repeat.inv_check [of ds R s] stop_and_wait.inv_check [of ds R _ s] by (cases pc) auto
next
  case (11 buffer)
  then show ?case using selective_repeat.damage_ignored [of buffer] stop_and_wait.damage_ignored [of buffer]
    by (auto simp: damage_of_def trusts_of_def split: if_splits)
next
  case (12 ds R pc s l)
  then show ?case using selective_repeat.inv_link [of ds R s l] stop_and_wait.inv_link [of ds R _ s l]
    by (cases pc) auto
next
  case (13 pc s l)
  then show ?case using selective_repeat.quiet_link [of _ s l] stop_and_wait.quiet_link [of _ s l]
    by (cases pc) auto
qed

text \<open>Over a link without losses.\<close>

abbreviation live_of :: "byte list list \<Rightarrow> rdt_strategy \<Rightarrow> bool" where
  "live_of ds s \<equiv> posted ds s \<and> lossless s"

interpretation served_waits: waiting_strategy "acknowledge cfg (server_mode cfg)" handle_time_out "damage_of cfg" "trusts_of cfg"
    "sinv_of cfg" "quiet_of cfg" live_of "\<lambda>s. unat (packets_sent s)" for cfg
proof (unfold_locales, goal_cases)
  case (1 ds R pc s a s')
  then show ?case
    using selective_repeat_live.live_ack [of ds R s a s'] stop_and_wait_live.live_ack [of ds R _ s a s']
    by (cases pc) (auto simp: acknowledge_def trusts_of_def)
next
  case (2 ds R pc s pc' s')
  then show ?case
    using selective_repeat_live.live_tick [of ds R s _ _ s'] stop_and_wait_live.live_tick [of ds R _ s _ s']
    by (cases pc) (auto simp: rbind_Inr_iff)
next
  case (3 ds R pc s)
  then show ?case
    using selective_repeat_live.front_posted [of ds R s] stop_and_wait_live.front_posted [of ds R _ s]
    by (cases pc) auto
next
  case (4 ds R pc s s')
  then show ?case
    using selective_repeat_live.front_moves [of ds R s s'] stop_and_wait_live.front_moves [of ds R _ s s']
    by (cases pc) (auto simp: acknowledge_def)
next
  case (5 ds s l)
  then show ?case by (simp add: posted_def lossless_def)
next
  case (6 ds R pc s)
  then show ?case
    using selective_repeat_waits.front_all [of ds R s] stop_and_wait_waits.front_all [of ds R _ s]
    by (cases pc) auto
next
  case (7 ds R pc s pc' s')
  then show ?case
    using selective_repeat_waits.front_tick [of ds R s _ _ s'] stop_and_wait_waits.front_tick [of ds R _ s _ s']
    by (cases pc) (auto simp: rbind_Inr_iff)
next
  case (8 ds s)
  then show ?case by simp
qed

lemma tick_loss: "sinv_of cfg ds R pc s \<or> quiet_of cfg pc s \<Longrightarrow> handle_time_out pc s = Inr (pc', s') \<Longrightarrow> constants s' = constants s"
  by (cases pc) (auto simp: rbind_Inr_iff sr_timer_loss sw_timer_loss)

lemma timer_class_of: "sinv_of cfg ds R pc s \<or> quiet_of cfg pc s \<Longrightarrow> timer_class pc = server_mode cfg"
  by (cases pc) auto

section \<open>The start of a strategy\<close>

text \<open>A configuration the server can serve files with, all of them small enough to be numbered.\<close>

definition serves :: "config \<Rightarrow> bool" where
  "serves cfg \<longleftrightarrow> server_mode cfg \<noteq> GO_BACK_N \<and> length (working_directory cfg) < 200 \<and>
     1 \<le> MAX_WINDOW_SIZE cfg \<and> MAX_WINDOW_SIZE cfg < 2 ^ 31 \<and>
     (\<forall>contents \<in> ran (file_system cfg). length (chunks contents) < 2 ^ 32 - 1)"

definition file_of :: "config \<Rightarrow> path \<Rightarrow> byte list option" where
  "file_of cfg path = file_system cfg (c_str (working_directory cfg @ [47] @ path))"

lemma new_strategy_sender:
  assumes "serves cfg" "new_strategy cfg path l = Inr (m, r)"
  shows "sender r = l"
proof -
  obtain b x y z where "fill_window (base_strategy b l (clock_source cfg) 1 x y z) = Inr r"
    using assms by (cases "server_mode cfg")
      (auto simp: serves_def new_strategy_def new_stop_and_wait_def new_selective_repeat_def rbind_Inr_iff)
  from fill_window_frame [OF this] show ?thesis by (simp add: base_strategy_def)
qed

lemma new_strategy_file:
  assumes "serves cfg" "new_strategy cfg path l = Inr (m, r)"
  obtains contents where "file_of cfg path = Some contents"
  using assms
  by (cases "server_mode cfg"; cases "file_of cfg path")
     (auto simp: serves_def new_strategy_def file_of_def new_stop_and_wait_def new_selective_repeat_def
       new_packet_builder_def get_absolute_path_def rbind_Inr_iff)

lemma served_file_ok:
  assumes "serves cfg" "file_of cfg path = Some contents"
  shows "payloads_ok (chunks contents)"
proof -
  have "contents \<in> ran (file_system cfg)" using assms(2) by (auto simp: file_of_def ran_def)
  then show ?thesis using assms(1) chunks_bounds [of _ contents] by (auto simp: payloads_ok_def serves_def)
qed

lemma served_usable:
  assumes cfg: "serves cfg" and l: "sender_ok l" and f: "file_of cfg path = Some contents"
  shows "usable (working_directory cfg) (file_system cfg) path (MAX_WINDOW_SIZE cfg) l"
    "usable (working_directory cfg) (file_system cfg) path 1 l"
proof -
  have "contents \<in> ran (file_system cfg)" using f by (auto simp: file_of_def ran_def)
  then have "\<And>mx. 1 \<le> mx \<Longrightarrow> mx < 2 ^ 31 \<Longrightarrow> usable (working_directory cfg) (file_system cfg) path mx l"
    using cfg f l by (auto simp: usable_def serves_def file_of_def)
  then show "usable (working_directory cfg) (file_system cfg) path (MAX_WINDOW_SIZE cfg) l"
    "usable (working_directory cfg) (file_system cfg) path 1 l" using cfg by (simp_all add: serves_def)
qed

lemma served_start:
  assumes cfg: "serves cfg" and l: "sender_ok l" and f: "file_of cfg path = Some contents"
    and n: "new_strategy cfg path l = Inr (server_mode cfg, r)" and s: "start_strategy (server_mode cfg) r = Inr r'"
  shows "sinv_of cfg (chunks contents) R (timer_start (server_mode cfg)) r'"
proof -
  note u = served_usable [OF cfg l f]
  note f = f [unfolded file_of_def]
  show ?thesis
  proof (cases "server_mode cfg")
    case STOP_AND_WAIT
    then have "sw_start_server (working_directory cfg) (file_system cfg) path l (clock_source cfg) = Inr r'"
      using n s by (auto simp: new_strategy_def start_strategy_def sw_start_server_def rbind_Inr_iff)
    with sw_initial_live [OF u(2) f, of "clock_source cfg" R] show ?thesis
      using STOP_AND_WAIT by (simp add: timer_start_def sw_inv_def)
  next
    case SELECTIVE_REPEAT
    then have "rbind (new_selective_repeat (working_directory cfg) (file_system cfg) path
        (MAX_WINDOW_SIZE cfg) l (clock_source cfg)) sr_start = Inr r'"
      using n s by (auto simp: new_strategy_def start_strategy_def rbind_Inr_iff)
    with sr_initial_inv [OF u(1) f, of "clock_source cfg" R] show ?thesis
      using SELECTIVE_REPEAT by (simp add: timer_start_def)
  next
    case GO_BACK_N
    then show ?thesis using cfg by (simp add: serves_def)
  qed
qed

text \<open>A strategy that starts has posted its window, and it does start when the file is there.\<close>

lemma served_starts:
  assumes cfg: "serves cfg" and l: "sender_ok l" and f: "file_of cfg path = Some contents"
  obtains r r' where "new_strategy cfg path l = Inr (server_mode cfg, r)" "start_strategy (server_mode cfg) r = Inr r'"
proof -
  note u = served_usable [OF cfg l f] and f' = f [unfolded file_of_def]
  show ?thesis
  proof (cases "server_mode cfg")
    case STOP_AND_WAIT
    with sw_initial_live [OF u(2) f', of "clock_source cfg" "\<lambda>_. True"] show ?thesis
      by (auto simp: new_strategy_def start_strategy_def sw_start_server_def rbind_Inr_iff intro: that)
  next
    case SELECTIVE_REPEAT
    with sr_initial_inv [OF u(1) f', of "clock_source cfg" "\<lambda>_. True"] show ?thesis
      by (auto simp: new_strategy_def start_strategy_def rbind_Inr_iff intro: that)
  next
    case GO_BACK_N
    then show ?thesis using cfg by (simp add: serves_def)
  qed
qed

lemma served_start_live:
  assumes cfg: "serves cfg" and l: "sender_ok l" "loss_probability l \<le> 0" and f: "file_of cfg path = Some contents"
    and n: "new_strategy cfg path l = Inr (server_mode cfg, r)" and s: "start_strategy (server_mode cfg) r = Inr r'"
  shows "live_of (chunks contents) r'"
proof -
  note u = served_usable [OF cfg l(1) f] and f' = f [unfolded file_of_def]
  show ?thesis
  proof (cases "server_mode cfg")
    case STOP_AND_WAIT
    then have "sw_start_server (working_directory cfg) (file_system cfg) path l (clock_source cfg) = Inr r'"
      using n s by (auto simp: new_strategy_def start_strategy_def sw_start_server_def rbind_Inr_iff)
    from sw_initial_posts [OF u(2) f' l(2) this] show ?thesis .
  next
    case SELECTIVE_REPEAT
    then have "start_server (working_directory cfg) (file_system cfg) path
        (MAX_WINDOW_SIZE cfg) l (clock_source cfg) = Inr r'"
      using n s by (auto simp: new_strategy_def start_strategy_def start_server_def rbind_Inr_iff)
    from initial_posts [OF u(1) f' l(2) this] show ?thesis .
  next
    case GO_BACK_N
    then show ?thesis using cfg by (simp add: serves_def)
  qed
qed

end
