(* ===== verification/Service.thy ===== *)
theory Service
  imports Server_Routing Client_Main Served_Strategies
begin

text \<open>
  The whole service: one server, any number of clients on different addresses, and the network
  between them, which loses, delays, duplicates and reorders datagrams, and damages them except
  where the mode does not notice.
\<close>

section \<open>The system\<close>

record service =
  srv :: server_state
  hosts :: "sockaddr_in \<rightharpoonup> client_state"

text \<open>The strategy of a client; after \<open>close\<close>, with its file as it was before.\<close>

fun strategy_at :: "client_config \<Rightarrow> client_place \<Rightarrow> client_strategy" where
  "strategy_at ccfg C_Waiting = new_client_strategy ccfg"
| "strategy_at ccfg (C_Receiving c) = c"
| "strategy_at ccfg (C_Closed c) = c\<lparr>writer := (writer c)\<lparr>file_stream := Some (req_file_name ccfg)\<rparr>\<rparr>"

text \<open>The contents of the file a client has written, as far as it has written it.\<close>

definition host_file :: "client_config \<Rightarrow> client_state \<Rightarrow> byte list" where
  "host_file ccfg h =
     (case client_at h of
        C_Waiting \<Rightarrow> []
      | C_Receiving c \<Rightarrow> (case files (writer c) (req_file_name ccfg) of None \<Rightarrow> [] | Some d \<Rightarrow> d)
      | C_Closed c \<Rightarrow> (case files (writer c) (req_file_name ccfg) of None \<Rightarrow> [] | Some d \<Rightarrow> d))"

definition host_sent :: "client_state \<Rightarrow> byte list list" where
  "host_sent h =
     requests h @ (case client_at h of C_Waiting \<Rightarrow> [] | C_Receiving c \<Rightarrow> cl_sent c | C_Closed c \<Rightarrow> cl_sent c)"

text \<open>What the server has sent to a host: its handshakes and what its workers have sent.\<close>

definition from_server :: "service \<Rightarrow> sockaddr_in \<Rightarrow> byte list \<Rightarrow> bool" where
  "from_server w a x \<longleftrightarrow>
     (a, x) \<in> set (handshakes (srv w)) \<or>
     (\<exists>wk \<in> set (workers (srv w)). peer wk = a \<and> (case rdt wk of None \<Rightarrow> False | Some r \<Rightarrow> x \<in> set (sent r)))"

text \<open>
  What can arrive at the server from a host: what it has sent, and in the mode that checks the
  checksum of acknowledgements, from a registered client, any datagram that fails that check.
\<close>

definition to_server :: "config \<Rightarrow> service \<Rightarrow> sockaddr_in \<Rightarrow> byte list \<Rightarrow> bool" where
  "to_server cfg w a d \<longleftrightarrow>
     (case hosts w a of
        None \<Rightarrow> False
      | Some h \<Rightarrow> d \<in> set (host_sent h) \<or>
          server_mode cfg = SELECTIVE_REPEAT \<and>
          registered_clients (srv w) (get_address_string a) \<noteq> None \<and> damaged_ack d)"

inductive service_step ::
    "config \<Rightarrow> bool \<Rightarrow> (sockaddr_in \<Rightarrow> client_config) \<Rightarrow> service \<Rightarrow> service \<Rightarrow> bool"
  for cfg :: config and reuse :: bool and ccfg :: "sockaddr_in \<Rightarrow> client_config" where
  host_begins:
    "hosts w a = None \<Longrightarrow> sin_family a = AF_INET \<Longrightarrow> client_begin (ccfg a) = Inr h \<Longrightarrow>
     service_step cfg reuse ccfg w (w\<lparr>hosts := (hosts w)(a \<mapsto> h)\<rparr>)"
| host_selects:
    "hosts w a = Some h \<Longrightarrow>
     (r = Readable (server_address (ccfg a)) \<longrightarrow> (\<exists>x. from_server w a x)) \<Longrightarrow>
     client_step (ccfg a) (Selected r) h = Inr h' \<Longrightarrow>
     service_step cfg reuse ccfg w (w\<lparr>hosts := (hosts w)(a \<mapsto> h')\<rparr>)"
| host_receives:
    "hosts w a = Some h \<Longrightarrow> from_server w a x \<or> damaged x \<Longrightarrow>
     client_step (ccfg a) (Received (Some x)) h = Inr h' \<Longrightarrow>
     service_step cfg reuse ccfg w (w\<lparr>hosts := (hosts w)(a \<mapsto> h')\<rparr>)"
| server_acts:
    "server_step cfg reuse (to_server cfg w) (srv w) s' \<Longrightarrow>
     service_step cfg reuse ccfg w (w\<lparr>srv := s'\<rparr>)"

inductive_cases service_stepE: "service_step cfg reuse ccfg w w'"

definition service_start :: "service \<Rightarrow> bool" where
  "service_start w \<longleftrightarrow>
     (\<exists>seed probability sequence garbage.
        srv w = new_server seed probability sequence garbage \<and> sender_ok (link (srv w))) \<and>
     hosts w = Map.empty"

definition service_reachable ::
    "config \<Rightarrow> bool \<Rightarrow> (sockaddr_in \<Rightarrow> client_config) \<Rightarrow> service \<Rightarrow> bool" where
  "service_reachable cfg reuse ccfg = reachable service_start (service_step cfg reuse ccfg)"

section \<open>The invariant\<close>

text \<open>Clients of the mode of the server, that can create their file and name it in a request.\<close>

definition fits :: "config \<Rightarrow> client_config \<Rightarrow> bool" where
  "fits cfg c \<longleftrightarrow> client_mode c = server_mode cfg \<and> creatable c \<and> length (req_file_name c) \<le> 65527"

definition strategy_of :: "(sockaddr_in \<Rightarrow> client_config) \<Rightarrow> service \<Rightarrow> sockaddr_in \<Rightarrow> client_strategy" where
  "strategy_of ccfg w a =
     strategy_at (ccfg a) (case hosts w a of None \<Rightarrow> C_Waiting | Some h \<Rightarrow> client_at h)"

definition host_ok :: "client_config \<Rightarrow> client_state \<Rightarrow> bool" where
  "host_ok c h \<longleftrightarrow>
     req_datagram_buffer h = wire (req_file_name c) 0 \<and> set (requests h) \<subseteq> {wire (req_file_name c) 0} \<and>
     file_stream (writer (strategy_at c (client_at h))) = Some (req_file_name c) \<and>
     (case client_at h of C_Closed s \<Rightarrow> cl_done s | _ \<Rightarrow> True)"

text \<open>An acknowledgement the worker of the client \<open>a\<close> can act on.\<close>

definition benign :: "config \<Rightarrow> (sockaddr_in \<Rightarrow> client_config) \<Rightarrow> service \<Rightarrow> sockaddr_in \<Rightarrow> ack_packet \<Rightarrow> bool" where
  "benign cfg ccfg w a ack \<longleftrightarrow> (trusts_of cfg ack \<longrightarrow> received (strategy_of ccfg w a) (unat (ackno ack)))"

text \<open>A client that has received nothing of any file.\<close>

definition pristine :: "client_strategy \<Rightarrow> bool" where
  "pristine c \<longleftrightarrow> \<not> cl_done c \<and> (\<forall>ds. payloads_ok ds \<longrightarrow> cl_inv ds c)"

text \<open>The session of a worker with its client.\<close>

definition session_of ::
    "(sockaddr_in \<Rightarrow> client_config) \<Rightarrow> service \<Rightarrow> worker \<Rightarrow> rdt_strategy \<Rightarrow> any_timer transfer" where
  "session_of ccfg w wk r =
     \<lparr>server = r\<lparr>sender := link (srv w)\<rparr>, timer_at = timer_place wk,
      over = (place wk = K_Finalize \<or> place wk = K_Ended), client = strategy_of ccfg w (peer wk)\<rparr>"

definition session_ok ::
    "config \<Rightarrow> (sockaddr_in \<Rightarrow> client_config) \<Rightarrow> service \<Rightarrow> worker \<Rightarrow> rdt_strategy \<Rightarrow> bool" where
  "session_ok cfg ccfg w wk r \<longleftrightarrow>
     (\<exists>contents. file_of cfg (file_path wk) = Some contents \<and>
        session_inv (sinv_of cfg) (quiet_of cfg) (chunks contents) (session_of ccfg w wk r))"

definition worker_ok :: "config \<Rightarrow> (sockaddr_in \<Rightarrow> client_config) \<Rightarrow> service \<Rightarrow> worker \<Rightarrow> bool" where
  "worker_ok cfg ccfg w wk \<longleftrightarrow>
     (\<forall>ack. place wk = K_Acknowledge ack \<longrightarrow> benign cfg ccfg w (peer wk) ack) \<and>
     (case rdt wk of
        None \<Rightarrow> place wk = K_Start \<and> pristine (strategy_of ccfg w (peer wk))
      | Some r \<Rightarrow> place wk \<noteq> K_Start \<and> session_ok cfg ccfg w wk r \<and> (place wk = K_Finish \<longrightarrow> window r = []))"

fun message_ok :: "config \<Rightarrow> (sockaddr_in \<Rightarrow> client_config) \<Rightarrow> service \<Rightarrow> main_pc \<Rightarrow> bool" where
  "message_ok cfg ccfg w (M_Route a ack) \<longleftrightarrow> hosts w a \<noteq> None \<and> benign cfg ccfg w a ack"
| "message_ok cfg ccfg w (M_Push tid ack) \<longleftrightarrow>
     (\<forall>wk \<in> set (workers (srv w)). thread wk = tid \<longrightarrow> benign cfg ccfg w (peer wk) ack)"
| "message_ok cfg ccfg w (M_Dispatch a path) \<longleftrightarrow> hosts w a \<noteq> None \<and> path = req_file_name (ccfg a)"
| "message_ok cfg ccfg w pc \<longleftrightarrow> True"

definition queues_ok :: "config \<Rightarrow> (sockaddr_in \<Rightarrow> client_config) \<Rightarrow> service \<Rightarrow> bool" where
  "queues_ok cfg ccfg w \<longleftrightarrow>
     (\<forall>tid q. worker_threads_acks (srv w) tid = Some q \<longrightarrow> q \<noteq> [] \<longrightarrow>
        tid \<in> thread ` set (workers (srv w)) \<and>
        (\<forall>wk \<in> set (workers (srv w)). thread wk = tid \<longrightarrow> (\<forall>ack \<in> set q. benign cfg ccfg w (peer wk) ack)))"

text \<open>
  The main thread sends a handshake just before it dispatches a worker, and a client stops
  waiting only when the server has sent it something.
\<close>

definition contacted :: "server_state \<Rightarrow> sockaddr_in \<Rightarrow> bool" where
  "contacted s a \<longleftrightarrow> a \<in> fst ` set (handshakes s) \<or> a \<in> peer ` set (workers s)"

definition greeting_inv :: "server_state \<Rightarrow> bool" where
  "greeting_inv s \<longleftrightarrow>
     (\<forall>m \<in> set (handshakes s). snd m = ack_wire 0 \<and>
        (registered_clients s (get_address_string (fst m)) \<noteq> None \<or>
         (\<exists>p. main_place s = M_Dispatch (fst m) p) \<or> (\<exists>t. main_place s = M_Register t (fst m))))"

definition service_inv :: "config \<Rightarrow> (sockaddr_in \<Rightarrow> client_config) \<Rightarrow> service \<Rightarrow> bool" where
  "service_inv cfg ccfg w \<longleftrightarrow>
     routing_inv (srv w) \<and> threads_inv (srv w) \<and> sender_ok (link (srv w)) \<and>
     (\<forall>a h. hosts w a = Some h \<longrightarrow> sin_family a = AF_INET \<and> host_ok (ccfg a) h \<and>
        (client_at h \<noteq> C_Waiting \<longrightarrow> contacted (srv w) a)) \<and>
     (\<forall>a. (\<forall>wk \<in> set (workers (srv w)). peer wk \<noteq> a) \<longrightarrow> pristine (strategy_of ccfg w a)) \<and>
     greeting_inv (srv w) \<and>
     (\<forall>wk \<in> set (workers (srv w)). hosts w (peer wk) \<noteq> None \<and>
        file_path wk = req_file_name (ccfg (peer wk)) \<and> worker_ok cfg ccfg w wk) \<and>
     message_ok cfg ccfg w (main_place (srv w)) \<and> queues_ok cfg ccfg w"

end
