(* ===== verification/Service_Hosts.thy ===== *)
theory Service_Hosts
  imports Service
begin

text \<open>
  What holds of the clients and of the requests in every state of the service, whatever the mode,
  the acknowledgements and the names of the threads: a client is where its loops have brought it,
  it has left the first only when the server has sent it something, and its worker has been
  started with the name of the file it asked for.
\<close>

section \<open>The client's side\<close>

text \<open>The client does not close its file before it is done.\<close>

lemma fw_write_stream [simp]: "file_stream (fw_write d w) = file_stream w"
  by (auto simp: fw_write_def split: option.splits)

lemma sr_run_stream: "sr_client_run r c = Inr c' \<Longrightarrow> file_stream (writer c') = file_stream (writer c)"
proof (erule yieldsD [rotated])
  have "file_stream (writer (deliver_loop ps c)) = file_stream (writer c)" for ps c
    by (induction ps arbitrary: c) (auto simp: Let_def)
  then show "yields (\<lambda>c'. file_stream (writer c') = file_stream (writer c)) (sr_client_run r c)"
    unfolding sr_client_run_def send_ack_eq
    by (intro yields_intros) (simp_all add: deliver_buffered_packets_def)
qed

lemma gbn_run_stream: "gbn_client_run r c = Inr c' \<Longrightarrow> file_stream (writer c') = file_stream (writer c)"
proof (erule yieldsD [rotated])
  show "yields (\<lambda>c'. file_stream (writer c') = file_stream (writer c)) (gbn_client_run r c)"
    unfolding gbn_client_run_def send_ack_eq
    by (intro yields_intros) (simp_all add: gbn_deliver_packet_def Let_def)
qed

lemma run_stream: "run_client m r c = Inr c' \<Longrightarrow> file_stream (writer c') = file_stream (writer c)"
  by (cases m) (auto simp: run_client_def dest: sr_run_stream gbn_run_stream)

lemma new_client_stream: "fits cfg c \<Longrightarrow> file_stream (writer (new_client_strategy c)) = Some (req_file_name c)"
  by (cases "client_mode c")
     (simp_all add: fits_def new_client_strategy_def new_client_selective_repeat_def new_client_go_back_N_def
       fw_open_def new_file_writer_def Let_def)

lemma strategy_close:
  assumes "file_stream (writer c) = Some (req_file_name k)"
  shows "strategy_at k (C_Closed (c\<lparr>writer := fw_close (writer c)\<rparr>)) = c"
  using assms by (cases c; cases "writer c") (simp add: fw_close_def)

text \<open>The three things a round of the client can do, seen from outside.\<close>

lemma client_step_cases:
  assumes f: "fits cfg k" and h: "host_ok k h"
    and st: "client_step k e h = Inr h'"
  shows "host_ok k h' \<and>
    (strategy_at k (client_at h') = strategy_at k (client_at h) \<or>
     (\<exists>x. e = Received x \<and>
        run_client (client_mode k) x (strategy_at k (client_at h)) = Inr (strategy_at k (client_at h'))))"
proof (cases e)
  case (Selected r)
  then show ?thesis using st h new_client_stream [OF f]
    by (auto simp: handle_ack_timeout_def host_ok_def split: client_place.splits select_result.splits if_splits)
next
  case (Received x)
  show ?thesis
  proof (cases "client_at h")
    case (C_Receiving c)
    then have s: "file_stream (writer c) = Some (req_file_name k)" using h by (simp add: host_ok_def)
    show ?thesis
    proof (cases "cl_done c")
      case True
      then have h': "h' = h\<lparr>client_at := C_Closed (c\<lparr>writer := fw_close (writer c)\<rparr>)\<rparr>"
        using st Received C_Receiving by (simp add: receive_datagrams_def)
      then show ?thesis using h True s C_Receiving strategy_close [OF s] by (simp add: host_ok_def)
    next
      case False
      then obtain c' where c': "run_client (client_mode k) x c = Inr c'" "h' = h\<lparr>client_at := C_Receiving c'\<rparr>"
        using st Received C_Receiving by (auto simp: receive_datagrams_def rbind_Inr_iff)
      then show ?thesis using h s C_Receiving Received run_stream [OF c'(1)] by (simp add: host_ok_def)
    qed
  qed (use st h Received in simp_all)
qed

lemma client_begin_ok:
  assumes "fits cfg k" "client_begin k = Inr h"
  shows "host_ok k h" "client_at h = C_Waiting"
  using assms new_client_stream [OF assms(1)]
  by (auto simp: client_begin_def create_req_datagram_def rbind_Inr_iff host_ok_def fits_def pack_mk_packet)

lemma host_file_output:
  assumes "host_ok (ccfg a) h" "hosts w a = Some h" "fits cfg (ccfg a)"
  shows "host_file (ccfg a) h = cl_output (strategy_of ccfg w a)"
proof -
  have "cl_output (new_client_strategy (ccfg a)) = []"
    using assms(3) by (cases "client_mode (ccfg a)")
      (auto simp: fits_def new_client_strategy_def new_client_selective_repeat_def new_client_go_back_N_def
        cl_output_def fw_open_def new_file_writer_def)
  then show ?thesis using assms(1,2)
    by (cases "client_at h") (auto simp: host_file_def strategy_of_def cl_output_def host_ok_def)
qed

section \<open>The invariant\<close>

text \<open>
  The tables of the server, its handshakes, the clients that have begun, and the file each worker
  is to send.
\<close>

definition hosts_ok :: "(sockaddr_in \<Rightarrow> client_config) \<Rightarrow> service \<Rightarrow> bool" where
  "hosts_ok ccfg w \<longleftrightarrow>
     (\<forall>a h. hosts w a = Some h \<longrightarrow> sin_family a = AF_INET \<and> host_ok (ccfg a) h \<and>
        (client_at h \<noteq> C_Waiting \<longrightarrow> contacted (srv w) a))"

definition requests_ok :: "(sockaddr_in \<Rightarrow> client_config) \<Rightarrow> service \<Rightarrow> bool" where
  "requests_ok ccfg w \<longleftrightarrow>
     (\<forall>a path. main_place (srv w) = M_Dispatch a path \<longrightarrow> path = req_file_name (ccfg a)) \<and>
     (\<forall>wk \<in> set (workers (srv w)). file_path wk = req_file_name (ccfg (peer wk)))"

definition hosts_inv :: "(sockaddr_in \<Rightarrow> client_config) \<Rightarrow> service \<Rightarrow> bool" where
  "hosts_inv ccfg w \<longleftrightarrow>
     routing_inv (srv w) \<and> greeting_inv (srv w) \<and> hosts_ok ccfg w \<and> requests_ok ccfg w"

section \<open>What arrives\<close>

lemma ack_packet_prefix:
  assumes "ack_packet_of_buffer d = Inr a"
  shows "ack_packet_of_buffer (take MAX_UDP_BUFFER_SIZE d @ rest) = Inr a"
proof -
  have "8 \<le> length d"
    using assms by (auto simp: ack_packet_of_buffer_def string_of_buffer_def ACK_PKT_LEN_def rbind_Inr_iff split: if_splits)
  then have "string_of_buffer (take MAX_UDP_BUFFER_SIZE d @ rest) ACK_PKT_LEN = string_of_buffer d ACK_PKT_LEN"
    by (simp add: string_of_buffer_def ACK_PKT_LEN_def MAX_UDP_BUFFER_SIZE_def min_def)
  then show ?thesis using assms by (simp add: ack_packet_of_buffer_def)
qed

text \<open>A data packet that is read as an acknowledgement keeps its number.\<close>

lemma request_as_ack: "\<exists>a. ack_packet_of_buffer (wire d n @ rest) = Inr a \<and> ackno a = n"
proof -
  have "string_of_buffer (wire d n @ rest) ACK_PKT_LEN =
      Inr (header_bytes n (of_nat (length d + 8)) (checksum_of (of_nat (length d + 8)) n d))"
    by (simp add: string_of_buffer_def ACK_PKT_LEN_def wire_def)
  then show ?thesis
    using unpack_ack_header [of n _ _ "[]"] by (simp add: ack_packet_of_buffer_def)
qed

lemma data_packet_prefix:
  assumes "length d < 2 ^ 63"
  shows "data_packet_of_buffer (d @ rest) (int (length d)) = data_packet_of_buffer d (int (length d))"
proof -
  have "to_size_t (int (length d)) = length d" using assms by (subst to_size_t_nonneg) auto
  then show ?thesis by (simp add: data_packet_of_buffer_def string_of_buffer_def)
qed

lemma host_sent_cases:
  assumes "host_ok (ccfg a) h" "hosts w a = Some h" "d \<in> set (host_sent h)"
  shows "d = wire (req_file_name (ccfg a)) 0 \<or>
    client_at h \<noteq> C_Waiting \<and> d \<in> set (cl_sent (strategy_of ccfg w a))"
  using assms by (cases "client_at h") (auto simp: host_sent_def host_ok_def strategy_of_def)

text \<open>A client that is not registered has sent nothing but its request.\<close>

lemma unregistered_sent:
  assumes inv: "hosts_inv ccfg w" and m: "main_place (srv w) = M_Receive"
    and new: "registered_clients (srv w) (get_address_string a) = None" and d: "to_server cfg w a d"
  shows "d = wire (req_file_name (ccfg a)) 0"
proof -
  obtain h where h: "hosts w a = Some h" using d by (auto simp: to_server_def split: option.splits)
  then have hok: "host_ok (ccfg a) h" "client_at h \<noteq> C_Waiting \<longrightarrow> contacted (srv w) a"
    using inv by (simp_all add: hosts_inv_def hosts_ok_def)
  have "\<not> contacted (srv w) a"
    using inv new m by (force simp: hosts_inv_def routing_inv_def greeting_inv_def contacted_def client_key_def)
  then show ?thesis using d h hok(2) host_sent_cases [of ccfg a h w d, OF hok(1) h] new by (auto simp: to_server_def)
qed

lemma request_read:
  assumes "fits cfg c"
  shows "data_packet_of_buffer (take MAX_UDP_BUFFER_SIZE (wire (req_file_name c) 0) @ rest)
      (int (length (take MAX_UDP_BUFFER_SIZE (wire (req_file_name c) 0)))) = Inr (mk_packet (req_file_name c) 0)"
proof -
  have n: "length (req_file_name c) \<le> 65527" using assms by (simp add: fits_def)
  let ?d = "wire (req_file_name c) 0"
  have "take MAX_UDP_BUFFER_SIZE ?d = ?d" using n by (simp add: MAX_UDP_BUFFER_SIZE_def)
  then show ?thesis using n data_packet_prefix [of ?d rest] data_packet_of_wire [OF n, of 0] by simp
qed

lemma arriving_request:
  assumes inv: "hosts_inv ccfg w" and fit: "fits cfg (ccfg a)" and m: "main_place (srv w) = M_Receive"
    and new: "registered_clients (srv w) (get_address_string a) = None" and d: "to_server cfg w a d"
    and request: "data_packet_of_buffer (take MAX_UDP_BUFFER_SIZE d @ rest)
      (int (length (take MAX_UDP_BUFFER_SIZE d))) = Inr request"
  shows "data request = req_file_name (ccfg a)"
  using request_read [OF fit, of rest] request unregistered_sent [OF inv m new d] by auto

section \<open>Steps of one worker\<close>

lemma own_members:
  assumes "own_step k s s'" "k < length (workers s)"
  shows "v \<in> set (workers s') \<Longrightarrow>
      \<exists>u \<in> set (workers s). thread u = thread v \<and> peer u = peer v \<and> file_path u = file_path v"
    and "thread ` set (workers s') = thread ` set (workers s)" "peer ` set (workers s') = peer ` set (workers s)"
proof -
  have e: "entry ` set (workers s') = entry ` set (workers s)"
    using arg_cong [OF own_entries [OF assms], of set] by simp
  show "\<exists>u \<in> set (workers s). thread u = thread v \<and> peer u = peer v \<and> file_path u = file_path v"
    if "v \<in> set (workers s')"
  proof -
    have "entry v \<in> entry ` set (workers s)" using that e by blast
    then obtain u where "u \<in> set (workers s)" "entry v = entry u" by blast
    then show ?thesis by (auto simp: entry_def)
  qed
  have "fst ` entry ` set (workers s') = fst ` entry ` set (workers s)"
    "(fst \<circ> snd) ` entry ` set (workers s') = (fst \<circ> snd) ` entry ` set (workers s)" using e by simp_all
  then show "thread ` set (workers s') = thread ` set (workers s)" "peer ` set (workers s') = peer ` set (workers s)"
    by (simp_all add: image_image entry_def)
qed

section \<open>Every step keeps the invariant\<close>

lemma client_keeps_hosts:
  assumes fit: "fits cfg (ccfg a)" and inv: "hosts_inv ccfg w" and h: "hosts w a = Some h"
    and st: "client_step (ccfg a) e h = Inr h'"
    and e: "e = Selected (Readable (server_address (ccfg a))) \<Longrightarrow> contacted (srv w) a"
  shows "hosts_inv ccfg (w\<lparr>hosts := (hosts w)(a \<mapsto> h')\<rparr>)"
proof -
  have hok: "host_ok (ccfg a) h" "sin_family a = AF_INET" "client_at h \<noteq> C_Waiting \<longrightarrow> contacted (srv w) a"
    using inv h by (simp_all add: hosts_inv_def hosts_ok_def)
  have "client_at h' \<noteq> C_Waiting \<longrightarrow> contacted (srv w) a"
    using st e hok(3) by (cases e) (auto simp: handle_ack_timeout_def split: client_place.splits select_result.splits if_splits)
  then show ?thesis using inv hok(2) client_step_cases [OF fit hok(1) st]
    by (auto simp: hosts_inv_def hosts_ok_def requests_ok_def contacted_def)
qed

lemma from_server_contacted: "from_server w a x \<Longrightarrow> contacted (srv w) a"
  by (force simp: from_server_def contacted_def)

text \<open>What the server keeps.\<close>

lemma own_keeps_hosts:
  assumes inv: "hosts_inv ccfg w" and own: "own_step k (srv w) s'" and k: "k < length (workers (srv w))"
  shows "hosts_inv ccfg (w\<lparr>srv := s'\<rparr>)"
proof -
  have f: "registered_clients s' = registered_clients (srv w)" "main_place s' = main_place (srv w)"
    "handshakes s' = handshakes (srv w)" using own by (auto simp: own_step_def)
  have "contacted s' = contacted (srv w)" by (simp add: contacted_def fun_eq_iff f(3) own_members(3) [OF own k])
  moreover have "file_path v = req_file_name (ccfg (peer v))" if v: "v \<in> set (workers s')" for v
  proof -
    obtain u where "u \<in> set (workers (srv w))" "peer u = peer v" "file_path u = file_path v"
      using own_members(1) [OF own k v] by blast
    then show ?thesis using inv by (fastforce simp: hosts_inv_def requests_ok_def)
  qed
  ultimately show ?thesis using inv own_routing [OF own k] f
    by (simp add: hosts_inv_def hosts_ok_def requests_ok_def greeting_inv_def)
qed

lemma main_keeps_hosts:
  assumes inv: "hosts_inv ccfg w"
  shows "hosts_inv ccfg (w\<lparr>srv := main_step cfg tid (srv w) (main_place (srv w))\<rparr>)"
proof -
  let ?s = "srv w" let ?s' = "main_step cfg tid ?s (main_place ?s)"
  have r: "routing_inv ?s" and g: "greeting_inv ?s" and q: "requests_ok ccfg w"
    using inv by (simp_all add: hosts_inv_def)
  have "routing_inv ?s'" by (rule main_step_routing [OF r])
  moreover have "contacted ?s a \<Longrightarrow> contacted ?s' a" for a
    by (cases "main_place ?s") (auto simp: contacted_def Let_def split: prod.splits)
  moreover have "greeting_inv ?s'"
  proof (cases "main_place ?s")
    case (M_Route a ack)
    then have "registered_clients ?s (get_address_string a) \<noteq> None" using r by (simp add: routing_inv_def)
    then show ?thesis using g M_Route by (fastforce simp: greeting_inv_def index_map_def)
  qed (use g in \<open>auto simp: greeting_inv_def index_map_def split: option.splits\<close>)
  moreover have "requests_ok ccfg (w\<lparr>srv := ?s'\<rparr>)"
    using q by (cases "main_place ?s") (auto simp: requests_ok_def Let_def split: prod.splits)
  ultimately show ?thesis using inv by (auto simp: hosts_inv_def hosts_ok_def)
qed

lemma receive_keeps_hosts:
  assumes inv: "hosts_inv ccfg w" and fit: "fits cfg (ccfg a)" and m: "main_place (srv w) = M_Receive"
    and d: "to_server cfg w a d" and st: "server_receive (Some (a, d)) (srv w) = Inr s'"
  shows "hosts_inv ccfg (w\<lparr>srv := s'\<rparr>)"
proof -
  have r: "routing_inv (srv w)" and g: "greeting_inv (srv w)" and q: "requests_ok ccfg w"
    using inv by (simp_all add: hosts_inv_def)
  have ro: "routing_inv s'" by (rule receive_routing [OF r m st])
  from st show ?thesis
  proof (cases rule: server_receive_cases)
    case (registered ack)
    then show ?thesis using ro g m inv
      by (auto simp: hosts_inv_def hosts_ok_def requests_ok_def greeting_inv_def contacted_def)
  next
    case (request request)
    then have "data request = req_file_name (ccfg a)" using arriving_request [OF inv fit m request(1) d] by simp
    then show ?thesis using request(3) ro g m inv
      by (auto simp: hosts_inv_def hosts_ok_def requests_ok_def greeting_inv_def contacted_def)
  qed
qed

lemma step_keeps_hosts:
  assumes fit: "\<And>a. fits cfg (ccfg a)" and inv: "hosts_inv ccfg w" and st: "service_step cfg reuse ccfg w w'"
  shows "hosts_inv ccfg w'"
  using st
proof (cases rule: service_step.cases)
  case (host_begins a h)
  show ?thesis unfolding host_begins(1)
    using inv host_begins client_begin_ok [OF fit host_begins(4)]
    by (auto simp: hosts_inv_def hosts_ok_def requests_ok_def)
next
  case (host_selects a h r h')
  show ?thesis unfolding host_selects(1)
    by (rule client_keeps_hosts [OF fit inv host_selects(2,4)]) (use host_selects(3) from_server_contacted in auto)
next
  case (host_receives a h x h')
  show ?thesis unfolding host_receives(1)
    by (rule client_keeps_hosts [OF fit inv host_receives(2,4)]) simp
next
  case (server_acts s')
  from server_acts(2) show ?thesis
  proof (cases rule: server_step.cases)
    case (main_receives a d)
    then show ?thesis using receive_keeps_hosts [OF inv fit] server_acts(1) by blast
  next
    case (main_continues pc tid)
    then show ?thesis using main_keeps_hosts [OF inv] server_acts(1) by auto
  next
    case (worker_steps k)
    then show ?thesis using own_keeps_hosts [OF inv worker_step_own] server_acts(1) by blast
  next
    case (timer_steps k)
    then show ?thesis using own_keeps_hosts [OF inv timer_step_own(1)] server_acts(1) by blast
  qed
qed

lemma start_hosts: "service_start w \<Longrightarrow> hosts_inv ccfg w"
proof -
  assume "service_start w"
  then obtain seed p sequence g where s: "srv w = new_server seed p sequence g" "hosts w = Map.empty"
    by (auto simp: service_start_def)
  have "routing_inv (srv w)" by (simp add: s(1) start_routing)
  then show ?thesis using s by (simp add: hosts_inv_def hosts_ok_def requests_ok_def greeting_inv_def new_server_def)
qed

lemma reachable_hosts:
  assumes "\<And>a. fits cfg (ccfg a)" "service_reachable cfg reuse ccfg w"
  shows "hosts_inv ccfg w"
proof -
  have "reachable service_start (service_step cfg reuse ccfg) w" using assms(2) by (simp add: service_reachable_def)
  then show ?thesis
    by (induction rule: reachable.induct) (use start_hosts step_keeps_hosts assms(1) in blast)+
qed

end
