(* ===== verification/Service_Inv.thy ===== *)
theory Service_Inv
  imports Service_Hosts
begin

text \<open>The invariant of the service is kept by every step.\<close>

section \<open>The client's side\<close>

lemma received_bound:
  assumes inv: "cl_inv ds c" and j: "j < 2 ^ 32" "received c j"
  shows "j \<le> length ds"
proof -
  obtain e where core: "cl_core ds e c" using inv by (auto simp: cl_inv_def)
  have e: "unat (expected_seqno c) = e" "e \<le> Suc (length ds)"
    using core core_number [OF core] by (simp_all add: cl_core_def)
  from j(2) consider "j < e" | "of_nat j \<in> seqno ` set (cl_window c)" by (auto simp: received_def e(1))
  then show ?thesis
  proof cases
    case 2
    then obtain i where i: "i \<le> length ds" "(of_nat j :: 32 word) = of_nat i"
      using core by (force simp: cl_core_def)
    have "i < 2 ^ 32" using core_small [OF core, of i] i(1) by simp
    then show ?thesis using i j(1) of_nat_32_inj by auto
  qed (use e(2) in simp)
qed

text \<open>What one datagram does to a client whose worker runs, or has not started.\<close>

lemma deliver_started:
  assumes inv: "session_inv (sinv_of cfg) (quiet_of cfg) ds t" and x: "x \<in> set (sent (server t)) \<or> stray x"
    and r: "sr_client_run (Some x) (client t) = Inr c"
  shows "session_inv (sinv_of cfg) (quiet_of cfg) ds (t\<lparr>client := c\<rparr>)"
    and "j < 2 ^ 32 \<Longrightarrow> received (client t) j \<Longrightarrow> received c j"
proof -
  show i: "session_inv (sinv_of cfg) (quiet_of cfg) ds (t\<lparr>client := c\<rparr>)"
    using served.deliver_data_ok [OF inv x] r by auto
  assume j: "j < 2 ^ 32" "received (client t) j"
  note cl = session_client [OF inv]
  have jl: "j \<le> length ds" by (rule received_bound [OF cl j])
  consider (stray) "stray x" | (packet) "is_data_wire ds x" | (terminal) "over t" "x = terminal_wire ds"
    using x inv served.inv_sent by (fastforce simp: session_inv_def ended_def split: if_splits)
  then show "received c j"
  proof cases
    case stray
    then show ?thesis using run_stray [OF cl] r j(2) by force
  next
    case packet
    then show ?thesis using run_packet [OF cl] r j(2) jl unfolding is_data_wire_def by fastforce
  next
    case terminal
    then have "\<forall>i. 1 \<le> i \<and> i \<le> length ds \<longrightarrow> received (client t) i"
      using inv by (simp add: session_inv_def ended_def all_received_def)
    from run_terminal [OF cl this] show ?thesis using r j(2) terminal(2) unfolding terminal_wire_def by force
  qed
qed

lemma deliver_unstarted:
  assumes "pristine c" "stray x" "sr_client_run (Some x) c = Inr c'"
  shows "pristine c'" "received c' = received c"
proof -
  have p: "payloads_ok []" by (simp add: payloads_ok_def)
  have i: "cl_inv ds c" if "payloads_ok ds" for ds using assms(1) that by (simp add: pristine_def)
  show "received c' = received c" using run_stray [OF i [OF p] assms(2)] assms(3) by auto
  have "cl_done c' = cl_done c" using run_stray [OF i [OF p] assms(2)] assms(3) by auto
  moreover have "cl_inv ds c'" if "payloads_ok ds" for ds using run_stray [OF i [OF that] assms(2)] assms(3) by auto
  ultimately show "pristine c'" using assms(1) by (simp add: pristine_def)
qed

lemma new_client_pristine:
  assumes "fits cfg c" "server_mode cfg \<noteq> GO_BACK_N"
  shows "pristine (new_client_strategy c)"
proof -
  obtain n where n: "new_client_strategy c = new_client_selective_repeat n (fw_open True (req_file_name c) new_file_writer)"
    using assms by (cases "server_mode cfg") (auto simp: fits_def new_client_strategy_def Let_def)
  have f: "file_stream new_file_writer = None" by (simp add: new_file_writer_def)
  show ?thesis
    unfolding n pristine_def using client_initial [OF _ f] by (simp add: new_client_selective_repeat_def)
qed

lemma run_client_sr: "fits cfg k \<Longrightarrow> server_mode cfg \<noteq> GO_BACK_N \<Longrightarrow> run_client (client_mode k) = sr_client_run"
  by (cases "client_mode k") (auto simp: run_client_def fits_def)

text \<open>The invariant of the hosts is a part of that of the service.\<close>

lemma service_hosts: "service_inv cfg ccfg w \<Longrightarrow> hosts_inv ccfg w"
  by (auto simp: service_inv_def hosts_inv_def hosts_ok_def requests_ok_def)

section \<open>Steps of the clients\<close>

lemma strategy_of_update:
  "strategy_of ccfg (w\<lparr>hosts := (hosts w)(a \<mapsto> h)\<rparr>) =
   (strategy_of ccfg w)(a := strategy_at (ccfg a) (client_at h))"
  by (simp add: strategy_of_def fun_eq_iff)

lemma strategy_of_srv [simp]: "strategy_of ccfg (w\<lparr>srv := s\<rparr>) = strategy_of ccfg w"
  by (simp add: strategy_of_def fun_eq_iff)

lemma benign_mono:
  assumes "\<And>j. j < 2 ^ 32 \<Longrightarrow> received (strategy_of ccfg w a) j \<Longrightarrow> received (strategy_of ccfg w' a) j"
    and "benign cfg ccfg w a ack"
  shows "benign cfg ccfg w' a ack"
  using assms unat_bound [of "ackno ack"] by (simp add: benign_def)

lemma one_worker:
  assumes "routing_inv s" "wk \<in> set (workers s)" "v \<in> set (workers s)" "peer wk = peer v"
  shows "wk = v"
  using assms by (auto simp: routing_inv_def distinct_map client_key_def inj_on_def)

lemma host_change:
  assumes inv: "service_inv cfg ccfg w" and h: "host_ok (ccfg a) h'" "sin_family a = AF_INET"
      "client_at h' \<noteq> C_Waiting \<longrightarrow> contacted (srv w) a"
    and w': "w' = w\<lparr>hosts := (hosts w)(a \<mapsto> h')\<rparr>"
    and mono: "\<And>j. j < 2 ^ 32 \<Longrightarrow> received (strategy_of ccfg w a) j \<Longrightarrow> received (strategy_of ccfg w' a) j"
    and pristine: "pristine (strategy_of ccfg w a) \<Longrightarrow> \<forall>wk \<in> set (workers (srv w)). peer wk = a \<longrightarrow> rdt wk = None \<Longrightarrow>
      pristine (strategy_of ccfg w' a)"
    and started: "\<And>wk r. wk \<in> set (workers (srv w)) \<Longrightarrow> peer wk = a \<Longrightarrow> rdt wk = Some r \<Longrightarrow> session_ok cfg ccfg w' wk r"
  shows "service_inv cfg ccfg w'"
proof -
  let ?ws = "set (workers (srv w))"
  have other: "strategy_of ccfg w' b = strategy_of ccfg w b" if "b \<noteq> a" for b
    using that by (simp add: w' strategy_of_update)
  have ben: "benign cfg ccfg w b ack \<Longrightarrow> benign cfg ccfg w' b ack" for b ack
    using benign_mono [of ccfg w b w' cfg ack] mono other by (cases "b = a") simp_all
  have one: "wk = v" if "wk \<in> ?ws" "v \<in> ?ws" "peer wk = peer v" for wk v
    using that inv by (intro one_worker [of "srv w"]) (simp_all add: service_inv_def)
  have wok: "worker_ok cfg ccfg w' wk" if wk: "wk \<in> ?ws" for wk
  proof -
    have ok: "worker_ok cfg ccfg w wk" using inv wk by (simp add: service_inv_def)
    show ?thesis
    proof (cases "peer wk = a")
      case True
      show ?thesis
      proof (cases "rdt wk")
        case None
        then have "\<forall>v \<in> ?ws. peer v = a \<longrightarrow> rdt v = None" using one wk True by metis
        then show ?thesis using ok None ben pristine True by (auto simp: worker_ok_def)
      next
        case (Some r)
        then show ?thesis using ok ben started [OF wk True Some] by (auto simp: worker_ok_def)
      qed
    next
      case False
      then have "session_ok cfg ccfg w wk r \<Longrightarrow> session_ok cfg ccfg w' wk r" for r
        using other by (simp add: session_ok_def session_of_def w')
      then show ?thesis using ok ben other [OF False] by (auto simp: worker_ok_def split: option.splits)
    qed
  qed
  have un: "pristine (strategy_of ccfg w' b)" if "\<forall>wk \<in> ?ws. peer wk \<noteq> b" for b
    using inv that pristine other by (cases "b = a") (auto simp: service_inv_def)
  have sv: "srv w' = srv w" by (simp add: w')
  have "message_ok cfg ccfg w' pc" if "message_ok cfg ccfg w pc" for pc
    using that ben by (cases pc) (auto simp: w')
  moreover have "queues_ok cfg ccfg w'" using inv ben unfolding service_inv_def queues_ok_def sv by blast
  moreover have "\<forall>b k. hosts w' b = Some k \<longrightarrow> sin_family b = AF_INET \<and> host_ok (ccfg b) k \<and>
      (client_at k \<noteq> C_Waiting \<longrightarrow> contacted (srv w') b)"
    using inv h by (auto simp: service_inv_def w' contacted_def)
  moreover have "\<forall>wk \<in> ?ws. hosts w' (peer wk) \<noteq> None" using inv by (simp add: service_inv_def w')
  ultimately show ?thesis using inv wok un unfolding service_inv_def sv by blast
qed

lemma host_same:
  assumes inv: "service_inv cfg ccfg w" and h: "host_ok (ccfg a) h'" "sin_family a = AF_INET"
      "client_at h' \<noteq> C_Waiting \<longrightarrow> contacted (srv w) a"
    and same: "strategy_at (ccfg a) (client_at h') = strategy_of ccfg w a"
  shows "service_inv cfg ccfg (w\<lparr>hosts := (hosts w)(a \<mapsto> h')\<rparr>)"
proof (rule host_change [OF inv h refl])
  have s: "strategy_of ccfg (w\<lparr>hosts := (hosts w)(a \<mapsto> h')\<rparr>) = strategy_of ccfg w"
    using same by (simp add: strategy_of_update)
  show "received (strategy_of ccfg (w\<lparr>hosts := (hosts w)(a \<mapsto> h')\<rparr>) a) j" if "received (strategy_of ccfg w a) j" for j
    using that s by simp
  show "pristine (strategy_of ccfg (w\<lparr>hosts := (hosts w)(a \<mapsto> h')\<rparr>) a)" if "pristine (strategy_of ccfg w a)"
    using that s by simp
  show "session_ok cfg ccfg (w\<lparr>hosts := (hosts w)(a \<mapsto> h')\<rparr>) wk r"
    if "wk \<in> set (workers (srv w))" "rdt wk = Some r" for wk r
  proof -
    have "session_ok cfg ccfg w wk r" using inv that by (auto simp: service_inv_def worker_ok_def)
    then show ?thesis using s by (simp add: session_ok_def session_of_def)
  qed
qed

lemma from_server_cases:
  assumes inv: "service_inv cfg ccfg w" and x: "from_server w a x \<or> damaged x"
  shows "stray x \<or> (\<exists>wk r. wk \<in> set (workers (srv w)) \<and> peer wk = a \<and> rdt wk = Some r \<and> x \<in> set (sent r))"
  using inv x by (force simp: from_server_def service_inv_def greeting_inv_def stray_def split: option.splits)

lemma host_receives_inv:
  assumes inv: "service_inv cfg ccfg w" and h: "host_ok (ccfg a) h'" "sin_family a = AF_INET"
      "client_at h' \<noteq> C_Waiting \<longrightarrow> contacted (srv w) a"
    and x: "from_server w a x \<or> damaged x"
    and r: "sr_client_run (Some x) (strategy_of ccfg w a) = Inr (strategy_at (ccfg a) (client_at h'))"
  shows "service_inv cfg ccfg (w\<lparr>hosts := (hosts w)(a \<mapsto> h')\<rparr>)"
proof -
  let ?w' = "w\<lparr>hosts := (hosts w)(a \<mapsto> h')\<rparr>" and ?c = "strategy_of ccfg w a"
  have c': "strategy_of ccfg ?w' a = strategy_at (ccfg a) (client_at h')" by (simp add: strategy_of_update)
  note r = r [folded c']
  have started: "session_ok cfg ccfg ?w' wk r \<and>
      (\<forall>j < 2 ^ 32. received ?c j \<longrightarrow> received (strategy_of ccfg ?w' a) j)"
    if wk: "wk \<in> set (workers (srv w))" "peer wk = a" "rdt wk = Some r" for wk r
  proof -
    have "session_ok cfg ccfg w wk r" using inv wk by (auto simp: service_inv_def worker_ok_def)
    then obtain contents where f: "file_of cfg (file_path wk) = Some contents"
      "session_inv (sinv_of cfg) (quiet_of cfg) (chunks contents) (session_of ccfg w wk r)"
      by (auto simp: session_ok_def)
    have one: "v = wk" if "v \<in> set (workers (srv w))" "peer v = a" for v
      using that wk inv by (intro one_worker [of "srv w"]) (simp_all add: service_inv_def)
    have "x \<in> set (sent (server (session_of ccfg w wk r))) \<or> stray x"
      using from_server_cases [OF inv x] one wk(3) by (auto simp: session_of_def)
    from deliver_started [OF f(2) this, of "strategy_of ccfg ?w' a"] r wk(2)
    have d: "session_inv (sinv_of cfg) (quiet_of cfg) (chunks contents)
        ((session_of ccfg w wk r)\<lparr>client := strategy_of ccfg ?w' a\<rparr>)"
      "\<And>j. j < 2 ^ 32 \<Longrightarrow> received ?c j \<Longrightarrow> received (strategy_of ccfg ?w' a) j"
      by (simp_all add: session_of_def)
    have "(session_of ccfg w wk r)\<lparr>client := strategy_of ccfg ?w' a\<rparr> = session_of ccfg ?w' wk r"
      using wk(2) by (simp add: session_of_def)
    with d f(1) show ?thesis by (auto simp: session_ok_def)
  qed
  have unstarted: "pristine (strategy_of ccfg ?w' a)" "received (strategy_of ccfg ?w' a) = received ?c"
    if "pristine ?c" "\<forall>wk \<in> set (workers (srv w)). peer wk = a \<longrightarrow> rdt wk = None"
  proof -
    have "stray x" using from_server_cases [OF inv x] that(2) by auto
    from deliver_unstarted [OF that(1) this r]
    show "pristine (strategy_of ccfg ?w' a)" "received (strategy_of ccfg ?w' a) = received ?c" by auto
  qed
  have mono: "received (strategy_of ccfg ?w' a) j" if j: "j < 2 ^ 32" "received ?c j" for j
  proof (cases "\<exists>wk r. wk \<in> set (workers (srv w)) \<and> peer wk = a \<and> rdt wk = Some r")
    case True
    then show ?thesis using started j by blast
  next
    case False
    then have n: "\<forall>wk \<in> set (workers (srv w)). peer wk = a \<longrightarrow> rdt wk = None" by auto
    have "pristine ?c"
    proof (cases "\<exists>wk \<in> set (workers (srv w)). peer wk = a")
      case True
      then show ?thesis using inv n by (force simp: service_inv_def worker_ok_def)
    next
      case False
      then show ?thesis using inv by (auto simp: service_inv_def)
    qed
    then show ?thesis using unstarted(2) n j by simp
  qed
  show ?thesis
    by (rule host_change [OF inv h refl mono unstarted(1)]) (use started in auto)
qed

end
