(* ===== verification/Service_Server_Inv.thy ===== *)
theory Service_Server_Inv
  imports Service_Inv
begin

text \<open>The invariant of the service is kept by the steps of the server.\<close>

section \<open>What arrives\<close>

lemma strategy_inv:
  assumes inv: "service_inv cfg ccfg w"
  shows "\<exists>ds. cl_inv ds (strategy_of ccfg w a)"
proof (cases "\<exists>wk \<in> set (workers (srv w)). peer wk = a \<and> rdt wk \<noteq> None")
  case True
  then obtain wk r where wk: "wk \<in> set (workers (srv w))" "peer wk = a" "rdt wk = Some r" by auto
  then have "session_ok cfg ccfg w wk r" using inv by (auto simp: service_inv_def worker_ok_def)
  then obtain ds where "session_inv (sinv_of cfg) (quiet_of cfg) ds (session_of ccfg w wk r)"
    by (auto simp: session_ok_def)
  from session_client [OF this] show ?thesis using wk(2) by (auto simp: session_of_def)
next
  case False
  have "pristine (strategy_of ccfg w a)"
  proof (cases "\<exists>wk \<in> set (workers (srv w)). peer wk = a")
    case True
    then show ?thesis using False inv by (force simp: service_inv_def worker_ok_def)
  next
    case False
    then show ?thesis using inv by (auto simp: service_inv_def)
  qed
  moreover have "payloads_ok []" by (simp add: payloads_ok_def)
  ultimately show ?thesis unfolding pristine_def by blast
qed

lemma arriving_ack:
  assumes inv: "service_inv cfg ccfg w" and d: "to_server cfg w a d"
    and ack: "ack_packet_of_buffer (take MAX_UDP_BUFFER_SIZE d @ rest) = Inr ack"
  shows "benign cfg ccfg w a ack"
proof -
  let ?c = "strategy_of ccfg w a"
  obtain ds where cl: "cl_inv ds ?c" using strategy_inv [OF inv] by blast
  obtain h where h: "hosts w a = Some h" using d by (auto simp: to_server_def split: option.splits)
  then have hok: "host_ok (ccfg a) h" using inv by (simp add: service_inv_def)
  consider (request) "d = wire (req_file_name (ccfg a)) 0" | (ack) "d \<in> set (cl_sent ?c)"
    | (damage) "server_mode cfg = SELECTIVE_REPEAT" "damaged_ack d"
    using d h host_sent_cases [of ccfg a h w d, OF hok h] by (auto simp: to_server_def)
  then show ?thesis
  proof cases
    case request
    then obtain a' where "ack_packet_of_buffer d = Inr a'" "ackno a' = 0" using request_as_ack [of _ 0 "[]"] by auto
    with ack ack_packet_prefix have "ackno ack = 0" by fastforce
    then show ?thesis using received_0 [OF cl] by (simp add: benign_def)
  next
    case ack
    then obtain i where i: "received ?c i" "d = ack_wire (of_nat i)" "unat (of_nat i :: 32 word) = i"
      using client_acks [OF cl, of d] by blast
    then have "ack = mk_ack (of_nat i)"
      using ack_packet_prefix [of d "mk_ack (of_nat i)" rest] ack_packet_of_wire [of "of_nat i" "[]"]
        \<open>ack_packet_of_buffer (take MAX_UDP_BUFFER_SIZE d @ rest) = Inr ack\<close> by simp
    then show ?thesis using i(1,3) by (simp add: benign_def)
  next
    case damage
    then obtain a' where a': "ack_packet_of_buffer d = Inr a'" "calculate_ack_checksum a' \<noteq> Inr (ack_cksum a')"
      by (auto simp: damaged_ack_def)
    with ack ack_packet_prefix have "ack = a'" by fastforce
    then show ?thesis using a'(2) damage(1) by (auto simp: benign_def trusts_of_def calculate_ack_checksum_eq)
  qed
qed

section \<open>The main thread\<close>

lemma benign_srv [simp]: "benign cfg ccfg (w\<lparr>srv := s\<rparr>) = benign cfg ccfg w"
  by (simp add: benign_def fun_eq_iff)

lemma session_ok_srv: "link s = link (srv w) \<Longrightarrow> session_ok cfg ccfg (w\<lparr>srv := s\<rparr>) = session_ok cfg ccfg w"
  by (simp add: session_ok_def session_of_def fun_eq_iff)

lemma worker_ok_srv: "link s = link (srv w) \<Longrightarrow> worker_ok cfg ccfg (w\<lparr>srv := s\<rparr>) = worker_ok cfg ccfg w"
  by (auto simp: worker_ok_def session_ok_srv fun_eq_iff split: option.splits)

lemma main_change:
  assumes inv: "service_inv cfg ccfg w" and s: "routing_inv s'" "threads_inv s'" "greeting_inv s'"
    and same: "link s' = link (srv w)" "workers s' = workers (srv w)"
      "set (handshakes (srv w)) \<subseteq> set (handshakes s')"
    and m: "message_ok cfg ccfg (w\<lparr>srv := s'\<rparr>) (main_place s')" and q: "queues_ok cfg ccfg (w\<lparr>srv := s'\<rparr>)"
  shows "service_inv cfg ccfg (w\<lparr>srv := s'\<rparr>)"
proof -
  have "contacted (srv w) a \<Longrightarrow> contacted s' a" for a using same(2,3) by (auto simp: contacted_def)
  then show ?thesis using inv s m q same(1,2) by (auto simp: service_inv_def worker_ok_srv)
qed

lemma queues_same:
  assumes "queues_ok cfg ccfg w" "worker_threads_acks s = worker_threads_acks (srv w)"
    and "workers s = workers (srv w)"
  shows "queues_ok cfg ccfg (w\<lparr>srv := s\<rparr>)"
  using assms by (simp add: queues_ok_def)

lemma server_receive_inv:
  assumes inv: "service_inv cfg ccfg w" and fit: "\<And>a. fits cfg (ccfg a)"
    and m: "main_place (srv w) = M_Receive" and d: "to_server cfg w a d"
    and st: "server_receive (Some (a, d)) (srv w) = Inr s'"
  shows "service_inv cfg ccfg (w\<lparr>srv := s'\<rparr>)"
proof -
  have q: "queues_ok cfg ccfg w" and r: "routing_inv (srv w)" and t: "threads_inv (srv w)"
    and g: "greeting_inv (srv w)" using inv by (simp_all add: service_inv_def)
  have ro: "routing_inv s'" by (rule receive_routing [OF r m st])
  have h: "hosts w a \<noteq> None" using d by (auto simp: to_server_def split: option.splits)
  from st show ?thesis
  proof (cases rule: server_receive_cases)
    case (registered ack)
    then have "benign cfg ccfg w a ack" using arriving_ack [OF inv d] by simp
    then show ?thesis using registered(3) h ro t g m
      by (intro main_change [OF inv ro] queues_same [OF q]) (auto simp: threads_inv_def greeting_inv_def)
  next
    case (request request)
    then have "data request = req_file_name (ccfg a)" using arriving_request [OF service_hosts [OF inv] fit m request(1) d] by simp
    then show ?thesis using request(3) h ro t g m
      by (intro main_change [OF inv ro] queues_same [OF q]) (auto simp: threads_inv_def greeting_inv_def)
  qed
qed

text \<open>A registered client has one address: its family is that of every host.\<close>

lemma same_address:
  assumes inv: "service_inv cfg ccfg w" and a: "hosts w a \<noteq> None" and b: "hosts w b \<noteq> None"
    and k: "get_address_string a = get_address_string b"
  shows "a = b"
proof -
  have "sin_family a = sin_family b" using inv a b by (auto simp: service_inv_def)
  then show ?thesis using get_address_string_inj [OF k] by simp
qed

lemma main_route_inv:
  assumes inv: "service_inv cfg ccfg w" and m: "main_place (srv w) = M_Route a ack"
  shows "service_inv cfg ccfg (w\<lparr>srv := main_step cfg tid (srv w) (M_Route a ack)\<rparr>)"
proof -
  let ?s = "srv w"
  have r: "routing_inv ?s" and t: "threads_inv ?s" and g: "greeting_inv ?s" and q: "queues_ok cfg ccfg w"
    and msg: "hosts w a \<noteq> None" "benign cfg ccfg w a ack"
    using inv m by (simp_all add: service_inv_def)
  have ro: "routing_inv (main_step cfg tid ?s (M_Route a ack))" using main_step_routing [OF r, of cfg tid] m by simp
  obtain th where th: "registered_clients ?s (get_address_string a) = Some th"
    using r m by (auto simp: routing_inv_def)
  then have s': "main_step cfg tid ?s (M_Route a ack) = ?s\<lparr>main_place := M_Push th ack\<rparr>"
    by (simp add: index_map_def)
  obtain v where v: "v \<in> set (workers ?s)" "thread v = th" "client_key v = get_address_string a"
    using r th by (auto simp: routing_inv_def)
  have hv: "hosts w (peer v) \<noteq> None" using inv v(1) by (auto simp: service_inv_def)
  have "peer v = a" using same_address [OF inv hv msg(1)] v(3) by (simp add: client_key_def)
  moreover have "wk = v" if "wk \<in> set (workers ?s)" "thread wk = th" for wk
    using that v t by (auto simp: threads_inv_def distinct_map inj_on_def)
  ultimately have "message_ok cfg ccfg (w\<lparr>srv := ?s\<lparr>main_place := M_Push th ack\<rparr>\<rparr>) (M_Push th ack)"
    using msg(2) by auto
  then show ?thesis unfolding s' using t g m
    by (intro main_change [OF inv ro [unfolded s']] queues_same [OF q]) (auto simp: threads_inv_def greeting_inv_def)
qed

lemma main_push_inv:
  assumes inv: "service_inv cfg ccfg w" and m: "main_place (srv w) = M_Push th ack"
  shows "service_inv cfg ccfg (w\<lparr>srv := main_step cfg tid (srv w) (M_Push th ack)\<rparr>)"
proof -
  let ?s = "srv w" let ?s' = "main_step cfg tid ?s (M_Push th ack)"
  have r: "routing_inv ?s" and t: "threads_inv ?s" and g: "greeting_inv ?s" and q: "queues_ok cfg ccfg w"
    and msg: "\<forall>wk \<in> set (workers ?s). thread wk = th \<longrightarrow> benign cfg ccfg w (peer wk) ack"
    using inv m by (simp_all add: service_inv_def)
  have th: "th \<in> thread ` set (workers ?s)" using r m by (simp add: routing_inv_def)
  have ro: "routing_inv ?s'" using main_step_routing [OF r, of cfg tid] m by simp
  define q0 where "q0 = (case worker_threads_acks ?s th of None \<Rightarrow> [] | Some q \<Rightarrow> q)"
  have s': "?s' = ?s\<lparr>worker_threads_acks := (worker_threads_acks ?s)(th \<mapsto> q0 @ [ack]), main_place := M_Receive\<rparr>"
    by (auto simp: index_map_def q0_def split: option.splits)
  have "\<forall>wk \<in> set (workers ?s). thread wk = th \<longrightarrow> (\<forall>b \<in> set q0. benign cfg ccfg w (peer wk) b)"
    using q by (cases "q0 = []") (force simp: queues_ok_def q0_def split: option.splits)+
  then have "queues_ok cfg ccfg (w\<lparr>srv := ?s'\<rparr>)" unfolding s' using q msg th by (auto simp: queues_ok_def)
  then show ?thesis unfolding s' using t g m
    by (intro main_change [OF inv ro [unfolded s']]) (auto simp: threads_inv_def greeting_inv_def)
qed

lemma main_dispatch_inv:
  assumes inv: "service_inv cfg ccfg w" and m: "main_place (srv w) = M_Dispatch a path"
    and tid: "tid \<notin> running_threads False (srv w)"
  shows "service_inv cfg ccfg (w\<lparr>srv := main_step cfg tid (srv w) (M_Dispatch a path)\<rparr>)"
proof -
  let ?s = "srv w" let ?s' = "main_step cfg tid ?s (M_Dispatch a path)"
  let ?wk = "\<lparr>thread = tid, peer = a, file_path = path, place = K_Start, rdt = None,
      timer_place = no_timer\<rparr>"
  have r: "routing_inv ?s" and t: "threads_inv ?s" and g: "greeting_inv ?s" and q: "queues_ok cfg ccfg w"
    and msg: "hosts w a \<noteq> None" "path = req_file_name (ccfg a)"
    using inv m by (simp_all add: service_inv_def)
  have ro: "routing_inv ?s'" using main_step_routing [OF r, of cfg tid] m by simp
  have th: "threads_inv ?s'" using main_step_threads [OF t tid] .
  have fresh: "tid \<notin> thread ` set (workers ?s)" using tid by (simp add: running_threads_def)
  have "peer v \<noteq> a" if "v \<in> set (workers ?s)" for v
    using r m that by (auto simp: routing_inv_def client_key_def)
  then have "pristine (strategy_of ccfg w a)" using inv by (auto simp: service_inv_def)
  then have wk: "worker_ok cfg ccfg (w\<lparr>srv := ?s'\<rparr>) ?wk" by (simp add: worker_ok_def)
  have l: "link ?s' = link ?s" by simp
  have ok: "worker_ok cfg ccfg (w\<lparr>srv := ?s'\<rparr>) = worker_ok cfg ccfg w" by (rule worker_ok_srv [OF l])
  have ql: "queues_ok cfg ccfg (w\<lparr>srv := ?s'\<rparr>)" using q fresh by (auto simp: queues_ok_def)
  have gr: "greeting_inv ?s'" using g m by (auto simp: greeting_inv_def)
  have "contacted ?s' b" if "contacted ?s b" for b using that by (auto simp: contacted_def)
  then show ?thesis using inv ro th ql gr wk ok msg unfolding service_inv_def by (auto simp: m)
qed

lemma main_register_inv:
  assumes inv: "service_inv cfg ccfg w" and m: "main_place (srv w) = M_Register th a"
  shows "service_inv cfg ccfg (w\<lparr>srv := main_step cfg tid (srv w) (M_Register th a)\<rparr>)"
proof -
  let ?s = "srv w" let ?s' = "main_step cfg tid ?s (M_Register th a)"
  have r: "routing_inv ?s" and t: "threads_inv ?s" and g: "greeting_inv ?s" and q: "queues_ok cfg ccfg w"
    using inv by (simp_all add: service_inv_def)
  have "routing_inv ?s'" using main_step_routing [OF r, of cfg tid] m by simp
  then show ?thesis using t g m
    by (intro main_change [OF inv] queues_same [OF q]) (auto simp: threads_inv_def greeting_inv_def)
qed

lemma main_record_inv:
  assumes inv: "service_inv cfg ccfg w" and m: "main_place (srv w) = M_Record th"
  shows "service_inv cfg ccfg (w\<lparr>srv := main_step cfg tid (srv w) (M_Record th)\<rparr>)"
proof -
  let ?s = "srv w" let ?s' = "main_step cfg tid ?s (M_Record th)"
  have r: "routing_inv ?s" and t: "threads_inv ?s" and g: "greeting_inv ?s" and q: "queues_ok cfg ccfg w"
    using inv by (simp_all add: service_inv_def)
  have "routing_inv ?s'" using main_step_routing [OF r, of cfg tid] m by simp
  then show ?thesis using t g m
    by (intro main_change [OF inv] queues_same [OF q]) (auto simp: threads_inv_def greeting_inv_def)
qed

lemma main_step_inv:
  assumes "service_inv cfg ccfg w" "tid \<notin> running_threads False (srv w)"
  shows "service_inv cfg ccfg (w\<lparr>srv := main_step cfg tid (srv w) (main_place (srv w))\<rparr>)"
proof (cases "main_place (srv w)")
  case M_Receive
  then show ?thesis using assms(1) by simp
qed (use assms main_route_inv main_push_inv main_dispatch_inv main_register_inv main_record_inv in auto)

end
