(* ===== verification/Service_Worker_Inv.thy ===== *)
theory Service_Worker_Inv
  imports Service_Server_Inv
begin

text \<open>The invariant of the service is kept by the workers and their timer threads.\<close>

section \<open>What a worker's step has to establish\<close>

lemma worker_ok_link:
  assumes "worker_ok cfg ccfg w v" "sender_ok (link s)"
  shows "worker_ok cfg ccfg (w\<lparr>srv := s\<rparr>) v"
proof -
  have "session_ok cfg ccfg (w\<lparr>srv := s\<rparr>) v r" if "session_ok cfg ccfg w v r" for r
    using that served.session_link [of cfg _ "session_of ccfg w v r" "link s"] assms(2)
    by (auto simp: session_ok_def session_of_def)
  then show ?thesis using assms(1) by (auto simp: worker_ok_def split: option.splits)
qed

lemma own_change:
  assumes inv: "service_inv cfg ccfg w" and k: "k < length (workers (srv w))" and own: "own_step k (srv w) s'"
    and l: "sender_ok (link s')" and wk: "worker_ok cfg ccfg (w\<lparr>srv := s'\<rparr>) (workers s' ! k)"
    and q: "queues_ok cfg ccfg (w\<lparr>srv := s'\<rparr>)"
  shows "service_inv cfg ccfg (w\<lparr>srv := s'\<rparr>)"
proof -
  let ?s = "srv w"
  obtain w' where w': "workers s' = (workers ?s)[k := w']" and same: "same_worker (workers ?s ! k) w'"
    and f: "registered_clients s' = registered_clients ?s" "main_place s' = main_place ?s"
      "handshakes s' = handshakes ?s"
    using own by (auto simp: own_step_def)
  have r: "routing_inv s'" "threads_inv s'" "greeting_inv s'"
    using inv own_routing [OF own k] own_threads [OF own k] f by (simp_all add: service_inv_def greeting_inv_def)
  note mem = own_members [OF own k]
  have ok: "worker_ok cfg ccfg (w\<lparr>srv := s'\<rparr>) v" if v: "v \<in> set (workers s')" for v
  proof (cases "v = w'")
    case True
    then show ?thesis using wk k by (simp add: w')
  next
    case False
    then have "v \<in> set (workers ?s)" using v set_update_subset_insert [of "workers ?s" k w'] by (auto simp: w')
    then show ?thesis using inv l by (intro worker_ok_link) (simp_all add: service_inv_def)
  qed
  have files: "hosts w (peer v) \<noteq> None \<and> file_path v = req_file_name (ccfg (peer v))" if fv: "v \<in> set (workers s')" for v
  proof -
    obtain u where u: "u \<in> set (workers ?s)" "peer u = peer v" "file_path u = file_path v"
      using mem(1) [OF fv] by blast
    then have "hosts w (peer u) \<noteq> None \<and> file_path u = req_file_name (ccfg (peer u))"
      using inv unfolding service_inv_def by blast
    then show ?thesis using u by simp
  qed
  have msg: "message_ok cfg ccfg w (main_place ?s)" using inv by (simp add: service_inv_def)
  have mo: "message_ok cfg ccfg (w\<lparr>srv := s'\<rparr>) (main_place s')"
  proof (cases "main_place ?s")
    case (M_Push tid ack)
    then have m: "\<forall>v \<in> set (workers ?s). thread v = tid \<longrightarrow> benign cfg ccfg w (peer v) ack"
      using inv by (simp add: service_inv_def)
    have "benign cfg ccfg w (peer v) ack" if v: "v \<in> set (workers s')" "thread v = tid" for v
    proof -
      obtain u where "u \<in> set (workers ?s)" "peer u = peer v" "thread u = thread v" using mem(1) [OF v(1)] by blast
      then show ?thesis using m v(2) by auto
    qed
    then show ?thesis using M_Push f(2) by simp
  qed (use msg f(2) in simp_all)
  have co: "contacted s' a = contacted ?s a" for a by (simp add: contacted_def f(3) mem(3))
  have un: "pristine (strategy_of ccfg w a)" if "\<forall>v \<in> set (workers s'). peer v \<noteq> a" for a
  proof -
    have "a \<notin> peer ` set (workers ?s)" using that unfolding mem(3) [symmetric] by auto
    then have "\<forall>wk \<in> set (workers ?s). peer wk \<noteq> a" by auto
    then show ?thesis using inv unfolding service_inv_def by blast
  qed
  have ho: "\<forall>a h. hosts w a = Some h \<longrightarrow> sin_family a = AF_INET \<and> host_ok (ccfg a) h \<and>
      (client_at h \<noteq> C_Waiting \<longrightarrow> contacted s' a)"
    using inv unfolding service_inv_def co by blast
  have s: "srv (w\<lparr>srv := s'\<rparr>) = s'" "hosts (w\<lparr>srv := s'\<rparr>) = hosts w" by simp_all
  show ?thesis unfolding service_inv_def s strategy_of_srv
    by (intro conjI r l q mo ho ballI) (use un ok files in blast)+
qed

text \<open>The queues depend on the names and the clients of the workers only.\<close>

lemma queues_own:
  assumes q: "queues_ok cfg ccfg w" and own: "own_step k (srv w) s'" and k: "k < length (workers (srv w))"
    and sub: "\<And>tid q'. worker_threads_acks s' tid = Some q' \<Longrightarrow> q' \<noteq> [] \<Longrightarrow>
      \<exists>q. worker_threads_acks (srv w) tid = Some q \<and> set q' \<subseteq> set q"
  shows "queues_ok cfg ccfg (w\<lparr>srv := s'\<rparr>)"
  unfolding queues_ok_def
proof (intro allI impI)
  fix tid q' assume a: "worker_threads_acks (srv (w\<lparr>srv := s'\<rparr>)) tid = Some q'" "q' \<noteq> []"
  then obtain q0 where q0: "worker_threads_acks (srv w) tid = Some q0" "set q' \<subseteq> set q0" "q0 \<noteq> []"
    using sub [of tid q'] by fastforce
  note mem = own_members [OF own k]
  have qo: "tid \<in> thread ` set (workers (srv w))"
    "\<forall>u \<in> set (workers (srv w)). thread u = tid \<longrightarrow> (\<forall>ack \<in> set q0. benign cfg ccfg w (peer u) ack)"
    using q q0(1,3) unfolding queues_ok_def by blast+
  have "benign cfg ccfg w (peer v) ack" if v: "v \<in> set (workers s')" "thread v = tid" "ack \<in> set q'" for v ack
  proof -
    obtain u where u: "u \<in> set (workers (srv w))" "peer u = peer v" "thread u = thread v" using mem(1) [OF v(1)] by blast
    then have "benign cfg ccfg w (peer u) ack" using qo(2) q0(2) v(2,3) by blast
    then show ?thesis using u(2) by simp
  qed
  then show "tid \<in> thread ` set (workers (srv (w\<lparr>srv := s'\<rparr>))) \<and>
    (\<forall>wk \<in> set (workers (srv (w\<lparr>srv := s'\<rparr>))). thread wk = tid \<longrightarrow>
      (\<forall>ack \<in> set q'. benign cfg ccfg (w\<lparr>srv := s'\<rparr>) (peer wk) ack))"
    using qo(1) mem(2) by simp
qed

lemma queues_own_same:
  assumes "queues_ok cfg ccfg w" "own_step k (srv w) s'" "k < length (workers (srv w))"
    "worker_threads_acks s' = worker_threads_acks (srv w)"
  shows "queues_ok cfg ccfg (w\<lparr>srv := s'\<rparr>)"
  by (rule queues_own [OF assms(1-3)]) (use assms(4) in auto)

section \<open>The steps\<close>

lemma sender_self [simp]: "(r :: rdt_strategy)\<lparr>sender := sender r\<rparr> = r"
  by (cases r) simp

lemma worker_updates:
  "timer_place wk = tp \<Longrightarrow> wk\<lparr>rdt := x, timer_place := tp, place := pc\<rparr> = wk\<lparr>rdt := x, place := pc\<rparr>"
  "place wk = pc \<Longrightarrow> wk\<lparr>rdt := x, timer_place := tp, place := pc\<rparr> = wk\<lparr>rdt := x, timer_place := tp\<rparr>"
  by (cases wk; simp)+

text \<open>A worker whose strategy has been changed, with the link.\<close>

lemma strategy_change:
  assumes inv: "service_inv cfg ccfg w" and k: "k < length (workers (srv w))"
    and wk': "wk' = (workers (srv w) ! k)\<lparr>rdt := Some r, timer_place := tp, place := pc\<rparr>"
    and s': "s' = set_worker k wk' ((srv w)\<lparr>link := sender r\<rparr>)"
    and l: "sender_ok (sender r)" and pc: "pc \<noteq> K_Start" "\<And>ack. pc = K_Acknowledge ack \<Longrightarrow>
      place (workers (srv w) ! k) = K_Acknowledge ack" "pc = K_Finish \<longrightarrow> window r = []"
    and f: "file_of cfg (file_path (workers (srv w) ! k)) = Some contents"
    and ses: "session_inv (sinv_of cfg) (quiet_of cfg) (chunks contents)
      \<lparr>server = r, timer_at = tp, over = (pc = K_Finalize \<or> pc = K_Ended),
       client = strategy_of ccfg w (peer (workers (srv w) ! k))\<rparr>"
  shows "service_inv cfg ccfg (w\<lparr>srv := s'\<rparr>)"
proof -
  let ?wk = "workers (srv w) ! k"
  have own: "own_step k (srv w) s'" by (intro own_stepI [where w' = wk']) (simp_all add: s' wk' same_worker_def)
  have "?wk \<in> set (workers (srv w))" using k by simp
  then have "worker_ok cfg ccfg w ?wk" using inv unfolding service_inv_def by blast
  then have "benign cfg ccfg w (peer ?wk) ack" if "pc = K_Acknowledge ack" for ack
    using pc(2) [OF that] by (simp add: worker_ok_def)
  moreover have "session_ok cfg ccfg (w\<lparr>srv := s'\<rparr>) wk' r"
    using f ses by (simp add: session_ok_def session_of_def s' wk')
  ultimately have ok: "worker_ok cfg ccfg (w\<lparr>srv := s'\<rparr>) wk'"
    using pc by (simp add: worker_ok_def wk')
  have "workers s' ! k = wk'" using k by (simp add: s')
  moreover have "queues_ok cfg ccfg w" using inv by (simp add: service_inv_def)
  then have "queues_ok cfg ccfg (w\<lparr>srv := s'\<rparr>)"
    by (rule queues_own_same [OF _ own k]) (simp add: s')
  ultimately show ?thesis using ok l by (intro own_change [OF inv k own]) (simp_all add: s')
qed

text \<open>What the invariant says of a worker.\<close>

lemma worker_at:
  assumes inv: "service_inv cfg ccfg w" and k: "k < length (workers (srv w))"
  shows "worker_ok cfg ccfg w (workers (srv w) ! k)" "sender_ok (link (srv w))"
proof -
  have "workers (srv w) ! k \<in> set (workers (srv w))" using k by simp
  then show "worker_ok cfg ccfg w (workers (srv w) ! k)" using inv unfolding service_inv_def by blast
  show "sender_ok (link (srv w))" using inv by (simp add: service_inv_def)
qed

text \<open>A worker with a strategy, as a session with the shared link.\<close>

lemma running_session:
  assumes inv: "service_inv cfg ccfg w" and k: "k < length (workers (srv w))"
    and r: "rdt (workers (srv w) ! k) = Some r"
  obtains contents where "file_of cfg (file_path (workers (srv w) ! k)) = Some contents"
    "session_inv (sinv_of cfg) (quiet_of cfg) (chunks contents) (session_of ccfg w (workers (srv w) ! k) r)"
    "place (workers (srv w) ! k) \<noteq> K_Start"
    "place (workers (srv w) ! k) = K_Finish \<longrightarrow> window r = []"
  using worker_at(1) [OF inv k] r by (auto simp: worker_ok_def session_ok_def)

lemma worker_start_inv:
  assumes cfg: "serves cfg" and inv: "service_inv cfg ccfg w" and k: "k < length (workers (srv w))"
    and pl: "place (workers (srv w) ! k) = K_Start" and st: "worker_step cfg k (srv w) = Inr s'"
  shows "service_inv cfg ccfg (w\<lparr>srv := s'\<rparr>)"
proof -
  let ?wk = "workers (srv w) ! k" and ?m = "server_mode cfg"
  obtain r0 r where r0: "new_strategy cfg (file_path ?wk) (link (srv w)) = Inr (?m, r0)"
    and r: "start_strategy ?m (r0\<lparr>sender := link (srv w)\<rparr>) = Inr r"
    "s' = set_worker k (?wk\<lparr>rdt := Some r, timer_place := timer_start ?m, place := K_Check\<rparr>) ((srv w)\<lparr>link := sender r\<rparr>)"
    by (rule worker_startE [OF st pl k]) (metis new_strategy_class)
  have none: "pristine (strategy_of ccfg w (peer ?wk))"
    using worker_at(1) [OF inv k] pl by (auto simp: worker_ok_def split: option.splits)
  obtain contents where f: "file_of cfg (file_path ?wk) = Some contents" by (rule new_strategy_file [OF cfg r0])
  have "sender r0 = link (srv w)" by (rule new_strategy_sender [OF cfg r0])
  then have "r0\<lparr>sender := link (srv w)\<rparr> = r0" by (metis sender_self)
  with r(1) have "start_strategy ?m r0 = Inr r" by simp
  from served_start [OF cfg worker_at(2) [OF inv k] f r0 this]
  have si: "sinv_of cfg (chunks contents) R (timer_start ?m) r" for R .
  have so: "sender_ok (sender r)" by (rule served.inv_sender [OF si])
  have "cl_inv (chunks contents) (strategy_of ccfg w (peer ?wk)) \<and> \<not> cl_done (strategy_of ccfg w (peer ?wk))"
    using none served_file_ok [OF cfg f] by (simp add: pristine_def)
  then have "session_inv (sinv_of cfg) (quiet_of cfg) (chunks contents)
      \<lparr>server = r, timer_at = timer_start ?m, over = False, client = strategy_of ccfg w (peer ?wk)\<rparr>"
    using si by (simp add: session_inv_def)
  then show ?thesis
    by (intro strategy_change [OF inv k _ _ so, where contents = contents and tp = "timer_start ?m" and pc = K_Check,
          OF refl]) (use r(2) f in \<open>simp_all add: worker_updates(1)\<close>)
qed

lemma worker_check_inv:
  assumes inv: "service_inv cfg ccfg w" and k: "k < length (workers (srv w))"
    and pl: "place (workers (srv w) ! k) = K_Check" and st: "worker_step cfg k (srv w) = Inr s'"
  shows "service_inv cfg ccfg (w\<lparr>srv := s'\<rparr>)"
proof -
  let ?wk = "workers (srv w) ! k" and ?l = "link (srv w)"
  obtain r where r: "rdt ?wk = Some r"
    using st pl by (auto simp: worker_step_def Let_def split: option.splits)
  define r' where "r' = snd (is_done r)"
  define pc where "pc = (if fst (is_done r) then K_Finish else K_Wait)"
  have s': "s' = set_worker k (?wk\<lparr>rdt := Some r', place := pc\<rparr>) (srv w)"
    using st pl r by (simp add: worker_step_def Let_def r'_def pc_def split_def)
  obtain contents where f: "file_of cfg (file_path ?wk) = Some contents"
    and ses: "session_inv (sinv_of cfg) (quiet_of cfg) (chunks contents) (session_of ccfg w ?wk r)"
    by (rule running_session [OF inv k r])
  let ?c = "strategy_of ccfg w (peer ?wk)"
  have e: "r'\<lparr>sender := ?l\<rparr> = snd (is_done (r\<lparr>sender := ?l\<rparr>))"
    by (simp add: r'_def is_done_def now_def Let_def)
  have "sinv_of cfg (chunks contents) (received ?c) (timer_place ?wk) (r\<lparr>sender := ?l\<rparr>)" and cl: "cl_inv (chunks contents) ?c"
    and nd: "\<not> cl_done ?c" using ses pl by (auto simp: session_inv_def session_of_def)
  from served.inv_check [OF this(1)] have
    si: "sinv_of cfg (chunks contents) (received ?c) (timer_place ?wk) (r'\<lparr>sender := ?l\<rparr>)" by (simp add: e)
  let ?wk' = "?wk\<lparr>rdt := Some r', place := pc\<rparr>"
  have own: "own_step k (srv w) s'" by (intro own_stepI [where w' = ?wk']) (simp_all add: s' same_worker_def)
  have "session_ok cfg ccfg (w\<lparr>srv := s'\<rparr>) ?wk' r'"
    using f si cl nd by (auto simp: session_ok_def session_of_def session_inv_def s' pc_def)
  moreover have "pc = K_Finish \<longrightarrow> window r' = []" by (simp add: pc_def r'_def is_done_def now_def Let_def)
  ultimately have "worker_ok cfg ccfg (w\<lparr>srv := s'\<rparr>) ?wk'" by (simp add: worker_ok_def pc_def)
  moreover have "workers s' ! k = ?wk'" using k by (simp add: s')
  moreover have "queues_ok cfg ccfg w" using inv by (simp add: service_inv_def)
  then have "queues_ok cfg ccfg (w\<lparr>srv := s'\<rparr>)" by (rule queues_own_same [OF _ own k]) (simp add: s')
  ultimately show ?thesis using worker_at(2) [OF inv k] by (intro own_change [OF inv k own]) (simp_all add: s')
qed

lemma worker_wait_inv:
  assumes inv: "service_inv cfg ccfg w" and k: "k < length (workers (srv w))"
    and pl: "place (workers (srv w) ! k) = K_Wait" and st: "worker_step cfg k (srv w) = Inr s'"
  shows "service_inv cfg ccfg (w\<lparr>srv := s'\<rparr>)"
proof -
  let ?wk = "workers (srv w) ! k" and ?m = "worker_threads_acks (srv w)"
  have mem: "?wk \<in> set (workers (srv w))" using k by simp
  have q: "queues_ok cfg ccfg w" using inv by (simp add: service_inv_def)
  note ok = worker_at [OF inv k]
  have own: "own_step k (srv w) s'" by (rule worker_step_own [OF k st])
  show ?thesis
  proof (cases "\<exists>ack q'. ?m (thread ?wk) = Some (ack # q')")
    case True
    then obtain ack q' where aq: "?m (thread ?wk) = Some (ack # q')" by blast
    then have s': "s' = set_worker k (?wk\<lparr>place := K_Acknowledge ack\<rparr>) ((srv w)\<lparr>worker_threads_acks := ?m(thread ?wk \<mapsto> q')\<rparr>)"
      using st pl by (simp add: worker_step_def Let_def index_map_def)
    have "benign cfg ccfg w (peer ?wk) ack" using q aq mem unfolding queues_ok_def by fastforce
    then have "worker_ok cfg ccfg (w\<lparr>srv := s'\<rparr>) (?wk\<lparr>place := K_Acknowledge ack\<rparr>)"
      using ok(1) pl by (auto simp: worker_ok_def session_ok_def session_of_def s' split: option.splits)
    moreover have "queues_ok cfg ccfg (w\<lparr>srv := s'\<rparr>)"
      by (rule queues_own [OF q own k]) (auto simp: s' aq split: if_splits)
    ultimately show ?thesis using ok(2) k by (intro own_change [OF inv k own]) (simp_all add: s')
  next
    case False
    then have s': "s' = (srv w)\<lparr>worker_threads_acks := snd (index_map [] (thread ?wk) ?m)\<rparr>"
      using st pl by (auto simp: worker_step_def Let_def index_map_def split: option.splits list.splits)
    have "worker_ok cfg ccfg (w\<lparr>srv := s'\<rparr>) ?wk"
      using ok(1) worker_ok_srv [of s' w cfg ccfg] by (simp add: s')
    moreover have "queues_ok cfg ccfg (w\<lparr>srv := s'\<rparr>)"
      by (rule queues_own [OF q own k]) (auto simp: s' index_map_def split: option.splits if_splits)
    ultimately show ?thesis using ok(2) k by (intro own_change [OF inv k own]) (simp_all add: s')
  qed
qed

lemma worker_acknowledge_inv:
  assumes inv: "service_inv cfg ccfg w" and k: "k < length (workers (srv w))"
    and pl: "place (workers (srv w) ! k) = K_Acknowledge ack" and st: "worker_step cfg k (srv w) = Inr s'"
  shows "service_inv cfg ccfg (w\<lparr>srv := s'\<rparr>)"
proof -
  let ?wk = "workers (srv w) ! k" and ?l = "link (srv w)"
  obtain r r' where r: "rdt ?wk = Some r"
    "acknowledge cfg (timer_class (timer_place ?wk)) ack (r\<lparr>sender := ?l\<rparr>) = Inr r'"
    "s' = set_worker k (?wk\<lparr>rdt := Some r', place := K_Check\<rparr>) ((srv w)\<lparr>link := sender r'\<rparr>)"
    by (rule worker_acknowledgeE [OF st pl])
  obtain contents where f: "file_of cfg (file_path ?wk) = Some contents"
    and ses: "session_inv (sinv_of cfg) (quiet_of cfg) (chunks contents) (session_of ccfg w ?wk r)"
    by (rule running_session [OF inv k r(1)])
  let ?c = "strategy_of ccfg w (peer ?wk)"
  have "trusts_of cfg ack \<Longrightarrow> received ?c (unat (ackno ack))"
    using worker_at(1) [OF inv k] pl by (simp add: worker_ok_def benign_def)
  moreover have si: "sinv_of cfg (chunks contents) (received ?c) (timer_place ?wk) (r\<lparr>sender := ?l\<rparr>)"
    and cl: "cl_inv (chunks contents) ?c" "\<not> cl_done ?c"
    using ses pl by (auto simp: session_inv_def session_of_def)
  ultimately have si': "sinv_of cfg (chunks contents) (received ?c) (timer_place ?wk) r'"
    using served.inv_ack [OF si, of ack] r(2) timer_class_of [OF disjI1 [OF si]] by auto
  show ?thesis
    by (rule strategy_change [OF inv k refl _ served.inv_sender [OF si'], where pc = K_Check
          and tp = "timer_place ?wk" and contents = contents])
       (use r(3) f si' cl in \<open>simp_all add: worker_updates session_inv_def\<close>)
qed

lemma worker_finish_inv:
  assumes inv: "service_inv cfg ccfg w" and k: "k < length (workers (srv w))"
    and pl: "place (workers (srv w) ! k) = K_Finish" and st: "worker_step cfg k (srv w) = Inr s'"
  shows "service_inv cfg ccfg (w\<lparr>srv := s'\<rparr>)"
proof -
  let ?wk = "workers (srv w) ! k" and ?l = "link (srv w)"
  obtain r r' where r: "rdt ?wk = Some r" "send_empty_packet (r\<lparr>sender := ?l\<rparr>) = Inr r'"
    "s' = set_worker k (?wk\<lparr>rdt := Some r', place := K_Finalize\<rparr>) ((srv w)\<lparr>link := sender r'\<rparr>)"
    using st pl by (auto simp: worker_step_def Let_def elim!: on_strategyE)
  obtain contents where f: "file_of cfg (file_path ?wk) = Some contents"
    and ses: "session_inv (sinv_of cfg) (quiet_of cfg) (chunks contents) (session_of ccfg w ?wk r)"
    and w: "window r = []"
    using running_session [OF inv k r(1)] pl by metis
  let ?c = "strategy_of ccfg w (peer ?wk)"
  have si: "sinv_of cfg (chunks contents) (received ?c) (timer_place ?wk) (r\<lparr>sender := ?l\<rparr>)"
    and cl: "cl_inv (chunks contents) ?c"
    using ses pl by (auto simp: session_inv_def session_of_def)
  from served.send_empty_ended [OF si] w r(2) have e: "ended (chunks contents) (received ?c) r'"
    "quiet_of cfg (timer_place ?wk) r'" "sender r' = ?l" by auto
  show ?thesis
    by (rule strategy_change [OF inv k refl, where r = r' and pc = K_Finalize
          and tp = "timer_place ?wk" and contents = contents])
       (use r(3) f e cl worker_at(2) [OF inv k] in \<open>simp_all add: worker_updates session_inv_def\<close>)
qed

lemma worker_finalize_inv:
  assumes inv: "service_inv cfg ccfg w" and k: "k < length (workers (srv w))"
    and pl: "place (workers (srv w) ! k) = K_Finalize" and st: "worker_step cfg k (srv w) = Inr s'"
  shows "service_inv cfg ccfg (w\<lparr>srv := s'\<rparr>)"
proof -
  let ?wk = "workers (srv w) ! k" and ?wk' = "(workers (srv w) ! k)\<lparr>place := K_Ended\<rparr>"
  obtain m where s': "s' = set_worker k ?wk' ((srv w)\<lparr>working_threads := m\<rparr>)"
    using st pl by (auto simp: worker_step_def Let_def finalize_worker_thread_def rbind_Inr_iff
        split: prod.splits option.splits)
  have own: "own_step k (srv w) s'" by (rule worker_step_own [OF k st])
  have "worker_ok cfg ccfg (w\<lparr>srv := s'\<rparr>) ?wk'"
    using worker_at(1) [OF inv k] pl
    by (auto simp: worker_ok_def session_ok_def session_of_def s' split: option.splits)
  moreover have "queues_ok cfg ccfg w" using inv by (simp add: service_inv_def)
  then have "queues_ok cfg ccfg (w\<lparr>srv := s'\<rparr>)" by (rule queues_own_same [OF _ own k]) (simp add: s')
  ultimately show ?thesis using worker_at(2) [OF inv k] k by (intro own_change [OF inv k own]) (simp_all add: s')
qed

lemma worker_step_inv:
  assumes "serves cfg" "service_inv cfg ccfg w" "k < length (workers (srv w))" "worker_step cfg k (srv w) = Inr s'"
  shows "service_inv cfg ccfg (w\<lparr>srv := s'\<rparr>)"
proof (cases "place (workers (srv w) ! k)")
  case K_Ended
  then have "s' = srv w" using assms(4) by (simp add: worker_step_def Let_def)
  then show ?thesis using assms(2) by simp
qed (use worker_start_inv [OF assms(1-3) _ assms(4)] worker_check_inv [OF assms(2,3) _ assms(4)]
    worker_wait_inv [OF assms(2,3) _ assms(4)] worker_acknowledge_inv [OF assms(2,3) _ assms(4)]
    worker_finish_inv [OF assms(2,3) _ assms(4)] worker_finalize_inv [OF assms(2,3) _ assms(4)] in simp_all)

lemma timer_step_inv:
  assumes inv: "service_inv cfg ccfg w" and k: "k < length (workers (srv w))"
    and st: "timer_step k (srv w) = Inr s'"
  shows "service_inv cfg ccfg (w\<lparr>srv := s'\<rparr>)"
proof (cases "\<exists>r. rdt (workers (srv w) ! k) = Some r \<and> timer r")
  case False
  then have "s' = srv w" using st by (auto simp: timer_step_def Let_def split: option.splits)
  then show ?thesis using inv by simp
next
  case True
  let ?wk = "workers (srv w) ! k" and ?l = "link (srv w)"
  obtain r pc r' where r: "rdt ?wk = Some r" "handle_time_out (timer_place ?wk) (r\<lparr>sender := ?l\<rparr>) = Inr (pc, r')"
    "s' = set_worker k (?wk\<lparr>rdt := Some r', timer_place := pc\<rparr>) ((srv w)\<lparr>link := sender r'\<rparr>)"
    using st True by (auto simp: timer_step_def Let_def rbind_Inr_iff)
  obtain contents where f: "file_of cfg (file_path ?wk) = Some contents"
    and ses: "session_inv (sinv_of cfg) (quiet_of cfg) (chunks contents) (session_of ccfg w ?wk r)"
    and pl: "place ?wk \<noteq> K_Start" and w: "place ?wk = K_Finish \<longrightarrow> window r = []"
    by (rule running_session [OF inv k r(1)])
  let ?c = "strategy_of ccfg w (peer ?wk)" and ?over = "place ?wk = K_Finalize \<or> place ?wk = K_Ended"
  have cl: "cl_inv (chunks contents) ?c" "cl_done ?c \<longrightarrow> ?over"
    using ses by (auto simp: session_inv_def session_of_def)
  have q: "quiet_of cfg (timer_place ?wk) (r\<lparr>sender := ?l\<rparr>) \<Longrightarrow>
      quiet_of cfg pc r' \<and> sent r' = sent r \<and> sender r' = ?l"
    using served.quiet_tick [of cfg "timer_place ?wk" "r\<lparr>sender := ?l\<rparr>" pc r'] r(2) by simp
  have n: "session_inv (sinv_of cfg) (quiet_of cfg) (chunks contents)
      \<lparr>server = r', timer_at = pc, over = ?over, client = ?c\<rparr> \<and> sender_ok (sender r')"
  proof (cases ?over)
    case True
    then have e: "ended (chunks contents) (received ?c) (r\<lparr>sender := ?l\<rparr>)"
      "quiet_of cfg (timer_place ?wk) (r\<lparr>sender := ?l\<rparr>)"
      using ses by (auto simp: session_inv_def session_of_def)
    then show ?thesis using q [OF e(2)] True cl(1) worker_at(2) [OF inv k]
      by (simp add: session_inv_def ended_def)
  next
    case False
    then have "sinv_of cfg (chunks contents) (received ?c) (timer_place ?wk) (r\<lparr>sender := ?l\<rparr>)"
      using ses by (auto simp: session_inv_def session_of_def)
    from served.inv_tick [OF this r(2)] have si: "sinv_of cfg (chunks contents) (received ?c) pc r'" .
    then show ?thesis using False cl served.inv_sender [OF si] by (simp add: session_inv_def)
  qed
  have "place ?wk = K_Finish \<longrightarrow> window r' = []"
  proof
    assume p: "place ?wk = K_Finish"
    then have "sinv_of cfg (chunks contents) (received ?c) (timer_place ?wk) (r\<lparr>sender := ?l\<rparr>)" "window r = []"
      using ses w by (auto simp: session_inv_def session_of_def)
    from served.inv_quiet [OF this(1), where k = "ticks r" and v = "stats r" and l = "sent r"] this(2)
    have "quiet_of cfg (timer_place ?wk) ((r\<lparr>sender := ?l\<rparr>)\<lparr>ticks := ticks r, stats := stats r, sent := sent r\<rparr>)" by simp
    moreover have "(r\<lparr>sender := ?l\<rparr>)\<lparr>ticks := ticks r, stats := stats r, sent := sent r\<rparr> = r\<lparr>sender := ?l\<rparr>"
      by (cases r) simp
    ultimately show "window r' = []" using q served.quiet_window by auto
  qed
  then show ?thesis
    by (intro strategy_change [OF inv k refl _ conjunct2 [OF n], where pc = "place ?wk" and tp = pc and contents = contents])
       (use r(3) f n pl in \<open>simp_all add: worker_updates\<close>)
qed

end
