(* ===== verification/Service_Runs.thy ===== *)
theory Service_Runs
  imports Service
begin

text \<open>
  Runs of the service that can be computed: a list of what happens, and the state it leads to,
  which is then reachable.
\<close>

section \<open>What can happen\<close>

datatype event =
    Begin sockaddr_in
  | Selects sockaddr_in select_result
  | Receives sockaddr_in "byte list"
  | Arrives sockaddr_in "byte list"
  | Main thread_id
  | Worker nat
  | Timer nat

definition guarded :: "bool \<Rightarrow> 'a res \<Rightarrow> 'a option" where
  "guarded b m = (if b then (case m of Inl e \<Rightarrow> None | Inr x \<Rightarrow> Some x) else None)"

lemma guarded_Some [simp]: "guarded b m = Some x \<longleftrightarrow> b \<and> m = Inr x"
  by (auto simp: guarded_def split: sum.splits)

fun act ::
    "config \<Rightarrow> bool \<Rightarrow> (sockaddr_in \<Rightarrow> client_config) \<Rightarrow> event \<Rightarrow> service \<Rightarrow> service option" where
  "act cfg reuse ccfg (Begin a) w =
     map_option (\<lambda>h. w\<lparr>hosts := (hosts w)(a \<mapsto> h)\<rparr>)
       (guarded (hosts w a = None \<and> sin_family a = AF_INET) (client_begin (ccfg a)))"
| "act cfg reuse ccfg (Selects a r) w =
     (case hosts w a of
        None \<Rightarrow> None
      | Some h \<Rightarrow> map_option (\<lambda>h. w\<lparr>hosts := (hosts w)(a \<mapsto> h)\<rparr>)
          (guarded (case r of Readable b \<Rightarrow> from_server w a (ack_wire 0) | _ \<Rightarrow> True)
            (client_step (ccfg a) (Selected r) h)))"
| "act cfg reuse ccfg (Receives a x) w =
     (case hosts w a of
        None \<Rightarrow> None
      | Some h \<Rightarrow> map_option (\<lambda>h. w\<lparr>hosts := (hosts w)(a \<mapsto> h)\<rparr>)
          (guarded (from_server w a x) (client_step (ccfg a) (Received (Some x)) h)))"
| "act cfg reuse ccfg (Arrives a d) w =
     (case hosts w a of
        None \<Rightarrow> None
      | Some h \<Rightarrow> map_option (\<lambda>s. w\<lparr>srv := s\<rparr>)
          (guarded (main_place (srv w) = M_Receive \<and> d \<in> set (host_sent h))
            (server_receive (Some (a, d)) (srv w))))"
| "act cfg reuse ccfg (Main tid) w =
     map_option (\<lambda>s. w\<lparr>srv := s\<rparr>)
       (guarded (main_place (srv w) \<noteq> M_Receive \<and> tid \<notin> running_threads reuse (srv w) \<and> tid \<noteq> 0)
         (Inr (main_step cfg tid (srv w) (main_place (srv w)))))"
| "act cfg reuse ccfg (Worker k) w =
     map_option (\<lambda>s. w\<lparr>srv := s\<rparr>) (guarded (k < length (workers (srv w))) (worker_step cfg k (srv w)))"
| "act cfg reuse ccfg (Timer k) w =
     map_option (\<lambda>s. w\<lparr>srv := s\<rparr>) (guarded (k < length (workers (srv w))) (timer_step k (srv w)))"

lemma act_step: "act cfg reuse ccfg e w = Some w' \<Longrightarrow> service_step cfg reuse ccfg w w'"
proof (induction cfg reuse ccfg e w rule: act.induct)
  case 1
  then show ?case by (auto intro: host_begins)
next
  case (2 cfg reuse ccfg a r w)
  then obtain h h' where h: "hosts w a = Some h" "client_step (ccfg a) (Selected r) h = Inr h'"
    "case r of Readable b \<Rightarrow> from_server w a (ack_wire 0) | _ \<Rightarrow> True" "w' = w\<lparr>hosts := (hosts w)(a \<mapsto> h')\<rparr>"
    by (auto split: option.splits simp del: client_step.simps)
  have "r = Readable (server_address (ccfg a)) \<longrightarrow> (\<exists>x. from_server w a x)" using h(3) by auto
  from host_selects [where w = w and cfg = cfg and reuse = reuse and ccfg = ccfg, OF h(1) this h(2)]
  show ?case by (simp add: h(4))
next
  case 3
  then show ?case by (auto split: option.splits intro!: host_receives)
next
  case 4
  then show ?case by (auto simp: to_server_def split: option.splits intro!: server_acts main_receives)
next
  case 5
  then show ?case by (auto intro!: server_acts main_continues [OF refl])
next
  case 6
  then show ?case by (auto intro: server_acts worker_steps)
next
  case 7
  then show ?case by (auto intro: server_acts timer_steps)
qed

fun run_events ::
    "config \<Rightarrow> bool \<Rightarrow> (sockaddr_in \<Rightarrow> client_config) \<Rightarrow> event list \<Rightarrow> service \<Rightarrow> service option" where
  "run_events cfg reuse ccfg [] w = Some w"
| "run_events cfg reuse ccfg (e # es) w = Option.bind (act cfg reuse ccfg e w) (run_events cfg reuse ccfg es)"

lemma run_reachable:
  "run_events cfg reuse ccfg es w = Some w' \<Longrightarrow> service_reachable cfg reuse ccfg w \<Longrightarrow>
   service_reachable cfg reuse ccfg w'"
proof (induction es arbitrary: w)
  case (Cons e es)
  then obtain v where v: "act cfg reuse ccfg e w = Some v" "run_events cfg reuse ccfg es v = Some w'"
    by (auto simp: bind_eq_Some_conv)
  have "service_reachable cfg reuse ccfg v"
    using Cons.prems(2) act_step [OF v(1)] by (auto simp: service_reachable_def intro: reachable_step)
  then show ?case using Cons.IH v(2) by blast
qed simp

lemma run_events_append:
  "run_events cfg reuse ccfg (es @ fs) w = Option.bind (run_events cfg reuse ccfg es w) (run_events cfg reuse ccfg fs)"
proof (induction es arbitrary: w)
  case (Cons e es)
  then show ?case by (cases "act cfg reuse ccfg e w") simp_all
qed simp

lemma run_snoc:
  "run_events cfg reuse ccfg (es @ [e]) w =
   Option.bind (run_events cfg reuse ccfg es w) (act cfg reuse ccfg e)"
proof -
  have "Option.bind m (run_events cfg reuse ccfg []) = m" for m by (cases m) simp_all
  then have "run_events cfg reuse ccfg [e] = act cfg reuse ccfg e" by (intro ext) simp
  then show ?thesis by (simp only: run_events_append)
qed

section \<open>Small services\<close>

definition example_host :: "nat \<Rightarrow> sockaddr_in" where
  "example_host i = \<lparr>sin_family = AF_INET, sin_port = of_nat i, sin_addr = (127, 0, 0, 1)\<rparr>"

definition example_request :: "byte list" where "example_request = [102]"

definition example_config :: "mode \<Rightarrow> byte list \<Rightarrow> config" where
  "example_config m contents =
     \<lparr>server_mode = m, MAX_WINDOW_SIZE = 4, working_directory = [],
      file_system = [[47, 102] \<mapsto> contents], clock_source = (\<lambda>k. k), checked_iterators = False,
      indeterminate = (0, 0, 0)\<rparr>"

definition example_clients :: "mode \<Rightarrow> sockaddr_in \<Rightarrow> client_config" where
  "example_clients m a =
     \<lparr>client_mode = m, server_address = example_host 0, req_file_name = example_request,
      default_window_size = 4, creatable = True\<rparr>"

definition example_service :: service where
  "example_service = \<lparr>srv = new_server 0 0 [100] [], hosts = Map.empty\<rparr>"

text \<open>A client asks for a file, and the main thread creates its worker.\<close>

definition asks :: "nat \<Rightarrow> thread_id \<Rightarrow> event list" where
  "asks i tid =
     [Begin (example_host i), Arrives (example_host i) (wire example_request 0), Main tid]"

definition example_state :: "mode \<Rightarrow> bool \<Rightarrow> byte list \<Rightarrow> event list \<Rightarrow> service option" where
  "example_state m reuse contents es =
     run_events (example_config m contents) reuse (example_clients m) es example_service"

lemma example_sender_ok: "sender_ok (link (srv example_service))"
  by (simp add: sender_ok_def example_service_def new_server_def set_loss_sequence_def set_probability_def
      set_seed_def initial_sender_def minstd_seed_def MINSTD_MODULUS_def generator_ok_def)

lemma example_start_reachable: "service_reachable cfg reuse ccfg example_service"
proof -
  have "service_start example_service"
    unfolding service_start_def using example_sender_ok by (auto simp: example_service_def)
  then show ?thesis by (simp add: service_reachable_def reachable_start)
qed

lemma example_reachable:
  "example_state m reuse contents es = Some w \<Longrightarrow>
   service_reachable (example_config m contents) reuse (example_clients m) w"
  unfolding example_state_def by (rule run_reachable [OF _ example_start_reachable])

lemma example_snoc:
  "example_state m reuse contents (es @ [e]) = Some w' \<longleftrightarrow>
   (\<exists>w. example_state m reuse contents es = Some w \<and>
      act (example_config m contents) reuse (example_clients m) e w = Some w')"
  by (simp add: example_state_def run_snoc bind_eq_Some_conv)

section \<open>Evaluating a run\<close>

text \<open>
  The datagrams stay folded: two of them are equal when they have the same number and payload,
  and the buffer they are received into reads back what was packed.
\<close>

lemma example_host_key [simp]:
  "get_address_string (example_host i) = get_address_string (example_host j) \<longleftrightarrow> (of_nat i :: 16 word) = of_nat j"
  using get_address_string_inj [of "example_host i" "example_host j"] by (auto simp: example_host_def)

lemma example_host_eq [simp]: "example_host i = example_host j \<longleftrightarrow> (of_nat i :: 16 word) = of_nat j"
  by (auto simp: example_host_def)

lemma example_host_family [simp]: "sin_family (example_host i) = AF_INET"
  by (simp add: example_host_def)

lemma rbind_weak_cong: "m = m' \<Longrightarrow> rbind m f = rbind m' f"
  by simp

lemma bind_weak_cong: "m = m' \<Longrightarrow> Option.bind m f = Option.bind m' f"
  by simp

lemma read_short_wires:
  "data_packet_of_buffer (wire [] n) 8 = Inr (mk_packet [] n)"
  "data_packet_of_buffer (wire [x] n) 9 = Inr (mk_packet [x] n)"
  "data_packet_of_buffer (wire [x, y] n) 10 = Inr (mk_packet [x, y] n)"
  using data_packet_of_wire [of "[]" n] data_packet_of_wire [of "[x]" n] data_packet_of_wire [of "[x, y]" n]
  by simp_all

lemma wire_eq_iff: "wire d n = wire d' n' \<longleftrightarrow> d = d' \<and> n = n'"
proof
  assume e: "wire d n = wire d' n'"
  have "d = d'" using arg_cong [OF e, of "drop 8"] by (simp add: wire_def)
  moreover have "map_sum id ackno (unpack_ack (wire d n) (mk_ack 0)) = Inr n" for d n
    by (simp add: wire_def unpack_ack_header)
  then have "n = n'" using e by (metis sum.inject(2))
  ultimately show "d = d' \<and> n = n'" by simp
qed simp

lemma ack_wire_eq: "ack_wire n = wire [] n"
  by (simp add: ack_wire_def wire_def)

lemma ack_wire_iffs:
  "wire d n = ack_wire m \<longleftrightarrow> d = [] \<and> n = m" "ack_wire m = wire d n \<longleftrightarrow> d = [] \<and> n = m"
  "ack_wire n = ack_wire m \<longleftrightarrow> n = m"
  by (auto simp: ack_wire_eq wire_eq_iff)

lemma running_threads_list:
  "running_threads reuse s = set (map thread (filter (\<lambda>w. reuse \<longrightarrow> place w \<noteq> K_Ended) (workers s)))"
  by (auto simp: running_threads_def)

lemma intact_packet: "calculate_checksum (mk_packet d n) = Inr (cksum (mk_packet d n))"
  by (simp add: calculate_checksum_eq mk_packet_def Let_def)

lemmas example_defs =
  example_state_def asks_def example_service_def example_clients_def example_config_def new_server_def
  initial_sender_def set_loss_sequence_def set_probability_def set_seed_def minstd_seed_def MINSTD_MODULUS_def
  example_request_def

lemmas wire_defs = wire_eq_iff ack_wire_iffs read_short_wires pack_mk_packet intact_packet

lemmas main_defs =
  guarded_def server_receive_def recvfrom_def MAX_UDP_BUFFER_SIZE_def Let_def running_threads_list index_map_def
  host_sent_def from_server_def

lemmas host_defs =
  client_begin_def create_req_datagram_def handle_ack_timeout_def new_client_strategy_def
  new_client_selective_repeat_def fw_open_def new_file_writer_def receive_datagrams_def run_client_def
  sr_client_run_def below_window_end_def is_terminal_pkt_def deliver_buffered_packets_def fw_write_def
  fw_close_def MAX_PKT_SIZE_def

lemmas worker_defs =
  worker_step_def set_worker_def on_strategy_def new_strategy_def start_strategy_def timer_start_def no_timer_def
  acknowledge_def is_done_def send_empty_packet_def finalize_worker_thread_def mark_done_def new_worker_thread_def

lemmas builder_defs =
  new_packet_builder_def get_absolute_path_def c_str_def has_next_def get_next_packet_def read_packets_def
  fill_queue.simps alloc_def empty_store_def MAX_DATA_SIZE_def

lemmas packet_defs =
  packet_at_def deref_def set_packet_def update_def set_ack_def set_time_stamp_def time_comparator_def
  locked_insert_unacked_def lock_set_mutex_def unlock_set_mutex_def lock_wnd_mutex_def unlock_wnd_mutex_def
  insert_unacked_def all_live_def locked_erase_unacked_def erase_unacked_def delete_packet_def free_def

lemmas sending_defs =
  base_strategy_def window_open_def next_packet_def fill_window.simps new_selective_repeat_def sr_start_def
  now_def sr_send_packet_def transmit_def half_def send_packet_def draw_def minstd_next_def
  sr_acknowledge_packet_def calculate_ack_checksum_eq sr_ack_found_def sr_advance_window_def
  adjust_window_size_def expand_window.simps

lemmas run_defs =
  example_defs wire_defs main_defs host_defs worker_defs builder_defs packet_defs sending_defs

lemma example_serves: "m \<noteq> GO_BACK_N \<Longrightarrow> length (chunks contents) < 2 ^ 32 - 1 \<Longrightarrow> serves (example_config m contents)"
  by (auto simp: serves_def example_config_def)

lemma example_fits: "fits (example_config m contents) (example_clients m a)"
  by (simp add: fits_def example_config_def example_clients_def example_request_def)

lemma example_file_of [simp]:
  "file_of (example_config m contents) (req_file_name (example_clients m a)) = Some contents"
  "file_of (example_config m contents) [102] = Some contents"
  by (simp_all add: file_of_def example_config_def example_clients_def example_request_def c_str_def)

section \<open>A whole transfer\<close>

text \<open>The two bytes for host \<open>i\<close> by worker \<open>k\<close>, up to the end of the worker.\<close>

definition transfer_events :: "nat \<Rightarrow> nat \<Rightarrow> thread_id \<Rightarrow> event list" where
  "transfer_events i k tid =
     asks i tid @
     [Main 99, Main 99, Worker k, Selects (example_host i) (Readable (example_host 0)),
      Receives (example_host i) (wire [104, 105] 1), Arrives (example_host i) (ack_wire 1), Main 99, Main 99,
      Worker k, Worker k, Worker k, Worker k, Worker k, Worker k]"

lemma whole_run:
  "\<exists>w h r wk. example_state SELECTIVE_REPEAT False [104, 105]
       (transfer_events 1 0 7 @ [Receives (example_host 1) (wire [] 2), Receives (example_host 1) (wire [] 2)]) = Some w \<and>
     hosts w (example_host 1) = Some h \<and> client_at h = C_Closed r \<and>
     workers (srv w) = [wk] \<and> place wk = K_Ended \<and> peer wk = example_host 1 \<and> file_path wk = [102]"
  by (simp add: run_defs transfer_events_def cong: rbind_weak_cong bind_weak_cong)

lemma whole_transfer:
  obtains w h r wk where
    "service_reachable (example_config SELECTIVE_REPEAT [104, 105]) False (example_clients SELECTIVE_REPEAT) w"
    "hosts w (example_host 1) = Some h" "client_at h = C_Closed r" "workers (srv w) = [wk]" "place wk = K_Ended"
    "peer wk = example_host 1" "file_path wk = [102]"
  using whole_run example_reachable by blast

lemma example_good: "serves (example_config SELECTIVE_REPEAT [104, 105])"
  by (simp add: example_serves length_chunks)

end
