(* ===== verification/Service_Properties.thy ===== *)
theory Service_Properties
  imports Service_Worker_Inv Service_Runs
begin

text \<open>What the service as a whole promises to every client.\<close>

section \<open>Every reachable state satisfies the invariant\<close>

lemma service_start_inv:
  assumes cfg: "serves cfg" and fit: "\<And>a. fits cfg (ccfg a)" and st: "service_start w"
  shows "service_inv cfg ccfg w"
proof -
  obtain seed p sequence g where s: "srv w = new_server seed p sequence g" "sender_ok (link (srv w))"
    and h: "hosts w = Map.empty" using st by (auto simp: service_start_def)
  have "pristine (strategy_of ccfg w a)" for a
    using new_client_pristine [OF fit] cfg by (simp add: strategy_of_def h serves_def)
  moreover have "routing_inv (srv w)" by (simp add: s(1) start_routing)
  ultimately show ?thesis using s(2) h
    by (simp add: service_inv_def threads_inv_def greeting_inv_def queues_ok_def s(1) new_server_def)
qed

lemma host_event_inv:
  assumes cfg: "serves cfg" and fit: "\<And>a. fits cfg (ccfg a)" and inv: "service_inv cfg ccfg w"
    and h: "hosts w a = Some h" and st: "client_step (ccfg a) e h = Inr h'"
    and e: "e = Selected (Readable (server_address (ccfg a))) \<Longrightarrow> contacted (srv w) a"
    and x: "\<And>x. e = Received x \<Longrightarrow> \<exists>y. x = Some y \<and> (from_server w a y \<or> damaged y)"
  shows "service_inv cfg ccfg (w\<lparr>hosts := (hosts w)(a \<mapsto> h')\<rparr>)"
proof -
  have m: "server_mode cfg \<noteq> GO_BACK_N" using cfg by (simp add: serves_def)
  have hok: "host_ok (ccfg a) h" "sin_family a = AF_INET" "client_at h \<noteq> C_Waiting \<longrightarrow> contacted (srv w) a"
    using inv h by (simp_all add: service_inv_def)
  have s: "strategy_of ccfg w a = strategy_at (ccfg a) (client_at h)" by (simp add: strategy_of_def h)
  note c = client_step_cases [OF fit hok(1) st, unfolded run_client_sr [OF fit m]]
  have co: "client_at h' \<noteq> C_Waiting \<longrightarrow> contacted (srv w) a"
    using st e hok(3) by (cases e) (auto simp: handle_ack_timeout_def split: client_place.splits select_result.splits if_splits)
  from c consider (same) "strategy_at (ccfg a) (client_at h') = strategy_of ccfg w a"
    | (run) y where "e = Received y" "sr_client_run y (strategy_of ccfg w a) = Inr (strategy_at (ccfg a) (client_at h'))"
    by (auto simp: s)
  then show ?thesis
  proof cases
    case same
    then show ?thesis using c hok(2) co by (intro host_same [OF inv]) simp_all
  next
    case run
    then obtain y' where "y = Some y'" "from_server w a y' \<or> damaged y'" using x by blast
    then show ?thesis using c hok(2) co run by (intro host_receives_inv [OF inv]) simp_all
  qed
qed

lemma service_step_inv:
  assumes cfg: "serves cfg" and fit: "\<And>a. fits cfg (ccfg a)" and inv: "service_inv cfg ccfg w"
    and st: "service_step cfg False ccfg w w'"
  shows "service_inv cfg ccfg w'"
  using st
proof (cases rule: service_step.cases)
  case (host_begins a h)
  note h = client_begin_ok [OF fit host_begins(4)]
  show ?thesis unfolding host_begins(1)
    by (rule host_same [OF inv]) (use h host_begins in \<open>simp_all add: strategy_of_def\<close>)
next
  case (host_selects a h r h')
  show ?thesis unfolding host_selects(1)
    by (rule host_event_inv [OF cfg fit inv host_selects(2,4)]) (use host_selects(3) from_server_contacted in auto)
next
  case (host_receives a h x h')
  show ?thesis unfolding host_receives(1)
    by (rule host_event_inv [OF cfg fit inv host_receives(2,4)]) (use host_receives(3) in auto)
next
  case (server_acts s')
  from server_acts(2) show ?thesis
  proof (cases rule: server_step.cases)
    case (main_receives a d)
    then show ?thesis using server_receive_inv [OF inv fit] server_acts(1) by blast
  next
    case (main_continues pc tid)
    then show ?thesis using main_step_inv [OF inv] server_acts(1) by auto
  next
    case (worker_steps k)
    then show ?thesis using worker_step_inv [OF cfg inv] server_acts(1) by blast
  next
    case (timer_steps k)
    then show ?thesis using timer_step_inv [OF inv] server_acts(1) by blast
  qed
qed

lemma service_reachable_inv:
  assumes "serves cfg" "\<And>a. fits cfg (ccfg a)" "service_reachable cfg False ccfg w"
  shows "service_inv cfg ccfg w"
proof -
  have "reachable service_start (service_step cfg False ccfg) w" using assms(3) by (simp add: service_reachable_def)
  then show ?thesis
    by (induction rule: reachable.induct) (use service_start_inv service_step_inv assms(1,2) in blast)+
qed

section \<open>What a client writes\<close>

lemma pristine_output: "pristine c \<Longrightarrow> cl_output c = []"
  using cl_inv_prefix [of "[]" c] by (simp add: pristine_def payloads_ok_def)

text \<open>A client has received nothing, or it has a session with a worker.\<close>

lemma host_session:
  assumes inv: "service_inv cfg ccfg w" and h: "hosts w a = Some h"
  obtains (none) "pristine (strategy_of ccfg w a)"
  | (session) wk r contents where "wk \<in> set (workers (srv w))" "peer wk = a" "rdt wk = Some r"
      "file_of cfg (req_file_name (ccfg a)) = Some contents"
      "session_inv (sinv_of cfg) (quiet_of cfg) (chunks contents) (session_of ccfg w wk r)"
proof (cases "\<exists>wk \<in> set (workers (srv w)). peer wk = a \<and> rdt wk \<noteq> None")
  case True
  then obtain wk r where wk: "wk \<in> set (workers (srv w))" "peer wk = a" "rdt wk = Some r" by blast
  then have "file_path wk = req_file_name (ccfg a)" "worker_ok cfg ccfg w wk" using inv unfolding service_inv_def by blast+
  then show ?thesis using wk that(2) by (auto simp: worker_ok_def session_ok_def)
next
  case False
  show ?thesis
  proof (rule that(1), cases "\<exists>wk \<in> set (workers (srv w)). peer wk = a")
    case True
    then obtain wk where wk: "wk \<in> set (workers (srv w))" "peer wk = a" "rdt wk = None" using False by blast
    then have "worker_ok cfg ccfg w wk" using inv unfolding service_inv_def by blast
    then show "pristine (strategy_of ccfg w a)" using wk by (simp add: worker_ok_def)
  next
    case False
    then show "pristine (strategy_of ccfg w a)" using inv unfolding service_inv_def by blast
  qed
qed

lemma session_of_client [simp]:
  "client (session_of ccfg w wk r) = strategy_of ccfg w (peer wk)"
  "over (session_of ccfg w wk r) = (place wk = K_Finalize \<or> place wk = K_Ended)"
  by (simp_all add: session_of_def)

text \<open>
  C4: with selective repeat or stop-and-wait, usable clients and no reused thread name (\<open>serves\<close>,
  \<open>fits\<close>), whatever the network, the scheduler and the other clients do, what a client has written
  of the file it asked for is a prefix of that file.
\<close>

theorem service_prefix:
  assumes "serves cfg" "\<And>b. fits cfg (ccfg b)" "service_reachable cfg False ccfg w" "hosts w a = Some h"
  shows "host_file (ccfg a) h = [] \<or>
    (\<exists>contents. file_of cfg (req_file_name (ccfg a)) = Some contents \<and> prefix (host_file (ccfg a) h) contents)"
proof -
  have inv: "service_inv cfg ccfg w" using service_reachable_inv assms(1-3) by blast
  have "host_file (ccfg a) h = cl_output (strategy_of ccfg w a)"
    using inv assms by (intro host_file_output) (auto simp: service_inv_def serves_def)
  then show ?thesis
  proof (cases rule: host_session [OF inv assms(4), case_names none session])
    case (session wk r contents)
    then show ?thesis using served.session_prefix [OF session(5)] \<open>host_file (ccfg a) h = _\<close>
      by (simp add: concat_chunks)
  qed (simp add: pristine_output)
qed

theorem service_prefix_witness:
  "\<exists>w h. service_reachable (example_config SELECTIVE_REPEAT [104, 105]) False (example_clients SELECTIVE_REPEAT) w \<and>
     hosts w (example_host 1) = Some h \<and> prefix (host_file (example_clients SELECTIVE_REPEAT (example_host 1)) h) [104, 105]"
proof -
  obtain w h where w: "service_reachable (example_config SELECTIVE_REPEAT [104, 105]) False (example_clients SELECTIVE_REPEAT) w"
    "hosts w (example_host 1) = Some h" by (rule whole_transfer)
  from service_prefix [OF example_good example_fits w] show ?thesis using w by auto
qed

text \<open>
  C2: under the same conditions, a client that has closed its file and left has all of the file it
  asked for, byte for byte. With go-back-N, or when a thread gets the name of an earlier one, it can
  have closed an empty file (\<open>Service_Go_Back_N\<close>, \<open>Service_Faults\<close>).
\<close>

theorem service_closed:
  assumes "serves cfg" "\<And>b. fits cfg (ccfg b)" "service_reachable cfg False ccfg w" "hosts w a = Some h"
    "client_at h = C_Closed c"
  shows "file_of cfg (req_file_name (ccfg a)) = Some (host_file (ccfg a) h)"
proof -
  have inv: "service_inv cfg ccfg w" using service_reachable_inv assms(1-3) by blast
  have ok: "host_ok (ccfg a) h" using inv assms(4) by (simp add: service_inv_def)
  have f: "host_file (ccfg a) h = cl_output (strategy_of ccfg w a)"
    using ok assms by (intro host_file_output) (auto simp: serves_def)
  have d: "cl_done (strategy_of ccfg w a)" using ok assms(4,5) by (simp add: host_ok_def strategy_of_def)
  show ?thesis
  proof (cases rule: host_session [OF inv assms(4), case_names none session])
    case none
    then show ?thesis using d by (simp add: pristine_def)
  next
    case (session wk r contents)
    then show ?thesis using served.session_done [OF session(5)] d f by (simp add: concat_chunks)
  qed
qed

theorem service_closed_witness:
  "\<exists>w h c. service_reachable (example_config SELECTIVE_REPEAT [104, 105]) False (example_clients SELECTIVE_REPEAT) w \<and>
     hosts w (example_host 1) = Some h \<and> client_at h = C_Closed c \<and>
     host_file (example_clients SELECTIVE_REPEAT (example_host 1)) h = [104, 105]"
proof -
  obtain w h c where w: "service_reachable (example_config SELECTIVE_REPEAT [104, 105]) False (example_clients SELECTIVE_REPEAT) w"
    "hosts w (example_host 1) = Some h" "client_at h = C_Closed c" by (rule whole_transfer)
  from service_closed [OF example_good example_fits w] show ?thesis using w by auto
qed

text \<open>
  C5: under the same conditions (selective repeat or stop-and-wait, no reused thread name), when a
  worker has told its client that the file is complete, the client has written all of the file,
  although the datagram that says so may never arrive.
\<close>

theorem service_worker_over:
  assumes "serves cfg" "\<And>b. fits cfg (ccfg b)" "service_reachable cfg False ccfg w"
    "wk \<in> set (workers (srv w))" "place wk = K_Finalize \<or> place wk = K_Ended"
  shows "\<exists>h. hosts w (peer wk) = Some h \<and> file_of cfg (file_path wk) = Some (host_file (ccfg (peer wk)) h)"
proof -
  have inv: "service_inv cfg ccfg w" using service_reachable_inv assms(1-3) by blast
  then obtain h where h: "hosts w (peer wk) = Some h" using assms(4) unfolding service_inv_def by blast
  have wok: "worker_ok cfg ccfg w wk" using inv assms(4) unfolding service_inv_def by blast
  then obtain r contents where f: "file_of cfg (file_path wk) = Some contents"
    and s: "session_inv (sinv_of cfg) (quiet_of cfg) (chunks contents) (session_of ccfg w wk r)"
    using assms(5) by (auto simp: worker_ok_def session_ok_def split: option.splits)
  have "host_file (ccfg (peer wk)) h = cl_output (strategy_of ccfg w (peer wk))"
    using inv assms h by (intro host_file_output) (auto simp: service_inv_def serves_def)
  then show ?thesis using h f served.session_over [OF s] assms(5) by (simp add: concat_chunks)
qed

theorem service_worker_over_witness:
  "\<exists>w wk h. service_reachable (example_config SELECTIVE_REPEAT [104, 105]) False (example_clients SELECTIVE_REPEAT) w \<and>
     wk \<in> set (workers (srv w)) \<and> place wk = K_Ended \<and> hosts w (peer wk) = Some h \<and>
     host_file (example_clients SELECTIVE_REPEAT (peer wk)) h = [104, 105]"
proof -
  obtain w wk where w: "service_reachable (example_config SELECTIVE_REPEAT [104, 105]) False (example_clients SELECTIVE_REPEAT) w"
    "workers (srv w) = [wk]" "place wk = K_Ended" "file_path wk = [102]" by (rule whole_transfer)
  then have "wk \<in> set (workers (srv w))" by simp
  from service_worker_over [OF example_good example_fits w(1) this disjI2 [OF w(3)]] this w show ?thesis by auto
qed

section \<open>Faults that cannot happen\<close>

lemma worker_succeeds:
  assumes inv: "service_inv cfg ccfg w" and k: "k < length (workers (srv w))"
    and p: "place (workers (srv w) ! k) \<noteq> K_Start" "place (workers (srv w) ! k) \<noteq> K_Finalize"
  shows "succeeds (worker_step cfg k (srv w))"
proof -
  let ?wk = "workers (srv w) ! k" and ?c = "strategy_of ccfg w (peer (workers (srv w) ! k))"
  obtain r where r: "rdt ?wk = Some r"
    using worker_at(1) [OF inv k] p(1) by (auto simp: worker_ok_def split: option.splits)
  obtain contents where s: "session_inv (sinv_of cfg) (quiet_of cfg) (chunks contents) (session_of ccfg w ?wk r)"
    and e: "place ?wk = K_Finish \<longrightarrow> window r = []" by (rule running_session [OF inv k r])
  show ?thesis
  proof (cases "place ?wk = K_Ended")
    case False
    then have i: "sinv_of cfg (chunks contents) (received ?c) (timer_place ?wk) (r\<lparr>sender := link (srv w)\<rparr>)"
      using s p(2) by (auto simp: session_inv_def session_of_def)
    show ?thesis
    proof (cases "place ?wk")
      case (K_Acknowledge ack)
      then have "trusts_of cfg ack \<Longrightarrow> received ?c (unat (ackno ack))"
        using worker_at(1) [OF inv k] by (simp add: worker_ok_def benign_def)
      from served.inv_ack [OF i this] timer_class_of [OF disjI1 [OF i]] show ?thesis using K_Acknowledge r
        by (auto simp: worker_step_def on_strategy_def Let_def)
    next
      case K_Finish
      from served.send_empty_ended [OF i] e show ?thesis using K_Finish r
        by (auto simp: worker_step_def on_strategy_def Let_def)
    qed (use p False r in \<open>auto simp: worker_step_def Let_def split: prod.splits list.splits\<close>)
  qed (simp add: worker_step_def Let_def)
qed

text \<open>
  C18: under the conditions of this theory, no datagram a client sends, and with selective repeat no
  damaged acknowledgement, makes the main thread fail, whatever the buffer held before.
\<close>

theorem service_main_survives:
  assumes "serves cfg" "\<And>b. fits cfg (ccfg b)" "service_reachable cfg False ccfg w"
    "main_place (srv w) = M_Receive" "to_server cfg w a d"
  shows "succeeds (server_receive (Some (a, d)) (srv w))"
proof -
  have inv: "service_inv cfg ccfg w" using service_reachable_inv assms(1-3) by blast
  show ?thesis
  proof (cases "registered_clients (srv w) (get_address_string a)")
    case None
    have "d = wire (req_file_name (ccfg a)) 0" by (rule unregistered_sent [OF service_hosts [OF inv] assms(4) None assms(5)])
    then show ?thesis using None request_read [OF assms(2)]
      by (simp add: server_receive_def recvfrom_def Let_def)
  next
    case (Some tid)
    have "\<exists>ack. ack_packet_of_buffer d = Inr ack"
    proof -
      obtain h where h: "hosts w a = Some h" using assms(5) by (auto simp: to_server_def split: option.splits)
      then have hok: "host_ok (ccfg a) h" using inv by (simp add: service_inv_def)
      obtain ds where cl: "cl_inv ds (strategy_of ccfg w a)" using strategy_inv [OF inv] by blast
      consider "d = wire (req_file_name (ccfg a)) 0" | "d \<in> set (cl_sent (strategy_of ccfg w a))" | "damaged_ack d"
        using assms(5) h host_sent_cases [of ccfg a h w d, OF hok h] by (auto simp: to_server_def)
      then show ?thesis
      proof cases
        case 2
        then obtain i where "d = ack_wire (of_nat i)" using client_acks [OF cl, of d] by blast
        then show ?thesis using ack_packet_of_wire [of "of_nat i" "[]"] by simp
      qed (use request_as_ack [of _ 0 "[]"] in \<open>auto simp: damaged_ack_def\<close>)
    qed
    then show ?thesis using Some ack_packet_prefix by (auto simp: server_receive_def recvfrom_def Let_def)
  qed
qed

theorem service_main_survives_witness:
  "\<exists>w d. service_reachable (example_config SELECTIVE_REPEAT [104, 105]) False (example_clients SELECTIVE_REPEAT) w \<and>
     succeeds (server_receive (Some (example_host 1, d)) (srv w))"
proof -
  have "\<exists>w. example_state SELECTIVE_REPEAT False [104, 105] [Begin (example_host 1)] = Some w \<and>
      main_place (srv w) = M_Receive \<and> to_server (example_config SELECTIVE_REPEAT [104, 105]) w (example_host 1) (wire [102] 0)"
    by (simp add: run_defs to_server_def cong: rbind_weak_cong bind_weak_cong)
  then obtain w where w: "service_reachable (example_config SELECTIVE_REPEAT [104, 105]) False (example_clients SELECTIVE_REPEAT) w"
    "main_place (srv w) = M_Receive" "to_server (example_config SELECTIVE_REPEAT [104, 105]) w (example_host 1) (wire [102] 0)"
    using example_reachable by blast
  from service_main_survives [OF example_good example_fits w] w(1) show ?thesis by blast
qed

text \<open>
  C7: with selective repeat or stop-and-wait and no reused thread name, once its file has been opened
  and until it marks itself done, a worker cannot fail: every acknowledgement in its queue is
  handled. (A go-back-N worker can, see \<open>Go_Back_N_Properties\<close>.)
\<close>

theorem service_worker_survives:
  assumes "serves cfg" "\<And>b. fits cfg (ccfg b)" "service_reachable cfg False ccfg w" "k < length (workers (srv w))"
    "place (workers (srv w) ! k) \<noteq> K_Start" "place (workers (srv w) ! k) \<noteq> K_Finalize"
  shows "succeeds (worker_step cfg k (srv w))"
  by (rule worker_succeeds [OF service_reachable_inv [OF assms(1-3)] assms(4-6)])

theorem service_worker_survives_witness:
  "\<exists>w ack. service_reachable (example_config SELECTIVE_REPEAT [104, 105]) False (example_clients SELECTIVE_REPEAT) w \<and>
     place (workers (srv w) ! 0) = K_Acknowledge ack \<and>
     succeeds (worker_step (example_config SELECTIVE_REPEAT [104, 105]) 0 (srv w))"
proof -
  have "\<exists>w. example_state SELECTIVE_REPEAT False [104, 105] (take 13 (transfer_events 1 0 7)) = Some w \<and>
      0 < length (workers (srv w)) \<and> place (workers (srv w) ! 0) = K_Acknowledge (mk_ack 1)"
    by (simp add: run_defs transfer_events_def cong: rbind_weak_cong bind_weak_cong)
  then obtain w where w: "service_reachable (example_config SELECTIVE_REPEAT [104, 105]) False (example_clients SELECTIVE_REPEAT) w"
    "0 < length (workers (srv w))" "place (workers (srv w) ! 0) = K_Acknowledge (mk_ack 1)"
    using example_reachable by blast
  from service_worker_survives [OF example_good example_fits w(1,2)] w show ?thesis by auto
qed

end
