(* ===== verification/Service_Refinement.thy ===== *)
theory Service_Refinement
  imports Service_Properties
begin

text \<open>
  The service, seen from the files alone: every client that has asked holds a growing prefix of
  its file, and is complete only when it holds all of it. Each step of the detailed system, with
  its threads, windows, timers and datagrams, is a step of this one or changes nothing in it.
\<close>

section \<open>The abstract service\<close>

type_synonym deliveries = "sockaddr_in \<rightharpoonup> byte list \<times> bool"

text \<open>\<open>wanted a\<close> is the contents of the file the client at \<open>a\<close> asks for, if there is one.\<close>

inductive delivery_step :: "(sockaddr_in \<rightharpoonup> byte list) \<Rightarrow> deliveries \<Rightarrow> deliveries \<Rightarrow> bool"
  for wanted :: "sockaddr_in \<rightharpoonup> byte list" where
  ask: "m a = None \<Longrightarrow> delivery_step wanted m (m(a \<mapsto> ([], False)))"
| extend: "m a = Some (x, False) \<Longrightarrow> wanted a = Some contents \<Longrightarrow> prefix (x @ y) contents \<Longrightarrow>
     delivery_step wanted m (m(a \<mapsto> (x @ y, False)))"
| complete: "m a = Some (contents, False) \<Longrightarrow> wanted a = Some contents \<Longrightarrow>
     delivery_step wanted m (m(a \<mapsto> (contents, True)))"

definition finished :: "client_state \<Rightarrow> bool" where
  "finished h \<longleftrightarrow> (case client_at h of C_Closed c \<Rightarrow> True | _ \<Rightarrow> False)"

text \<open>What the detailed state is abstractly.\<close>

definition deliveries_of :: "(sockaddr_in \<Rightarrow> client_config) \<Rightarrow> service \<Rightarrow> deliveries" where
  "deliveries_of ccfg w = (\<lambda>a. map_option (\<lambda>h. (host_file (ccfg a) h, finished h)) (hosts w a))"

definition wanted_files :: "config \<Rightarrow> (sockaddr_in \<Rightarrow> client_config) \<Rightarrow> sockaddr_in \<rightharpoonup> byte list" where
  "wanted_files cfg ccfg a = file_of cfg (req_file_name (ccfg a))"

section \<open>A client only appends\<close>

lemma fw_write_appends: "prefix (cl_output c) (cl_output (c\<lparr>writer := fw_write d (writer c)\<rparr>))"
  by (auto simp: cl_output_def fw_write_def split: option.splits)

lemma deliver_loop_appends: "prefix (cl_output c) (cl_output (deliver_loop ps c))"
proof (induction ps c rule: deliver_loop.induct)
  case (2 p ps c)
  show ?case
  proof (cases "seqno p = expected_seqno c")
    case True
    let ?w = "c\<lparr>file_data := file_data c @ data p, cl_window := ps\<rparr>"
    let ?c = "?w\<lparr>writer := fw_write (file_data ?w) (writer ?w), file_data := [], expected_seqno := expected_seqno c + 1\<rparr>"
    have "prefix (cl_output c) (cl_output (c\<lparr>writer := fw_write (file_data c @ data p) (writer c)\<rparr>))"
      by (rule fw_write_appends)
    also have "cl_output (c\<lparr>writer := fw_write (file_data c @ data p) (writer c)\<rparr>) = cl_output ?c"
      by (rule cl_output_cong) simp
    also have "prefix \<dots> (cl_output (deliver_loop ps ?c))" using "2.IH" [OF True refl refl refl refl] by simp
    finally show ?thesis using True by (simp add: Let_def)
  qed simp
qed simp

lemma run_appends: "sr_client_run r c = Inr c' \<Longrightarrow> prefix (cl_output c) (cl_output c')"
proof (erule yieldsD [rotated])
  have d: "prefix (cl_output c) (cl_output (deliver_buffered_packets (c\<lparr>cl_window := w\<rparr>)))" for w
    using deliver_loop_appends [of "c\<lparr>cl_window := w\<rparr>" w] by (simp add: deliver_buffered_packets_def)
  show "yields (\<lambda>c'. prefix (cl_output c) (cl_output c')) (sr_client_run r c)"
    unfolding sr_client_run_def send_ack_eq
    by (intro yields_intros) (simp_all add: d)
qed

section \<open>The simulation\<close>

lemma host_step_delivers:
  assumes cfg: "serves cfg" "\<And>b. fits cfg (ccfg b)"
    and r: "service_reachable cfg False ccfg w" "service_reachable cfg False ccfg w'"
    and h: "hosts w a = Some h" "w' = w\<lparr>hosts := (hosts w)(a \<mapsto> h')\<rparr>" and st: "client_step (ccfg a) e h = Inr h'"
  shows "(delivery_step (wanted_files cfg ccfg))\<^sup>=\<^sup>= (deliveries_of ccfg w) (deliveries_of ccfg w')"
proof -
  have g: "server_mode cfg \<noteq> GO_BACK_N" using cfg(1) by (simp add: serves_def)
  have "host_ok (ccfg a) h" using service_reachable_inv [OF cfg r(1)] h(1) by (simp add: service_inv_def)
  note c = client_step_cases [OF cfg(2) this st, unfolded run_client_sr [OF cfg(2) g]]
  have out: "host_file (ccfg a) h = cl_output (strategy_at (ccfg a) (client_at h))"
    "host_file (ccfg a) h' = cl_output (strategy_at (ccfg a) (client_at h'))"
    using host_file_output [of ccfg a h w cfg] host_file_output [of ccfg a h' w' cfg] c g cfg(2) h
      \<open>host_ok (ccfg a) h\<close> by (simp_all add: strategy_of_def)
  have grows: "prefix (host_file (ccfg a) h) (host_file (ccfg a) h')"
    using c by (auto simp: out dest: run_appends)
  have new: "deliveries_of ccfg w' = (deliveries_of ccfg w)(a \<mapsto> (host_file (ccfg a) h', finished h'))"
    and old: "deliveries_of ccfg w a = Some (host_file (ccfg a) h, finished h)"
    by (simp_all add: deliveries_of_def h fun_eq_iff)
  have h': "hosts w' a = Some h'" by (simp add: h)
  show ?thesis
  proof (cases "finished h")
    case True
    then have "h' = h" using st by (cases e; cases "client_at h") (auto simp: finished_def)
    then show ?thesis using new old by (simp add: map_upd_triv)
  next
    case False
    note old = old [simplified False]
    show ?thesis
    proof (cases "finished h'")
      case True
      then obtain s where s: "client_at h' = C_Closed s" by (auto simp: finished_def split: client_place.splits)
      have "file_of cfg (req_file_name (ccfg a)) = Some (host_file (ccfg a) h')"
        by (rule service_closed [OF cfg r(2) h' s])
      moreover have "host_file (ccfg a) h' = host_file (ccfg a) h"
        using st s False by (cases e; cases "client_at h")
          (auto simp: finished_def handle_ack_timeout_def receive_datagrams_def rbind_Inr_iff host_file_def fw_close_def
            split: select_result.splits if_splits)
      ultimately show ?thesis using delivery_step.complete [where m = "deliveries_of ccfg w" and a = a, OF old] True new by (simp add: wanted_files_def)
    next
      case nc: False
      obtain y where y: "host_file (ccfg a) h' = host_file (ccfg a) h @ y" using grows by (auto simp: prefix_def)
      show ?thesis
      proof (cases "host_file (ccfg a) h' = []")
        case True
        then show ?thesis using new old nc y by (simp add: map_upd_triv)
      next
        case False
        then obtain contents where "wanted_files cfg ccfg a = Some contents" "prefix (host_file (ccfg a) h @ y) contents"
          using service_prefix [OF cfg r(2) h'] y by (auto simp: wanted_files_def)
        from delivery_step.extend [where m = "deliveries_of ccfg w" and a = a and x = "host_file (ccfg a) h" and y = y
            and wanted = "wanted_files cfg ccfg" and contents = contents, OF old this]
        show ?thesis using new nc y by simp
      qed
    qed
  qed
qed

text \<open>
  C1: with selective repeat or stop-and-wait (\<open>serves\<close>: not go-back-N, and a usable
  configuration), clients of the server's mode that can create and name their file (\<open>fits\<close>), and
  no thread with the name of an earlier one, the service refines the abstract one: what the clients
  hold starts empty, and changes only as the abstract steps allow. \<open>Service_Go_Back_N\<close> and
  \<open>Service_Faults\<close> have runs in which it does not, outside these conditions.
\<close>

theorem service_refines_delivery:
  assumes "serves cfg" "\<And>b. fits cfg (ccfg b)" "service_reachable cfg False ccfg w" "service_step cfg False ccfg w w'"
  shows "(delivery_step (wanted_files cfg ccfg))\<^sup>=\<^sup>= (deliveries_of ccfg w) (deliveries_of ccfg w')"
proof -
  have r: "service_reachable cfg False ccfg w'"
    using assms(3,4) by (auto simp: service_reachable_def intro: reachable_step)
  from assms(4) show ?thesis
  proof (cases rule: service_step.cases)
    case (host_begins a h)
    have "client_at h = C_Waiting" by (rule client_begin_ok [OF assms(2) host_begins(4)])
    then have "deliveries_of ccfg w' = (deliveries_of ccfg w)(a \<mapsto> ([], False))"
      by (simp add: deliveries_of_def host_begins(1) fun_eq_iff host_file_def finished_def)
    moreover have "deliveries_of ccfg w a = None" using host_begins by (simp add: deliveries_of_def)
    ultimately show ?thesis
      using delivery_step.ask [of "deliveries_of ccfg w" a "wanted_files cfg ccfg"] by simp
  next
    case (host_selects a h x h')
    show ?thesis by (rule host_step_delivers [OF assms(1-3) r host_selects(2,1,4)])
  next
    case (host_receives a h x h')
    show ?thesis by (rule host_step_delivers [OF assms(1-3) r host_receives(2,1,4)])
  next
    case (server_acts s')
    then show ?thesis by (simp add: deliveries_of_def)
  qed
qed

theorem service_refines_delivery_witness:
  "\<exists>w w'. service_reachable (example_config SELECTIVE_REPEAT [104, 105]) False (example_clients SELECTIVE_REPEAT) w \<and>
     delivery_step (\<lambda>_. Some [104, 105]) (deliveries_of (example_clients SELECTIVE_REPEAT) w)
       (deliveries_of (example_clients SELECTIVE_REPEAT) w') \<and>
     deliveries_of (example_clients SELECTIVE_REPEAT) w' (example_host 1) = Some ([104, 105], False)"
proof -
  let ?cfg = "example_config SELECTIVE_REPEAT [104, 105]" and ?ccfg = "example_clients SELECTIVE_REPEAT"
  let ?es = "take 7 (transfer_events 1 0 7)" and ?e = "Receives (example_host 1) (wire [104, 105] 1)"
  have "\<exists>w h c. example_state SELECTIVE_REPEAT False [104, 105] ?es = Some w \<and>
      hosts w (example_host 1) = Some h \<and> client_at h = C_Receiving c \<and> files (writer c) [102] = Some []"
    by (simp add: run_defs transfer_events_def cong: rbind_weak_cong bind_weak_cong)
  then obtain w where w: "example_state SELECTIVE_REPEAT False [104, 105] ?es = Some w"
    "deliveries_of ?ccfg w (example_host 1) = Some ([], False)"
    by (auto simp del: take_Suc_Cons simp: deliveries_of_def host_file_def finished_def example_clients_def example_request_def)
  have "\<exists>w' h c. example_state SELECTIVE_REPEAT False [104, 105] (?es @ [?e]) = Some w' \<and>
      hosts w' (example_host 1) = Some h \<and> client_at h = C_Receiving c \<and> files (writer c) [102] = Some [104, 105]"
    by (simp add: run_defs transfer_events_def cong: rbind_weak_cong bind_weak_cong)
  then obtain w' where w': "act ?cfg False ?ccfg ?e w = Some w'"
    "deliveries_of ?ccfg w' (example_host 1) = Some ([104, 105], False)"
    unfolding example_snoc w(1) by (auto simp del: act.simps simp: deliveries_of_def host_file_def finished_def example_clients_def example_request_def)
  note r = example_reachable [OF w(1)] and st = act_step [OF w'(1)]
  have "wanted_files ?cfg ?ccfg = (\<lambda>_. Some [104, 105])" by (simp add: wanted_files_def fun_eq_iff)
  moreover have "deliveries_of ?ccfg w \<noteq> deliveries_of ?ccfg w'" using w(2) w'(2) by auto
  ultimately have "delivery_step (\<lambda>_. Some [104, 105]) (deliveries_of ?ccfg w) (deliveries_of ?ccfg w')"
    using service_refines_delivery [OF example_good example_fits r st] by auto
  then show ?thesis using r w'(2) by blast
qed

end
