(* ===== verification/Server_Threads.thy ===== *)
theory Server_Threads
  imports Service_Runs Service_Hosts
begin

text \<open>
  What holds of the server's tables in every state, for every mode, every network and every kind
  of client: the shape of a worker's entry, one worker for each client, and the table of thread
  objects, which a worker can reach before the main thread has filled it.
\<close>

section \<open>Invariants of the server alone\<close>

lemma server_invariant:
  assumes start: "\<And>seed p sequence g. P (new_server seed p sequence g)"
    and step: "\<And>s s' arrives. P s \<Longrightarrow> server_step cfg reuse arrives s s' \<Longrightarrow> P s'"
    and r: "service_reachable cfg reuse ccfg w"
  shows "P (srv w)"
proof -
  have "reachable service_start (service_step cfg reuse ccfg) w" using r by (simp add: service_reachable_def)
  then show ?thesis
  proof (induction rule: reachable.induct)
    case (reachable_start w)
    then show ?case using start by (auto simp: service_start_def)
  next
    case (reachable_step w w')
    from reachable_step(2) show ?case
      by (cases rule: service_step.cases) (use reachable_step(3) step in auto)
  qed
qed

section \<open>The shape of a worker\<close>

text \<open>The largest window of the strategy the server constructs; go-back-N never sets its own.\<close>

definition window_bound :: "config \<Rightarrow> int" where
  "window_bound cfg =
     (case server_mode cfg of STOP_AND_WAIT \<Rightarrow> 1 | SELECTIVE_REPEAT \<Rightarrow> MAX_WINDOW_SIZE cfg
      | GO_BACK_N \<Rightarrow> fst (snd (indeterminate cfg)))"

lemma new_strategy_bound: "new_strategy cfg path l = Inr (m, r) \<Longrightarrow> max_window_size r = window_bound cfg"
  by (cases "server_mode cfg")
     (auto simp: new_strategy_def window_bound_def new_stop_and_wait_def new_selective_repeat_def new_go_back_N_def
       base_strategy_def rbind_Inr_iff dest!: fill_window_frame split: prod.splits)

definition worker_shape :: "config \<Rightarrow> worker \<Rightarrow> bool" where
  "worker_shape cfg wk \<longleftrightarrow> (rdt wk = None \<longleftrightarrow> place wk = K_Start) \<and>
     (\<forall>r. rdt wk = Some r \<longrightarrow> timer_class (timer_place wk) = server_mode cfg \<and> max_window_size r = window_bound cfg)"

definition shapes_inv :: "config \<Rightarrow> server_state \<Rightarrow> bool" where
  "shapes_inv cfg s \<longleftrightarrow> (\<forall>wk \<in> set (workers s). worker_shape cfg wk)"

lemma timer_keeps_class: "handle_time_out pc r = Inr (pc', r') \<Longrightarrow> timer_class pc' = timer_class pc"
  by (cases pc) (auto simp: rbind_Inr_iff)

definition shaped_step :: "config \<Rightarrow> nat \<Rightarrow> server_state \<Rightarrow> server_state \<Rightarrow> bool" where
  "shaped_step cfg k s s' \<longleftrightarrow> (\<exists>w'. workers s' = (workers s)[k := w'] \<and> worker_shape cfg w')"

lemma shaped_stepI: "workers s' = (workers s)[k := w'] \<Longrightarrow> worker_shape cfg w' \<Longrightarrow> shaped_step cfg k s s'"
  unfolding shaped_step_def by blast

lemma shaped_same: "workers s' = workers s \<Longrightarrow> worker_shape cfg (workers s ! k) \<Longrightarrow> shaped_step cfg k s s'"
  by (rule shaped_stepI [where w' = "workers s ! k"]) simp_all

lemma max_window_size_constant: "constants r' = constants (r\<lparr>sender := l\<rparr>) \<Longrightarrow> max_window_size r' = max_window_size r"
  by (simp add: constants_def)

lemma on_strategy_shape:
  assumes sh: "worker_shape cfg (workers s ! k)" and on: "on_strategy k operation p s = Inr s'" and p: "p \<noteq> K_Start"
    and op: "\<And>r r'. operation r = Inr r' \<Longrightarrow> constants r' = constants r"
  shows "shaped_step cfg k s s'"
proof -
  obtain r r' where r: "rdt (workers s ! k) = Some r" "operation (r\<lparr>sender := link s\<rparr>) = Inr r'"
    "s' = set_worker k ((workers s ! k)\<lparr>rdt := Some r', place := p\<rparr>) (s\<lparr>link := sender r'\<rparr>)" by (rule on_strategyE [OF on])
  have "max_window_size r' = max_window_size r" by (rule max_window_size_constant [OF op [OF r(2)]])
  then show ?thesis using sh r(1,3) p by (intro shaped_stepI) (auto simp: worker_shape_def)
qed

lemma worker_step_shape:
  assumes k: "k < length (workers s)" and sh: "worker_shape cfg (workers s ! k)" and st: "worker_step cfg k s = Inr s'"
  shows "shaped_step cfg k s s'"
proof (cases "place (workers s ! k)")
  case K_Start
  obtain m r r' where r: "new_strategy cfg (file_path (workers s ! k)) (link s) = Inr (m, r)"
    "start_strategy m (r\<lparr>sender := link s\<rparr>) = Inr r'"
    "s' = set_worker k ((workers s ! k)\<lparr>rdt := Some r', timer_place := timer_start m, place := K_Check\<rparr>)
       (s\<lparr>link := sender r'\<rparr>)" by (rule worker_startE [OF st K_Start k])
  have "max_window_size r' = window_bound cfg"
    using max_window_size_constant [OF start_strategy_loss [OF r(2)]] new_strategy_bound [OF r(1)] by simp
  then show ?thesis using r(3) new_strategy_class [OF r(1)] by (intro shaped_stepI) (auto simp: worker_shape_def)
next
  case K_Check
  then obtain r where "rdt (workers s ! k) = Some r" using st by (auto simp: worker_step_def Let_def split: option.splits)
  then show ?thesis using K_Check st sh
    by (intro shaped_stepI [of s' s k "(workers s ! k)\<lparr>rdt := Some (snd (is_done r)),
          place := if fst (is_done r) then K_Finish else K_Wait\<rparr>"])
       (auto simp: worker_step_def Let_def worker_shape_def is_done_def now_def split: prod.splits)
next
  case K_Wait
  show ?thesis
  proof (cases "workers s' = workers s")
    case False
    then show ?thesis using K_Wait st sh
      by (auto simp: worker_step_def Let_def worker_shape_def index_map_def split: option.splits list.splits
          intro!: shaped_stepI)
  qed (use sh shaped_same in blast)
next
  case (K_Acknowledge a)
  then show ?thesis using st on_strategy_shape [OF sh _ _ acknowledge_loss] by (auto simp: worker_step_def Let_def)
next
  case K_Finish
  then show ?thesis using st on_strategy_shape [OF sh _ _ send_empty_loss] by (auto simp: worker_step_def Let_def)
next
  case K_Finalize
  then show ?thesis using st sh
    by (auto simp: worker_step_def Let_def worker_shape_def rbind_Inr_iff finalize_worker_thread_def
        intro!: shaped_stepI split: option.splits prod.splits)
next
  case K_Ended
  then show ?thesis using st sh by (auto simp: worker_step_def Let_def intro: shaped_same)
qed

lemma timer_step_shape:
  assumes k: "k < length (workers s)" and sh: "worker_shape cfg (workers s ! k)" and st: "timer_step k s = Inr s'"
  shows "shaped_step cfg k s s'"
proof (cases "s' = s")
  case False
  then obtain r pc r' where r: "rdt (workers s ! k) = Some r"
    "handle_time_out (timer_place (workers s ! k)) (r\<lparr>sender := link s\<rparr>) = Inr (pc, r')"
    "s' = set_worker k ((workers s ! k)\<lparr>rdt := Some r', timer_place := pc\<rparr>) (s\<lparr>link := sender r'\<rparr>)"
    using st by (auto simp: timer_step_def Let_def rbind_Inr_iff split: option.splits if_splits)
  then show ?thesis using sh timer_keeps_class [OF r(2)] max_window_size_constant [OF timer_loss [OF r(2)]]
    by (auto simp: worker_shape_def intro!: shaped_stepI)
qed (use sh shaped_same in blast)

lemma shapes_update:
  assumes "shapes_inv cfg s" "k < length (workers s)"
    "worker_shape cfg (workers s ! k) \<Longrightarrow> shaped_step cfg k s s'"
  shows "shapes_inv cfg s'"
proof -
  have "worker_shape cfg (workers s ! k)" using assms(1,2) by (simp add: shapes_inv_def)
  then obtain w' where "workers s' = (workers s)[k := w']" "worker_shape cfg w'"
    using assms(3) unfolding shaped_step_def by blast
  then show ?thesis using assms(1) set_update_subset_insert [of "workers s" k w'] by (auto simp: shapes_inv_def)
qed

lemma main_step_shapes:
  "shapes_inv cfg s \<Longrightarrow> shapes_inv cfg (main_step cfg tid s pc)"
  by (cases pc) (auto simp: shapes_inv_def worker_shape_def index_map_def split: option.splits)

lemma server_step_shapes:
  assumes "shapes_inv cfg s" "server_step cfg reuse arrives s s'"
  shows "shapes_inv cfg s'"
  using assms(2)
proof (cases rule: server_step.cases)
  case (main_receives a d)
  then have "workers s' = workers s" by (auto elim!: server_receive_cases)
  then show ?thesis using assms(1) by (simp add: shapes_inv_def)
next
  case (worker_steps k)
  then show ?thesis using shapes_update [OF assms(1)] worker_step_shape by blast
next
  case (timer_steps k)
  then show ?thesis using shapes_update [OF assms(1)] timer_step_shape by blast
qed (use assms(1) main_step_shapes in simp)

text \<open>
  C27: in every mode, whatever happens, a worker has a strategy exactly when it is past its start,
  so no operation is called through a null pointer, and that strategy is the one the mode of the
  server selects: its virtual calls run the code of that class, and its largest window is the
  argument of that constructor.
\<close>

theorem worker_well_typed:
  assumes "service_reachable cfg reuse ccfg w" "wk \<in> set (workers (srv w))"
  shows "(rdt wk = None \<longleftrightarrow> place wk = K_Start) \<and>
    (\<forall>r. rdt wk = Some r \<longrightarrow> timer_class (timer_place wk) = server_mode cfg \<and>
       max_window_size r =
         (case server_mode cfg of STOP_AND_WAIT \<Rightarrow> 1 | SELECTIVE_REPEAT \<Rightarrow> MAX_WINDOW_SIZE cfg
          | GO_BACK_N \<Rightarrow> fst (snd (indeterminate cfg))))"
proof -
  have "shapes_inv cfg (srv w)"
    by (rule server_invariant [OF _ server_step_shapes assms(1)]) (simp_all add: shapes_inv_def new_server_def)
  then show ?thesis using assms(2) by (simp add: shapes_inv_def worker_shape_def window_bound_def)
qed

theorem worker_well_typed_witness:
  "\<exists>w wk r. service_reachable (example_config SELECTIVE_REPEAT [104, 105]) False (example_clients SELECTIVE_REPEAT) w \<and>
     workers (srv w) = [wk] \<and> rdt wk = Some r \<and> timer_class (timer_place wk) = SELECTIVE_REPEAT \<and>
     max_window_size r = MAX_WINDOW_SIZE (example_config SELECTIVE_REPEAT [104, 105])"
proof -
  obtain w wk where w: "service_reachable (example_config SELECTIVE_REPEAT [104, 105]) False (example_clients SELECTIVE_REPEAT) w"
    "workers (srv w) = [wk]" "place wk = K_Ended" by (rule whole_transfer)
  from worker_well_typed [OF w(1), of wk] w show ?thesis by (auto simp: example_config_def)
qed

section \<open>One worker for each client\<close>

lemma reachable_routing: "service_reachable cfg reuse ccfg w \<Longrightarrow> routing_inv (srv w)"
  by (rule server_invariant [where P = routing_inv, OF start_routing server_step_routing])

lemma reachable_threads: "service_reachable cfg False ccfg w \<Longrightarrow> threads_inv (srv w)"
  by (rule server_invariant [where P = threads_inv, OF _ server_step_threads]) (simp_all add: threads_inv_def new_server_def)

text \<open>
  C15: a client, which is what the address and the port are, has at most one worker as long as the
  server runs, and when the main thread has registered it, its datagrams go to that worker.
\<close>

theorem one_worker_per_client:
  assumes "service_reachable cfg reuse ccfg w" "wk \<in> set (workers (srv w))"
  shows "{v \<in> set (workers (srv w)). sin_addr (peer v) = sin_addr (peer wk) \<and> sin_port (peer v) = sin_port (peer wk)} = {wk} \<and>
    (registered_clients (srv w) (get_address_string (peer wk)) = Some (thread wk) \<or>
     main_place (srv w) = M_Register (thread wk) (peer wk))"
proof -
  have inv: "routing_inv (srv w)" by (rule reachable_routing [OF assms(1)])
  have "v = wk" if "v \<in> set (workers (srv w))" "sin_addr (peer v) = sin_addr (peer wk)" "sin_port (peer v) = sin_port (peer wk)" for v
  proof -
    have "client_key v = client_key wk" using that(2,3) by (simp add: client_key_def get_address_string_def)
    then show ?thesis using inv that(1) assms(2) by (auto simp: routing_inv_def distinct_map inj_on_def)
  qed
  then show ?thesis using inv assms(2) by (auto simp: routing_inv_def client_key_def)
qed

theorem one_worker_per_client_witness:
  "\<exists>w wk. service_reachable (example_config SELECTIVE_REPEAT [104, 105]) False (example_clients SELECTIVE_REPEAT) w \<and>
     wk \<in> set (workers (srv w)) \<and>
     {v \<in> set (workers (srv w)). sin_addr (peer v) = sin_addr (peer wk) \<and> sin_port (peer v) = sin_port (peer wk)} = {wk}"
proof -
  obtain w wk where w: "service_reachable (example_config SELECTIVE_REPEAT [104, 105]) False (example_clients SELECTIVE_REPEAT) w"
    "workers (srv w) = [wk]" by (rule whole_transfer)
  then have "wk \<in> set (workers (srv w))" by simp
  from one_worker_per_client [OF w(1) this] this w(1) show ?thesis by blast
qed

text \<open>
  C26: a registration is final: no step of the server changes or removes it, so a client that has
  been served cannot ask for another file.
\<close>

theorem registration_is_final:
  assumes "service_reachable cfg reuse ccfg w" "service_step cfg reuse ccfg w w'"
  shows "registered_clients (srv w) \<subseteq>\<^sub>m registered_clients (srv w')"
proof -
  have inv: "routing_inv (srv w)" by (rule reachable_routing [OF assms(1)])
  from assms(2) show ?thesis
  proof (cases rule: service_step.cases)
    case (server_acts s')
    from server_acts(2) show ?thesis
    proof (cases rule: server_step.cases)
      case (main_receives a d)
      then show ?thesis using server_acts(1) by (auto elim!: server_receive_cases simp: map_le_def)
    next
      case (main_continues pc tid)
      have ok: "main_ok (srv w) pc" using inv main_continues by (simp add: routing_inv_def)
      have "registered_clients (srv w) \<subseteq>\<^sub>m registered_clients (main_step cfg tid (srv w) pc)"
        using ok by (cases pc) (auto simp: map_le_def index_map_def split: option.splits)
      then show ?thesis using main_continues server_acts(1) by simp
    next
      case (worker_steps k)
      then show ?thesis using server_acts(1) worker_step_own by (auto simp: own_step_def map_le_def)
    next
      case (timer_steps k)
      then show ?thesis using server_acts(1) timer_step_own(1) by (auto simp: own_step_def map_le_def)
    qed
  qed simp_all
qed

theorem registration_is_final_witness:
  "\<exists>w w'. service_reachable (example_config SELECTIVE_REPEAT [104, 105]) False (example_clients SELECTIVE_REPEAT) w \<and>
     service_step (example_config SELECTIVE_REPEAT [104, 105]) False (example_clients SELECTIVE_REPEAT) w w' \<and>
     registered_clients (srv w) \<noteq> Map.empty \<and> registered_clients (srv w) \<subseteq>\<^sub>m registered_clients (srv w')"
proof -
  let ?cfg = "example_config SELECTIVE_REPEAT [104, 105]" and ?ccfg = "example_clients SELECTIVE_REPEAT"
  let ?es = "asks 1 7 @ [Main 99, Main 99]"
  have "\<exists>w. example_state SELECTIVE_REPEAT False [104, 105] ?es = Some w \<and> registered_clients (srv w) \<noteq> Map.empty"
    by (simp add: run_defs cong: rbind_weak_cong bind_weak_cong)
  then obtain w where w: "example_state SELECTIVE_REPEAT False [104, 105] ?es = Some w" "registered_clients (srv w) \<noteq> Map.empty"
    by blast
  have "\<exists>w'. example_state SELECTIVE_REPEAT False [104, 105] (?es @ [Worker 0]) = Some w'"
    by (simp add: run_defs cong: rbind_weak_cong bind_weak_cong)
  then obtain w' where w': "act ?cfg False ?ccfg (Worker 0) w = Some w'" unfolding example_snoc w(1) by blast
  note r = example_reachable [OF w(1)] and st = act_step [OF w']
  from registration_is_final [OF r st] r st w(2) show ?thesis by blast
qed

section \<open>The table of thread objects\<close>

text \<open>A worker is in the table, or the main thread is about to put it there.\<close>

definition recorded_inv :: "server_state \<Rightarrow> bool" where
  "recorded_inv s \<longleftrightarrow>
     (\<forall>wk \<in> set (workers s). (\<exists>t. working_threads s (thread wk) = Some (Some t)) \<or>
        main_place s = M_Register (thread wk) (peer wk) \<or> main_place s = M_Record (thread wk)) \<and>
     (\<forall>t a. main_place s = M_Register t a \<or> main_place s = M_Record t \<longrightarrow> working_threads s t = None) \<and>
     dom (working_threads s) \<subseteq> thread ` set (workers s)"

lemma worker_step_recorded:
  assumes "worker_step cfg k s = Inr s'"
  shows "working_threads s' = working_threads s \<or>
    (\<exists>t. working_threads s (thread (workers s ! k)) = Some (Some t) \<and>
       working_threads s' = (working_threads s)(thread (workers s ! k) \<mapsto> Some (mark_done t)))"
  using assms
  by (cases "place (workers s ! k)")
     (auto simp: worker_step_def Let_def rbind_Inr_iff finalize_worker_thread_def index_map_def elim!: on_strategyE
       split: option.splits prod.splits list.splits)

lemma recorded_own:
  assumes inv: "recorded_inv s" and own: "own_step k s s'" "k < length (workers s)"
    and w: "working_threads s' = working_threads s \<or>
      (\<exists>t u. working_threads s (thread (workers s ! k)) = Some (Some t) \<and>
         working_threads s' = (working_threads s)(thread (workers s ! k) \<mapsto> Some u))"
  shows "recorded_inv s'"
proof -
  have e: "entry ` set (workers s') = entry ` set (workers s)"
    using arg_cong [OF own_entries [OF own], of set] by simp
  have mem: "\<exists>v \<in> set (workers s). thread v = thread wk \<and> peer v = peer wk" if wk: "wk \<in> set (workers s')" for wk
  proof -
    obtain v where "v \<in> set (workers s)" "entry v = entry wk" using e wk by (metis imageE imageI)
    then show ?thesis by (auto simp: entry_def)
  qed
  have "fst ` entry ` set (workers s') = fst ` entry ` set (workers s)" using e by simp
  then have th: "thread ` set (workers s') = thread ` set (workers s)" by (simp add: image_image entry_def)
  have mp: "main_place s' = main_place s" using own(1) by (simp add: own_step_def)
  have k: "thread (workers s ! k) \<in> thread ` set (workers s)" using own(2) by simp
  have wt: "(\<exists>t. working_threads s x = Some (Some t)) \<Longrightarrow> \<exists>t. working_threads s' x = Some (Some t)"
    "working_threads s x = None \<Longrightarrow> working_threads s' x = None" for x
    using w by auto
  show ?thesis unfolding recorded_inv_def th mp
  proof (intro conjI)
    show "\<forall>wk \<in> set (workers s'). (\<exists>t. working_threads s' (thread wk) = Some (Some t)) \<or>
        main_place s = M_Register (thread wk) (peer wk) \<or> main_place s = M_Record (thread wk)"
      using inv mem wt(1) unfolding recorded_inv_def by metis
    show "\<forall>t a. main_place s = M_Register t a \<or> main_place s = M_Record t \<longrightarrow> working_threads s' t = None"
      using inv wt(2) unfolding recorded_inv_def by blast
    show "dom (working_threads s') \<subseteq> thread ` set (workers s)"
    proof -
      have "dom (working_threads s') \<subseteq> insert (thread (workers s ! k)) (dom (working_threads s))" using w by auto
      moreover have "dom (working_threads s) \<subseteq> thread ` set (workers s)" using inv by (simp add: recorded_inv_def)
      ultimately show ?thesis using k by blast
    qed
  qed
qed

lemma main_step_recorded:
  assumes inv: "recorded_inv s" and r: "routing_inv s" and t: "tid \<notin> running_threads False s"
  shows "recorded_inv (main_step cfg tid s (main_place s))"
proof (cases "main_place s")
  case (M_Dispatch a path)
  have "tid \<notin> thread ` set (workers s)" using t by (auto simp: running_threads_def)
  then show ?thesis using inv M_Dispatch by (auto simp: recorded_inv_def)
next
  case (M_Register th a)
  then show ?thesis using inv by (auto simp: recorded_inv_def)
next
  case (M_Record th)
  then show ?thesis using inv r by (auto simp: recorded_inv_def routing_inv_def)
qed (use inv in \<open>auto simp: recorded_inv_def index_map_def split: option.splits\<close>)

lemma server_step_recorded:
  assumes "routing_inv s \<and> recorded_inv s" "server_step cfg False arrives s s'"
  shows "routing_inv s' \<and> recorded_inv s'"
proof
  show "routing_inv s'" using assms server_step_routing by blast
  from assms(2) show "recorded_inv s'"
  proof (cases rule: server_step.cases)
    case (main_receives a d)
    then have "workers s' = workers s" "working_threads s' = working_threads s"
      "\<forall>t b. main_place s' \<noteq> M_Register t b \<and> main_place s' \<noteq> M_Record t" by (auto elim!: server_receive_cases)
    then show ?thesis using assms(1) main_receives(1) by (auto simp: recorded_inv_def)
  next
    case (main_continues pc tid)
    then show ?thesis using main_step_recorded assms(1) by auto
  next
    case (worker_steps k)
    then show ?thesis using recorded_own [OF conjunct2 [OF assms(1)] worker_step_own] worker_step_recorded by metis
  next
    case (timer_steps k)
    then have "working_threads s' = working_threads s"
      by (auto simp: timer_step_def Let_def rbind_Inr_iff split: option.splits if_splits)
    then show ?thesis using recorded_own [OF conjunct2 [OF assms(1)] timer_step_own(1)] timer_steps by metis
  qed
qed

text \<open>
  C17: when the system never gives a thread the name of an earlier one, a worker that has finished
  dereferences a null pointer, which ends the server for every client, exactly when the main thread
  that created it has not yet recorded it. (With a reused name it finds the object of the earlier
  thread of that name.)
\<close>

theorem finalize_race:
  assumes "service_reachable cfg False ccfg w" "k < length (workers (srv w))" "place (workers (srv w) ! k) = K_Finalize"
  shows "worker_step cfg k (srv w) = Inl Null_Pointer \<longleftrightarrow>
    main_place (srv w) = M_Register (thread (workers (srv w) ! k)) (peer (workers (srv w) ! k)) \<or>
    main_place (srv w) = M_Record (thread (workers (srv w) ! k))"
proof -
  let ?wk = "workers (srv w) ! k"
  have "routing_inv (srv w) \<and> recorded_inv (srv w)"
    by (rule server_invariant [OF _ server_step_recorded assms(1)])
       (use start_routing in \<open>simp_all add: recorded_inv_def new_server_def\<close>)
  then have inv: "recorded_inv (srv w)" ..
  have "?wk \<in> set (workers (srv w))" using assms(2) by simp
  with inv have c: "(\<exists>t. working_threads (srv w) (thread ?wk) = Some (Some t)) \<or>
      main_place (srv w) = M_Register (thread ?wk) (peer ?wk) \<or> main_place (srv w) = M_Record (thread ?wk)"
    by (simp add: recorded_inv_def)
  have n: "working_threads (srv w) (thread ?wk) = None"
    if "main_place (srv w) = M_Register (thread ?wk) (peer ?wk) \<or> main_place (srv w) = M_Record (thread ?wk)"
    using inv that unfolding recorded_inv_def by blast
  have "worker_step cfg k (srv w) = Inl Null_Pointer \<longleftrightarrow> (\<nexists>t. working_threads (srv w) (thread ?wk) = Some (Some t))"
    using assms(3)
    by (auto simp: worker_step_def Let_def finalize_worker_thread_def index_map_def rbind_Inl_iff split: option.splits)
  then show ?thesis using c n by force
qed

theorem finalize_race_witness:
  "\<exists>w. service_reachable (example_config SELECTIVE_REPEAT []) False (example_clients SELECTIVE_REPEAT) w \<and>
     worker_step (example_config SELECTIVE_REPEAT []) 0 (srv w) = Inl Null_Pointer"
proof -
  have "\<exists>w wk. example_state SELECTIVE_REPEAT False [] (asks 1 7 @ [Worker 0, Worker 0, Worker 0]) = Some w \<and>
      workers (srv w) = [wk] \<and> place wk = K_Finalize \<and> main_place (srv w) = M_Register (thread wk) (peer wk)"
    by (simp add: run_defs cong: rbind_weak_cong bind_weak_cong)
  then obtain w wk where w: "service_reachable (example_config SELECTIVE_REPEAT []) False (example_clients SELECTIVE_REPEAT) w"
    "workers (srv w) = [wk]" "place wk = K_Finalize" "main_place (srv w) = M_Register (thread wk) (peer wk)"
    using example_reachable by blast
  from finalize_race [OF w(1), of 0] w(2-) have "worker_step (example_config SELECTIVE_REPEAT []) 0 (srv w) = Inl Null_Pointer"
    by simp
  then show ?thesis using w(1) by blast
qed

section \<open>The file of a worker\<close>

text \<open>
  C16: in every mode, whatever the network and the names of the threads, the file a worker sends is
  the one its client asked for.
\<close>

theorem worker_serves_request:
  assumes "\<And>b. fits cfg (ccfg b)" "service_reachable cfg reuse ccfg w" "wk \<in> set (workers (srv w))"
  shows "file_path wk = req_file_name (ccfg (peer wk))"
  using reachable_hosts [OF assms(1,2)] assms(3) unfolding hosts_inv_def requests_ok_def by blast

theorem worker_serves_request_witness:
  "\<exists>w wk. service_reachable (example_config SELECTIVE_REPEAT [104, 105]) False (example_clients SELECTIVE_REPEAT) w \<and>
     workers (srv w) = [wk] \<and> file_path wk = [102]"
proof -
  obtain w wk where w: "service_reachable (example_config SELECTIVE_REPEAT [104, 105]) False (example_clients SELECTIVE_REPEAT) w"
    "workers (srv w) = [wk]" by (rule whole_transfer)
  have "file_path wk = [102]"
    using worker_serves_request [OF example_fits w(1), of wk] w(2) by (simp add: example_clients_def example_request_def)
  with w show ?thesis by blast
qed

section \<open>The loss probability\<close>

lemma on_strategy_loss:
  assumes "on_strategy k operation pc s = Inr s'" "\<And>r r'. operation r = Inr r' \<Longrightarrow> constants r' = constants r"
  shows "loss_probability (link s') = loss_probability (link s)"
  using assms(1) by (rule on_strategyE) (auto simp: set_worker_def constants_def dest!: assms(2))

lemma worker_step_loss:
  assumes "worker_step cfg k s = Inr s'"
  shows "loss_probability (link s') = loss_probability (link s)"
proof (cases "place (workers s ! k)")
  case K_Start
  then obtain m w' where "on_strategy k (start_strategy m) K_Check (set_worker k w' s) = Inr s'"
    using assms by (auto simp: worker_step_def Let_def rbind_Inr_iff)
  from on_strategy_loss [OF this] start_strategy_loss show ?thesis by (simp add: set_worker_def)
next
  case K_Acknowledge
  then show ?thesis using assms acknowledge_loss by (auto simp: worker_step_def Let_def dest!: on_strategy_loss)
next
  case K_Finish
  then show ?thesis using assms send_empty_loss by (auto simp: worker_step_def Let_def dest!: on_strategy_loss)
qed (use assms in \<open>auto simp: worker_step_def Let_def set_worker_def finalize_worker_thread_def rbind_Inr_iff
    split: option.splits prod.splits list.splits\<close>)

lemma timer_step_loss:
  "timer_step k s = Inr s' \<Longrightarrow> loss_probability (link s') = loss_probability (link s)"
  by (auto simp: timer_step_def Let_def set_worker_def rbind_Inr_iff constants_def dest!: timer_loss
      split: option.splits if_splits)

lemma main_step_loss: "link (main_step cfg tid s pc) = link s"
  by (cases pc) (auto simp: Let_def split: prod.splits)

text \<open>No thread changes the loss probability the server was constructed with.\<close>

lemma loss_probability_is_constant:
  assumes "server_step cfg reuse arrives s s'"
  shows "loss_probability (link s') = loss_probability (link s)"
  using assms
proof cases
  case (main_receives a d)
  then show ?thesis by (auto simp: server_receive_def Let_def rbind_Inr_iff split: if_splits prod.splits)
qed (auto simp: main_step_loss worker_step_loss timer_step_loss)

end
