(* ===== verification/Service_Faults.thy ===== *)
theory Service_Faults
  imports Service_Runs Service_Server_Inv
begin

text \<open>
  What the service does not survive: a run in which a client is told that an empty file is the
  whole file, because a thread has the name of an earlier one, and steps that end the server for
  every client.
\<close>

section \<open>Files that are lost\<close>

text \<open>
  C10: nothing is ever taken out of the server's tables, so when the system gives a new worker the
  name of one that has ended, the acknowledgements of the old client reach the new worker. Here
  the first client's acknowledgement, duplicated by the network, makes the second client close an
  empty file instead of the two bytes it asked for.
\<close>

theorem thread_reuse_loses_file:
  "\<exists>w h c. service_reachable (example_config SELECTIVE_REPEAT [104, 105]) True (example_clients SELECTIVE_REPEAT) w \<and>
     hosts w (example_host 2) = Some h \<and> client_at h = C_Closed c \<and>
     host_file (example_clients SELECTIVE_REPEAT (example_host 2)) h = []"
proof -
  have "\<exists>w h c. example_state SELECTIVE_REPEAT True [104, 105]
      (transfer_events 1 0 7 @ asks 2 7 @
       [Main 99, Main 99, Worker 1, Arrives (example_host 1) (ack_wire 1), Main 99, Main 99,
        Worker 1, Worker 1, Worker 1, Worker 1, Worker 1, Selects (example_host 2) (Readable (example_host 0)),
        Receives (example_host 2) (wire [] 2), Receives (example_host 2) (wire [] 2)]) = Some w \<and>
      hosts w (example_host 2) = Some h \<and> client_at h = C_Closed c \<and> files (writer c) [102] = Some []"
    by (simp add: run_defs transfer_events_def cong: rbind_weak_cong bind_weak_cong)
  then obtain w h c where
    w: "service_reachable (example_config SELECTIVE_REPEAT [104, 105]) True (example_clients SELECTIVE_REPEAT) w"
      "hosts w (example_host 2) = Some h" "client_at h = C_Closed c" "files (writer c) [102] = Some []"
    using example_reachable by blast
  from w(3,4) have "host_file (example_clients SELECTIVE_REPEAT (example_host 2)) h = []"
    by (simp add: host_file_def example_clients_def example_request_def)
  with w show ?thesis by blast
qed

section \<open>Steps that end the server\<close>

text \<open>
  C31: a request for a file that does not exist ends the whole server: the constructor of the
  reader calls \<open>exit\<close> in the worker, in every mode.
\<close>

theorem missing_file_ends_server:
  assumes "place (workers s ! k) = K_Start" "length (working_directory cfg) < 200"
    "file_of cfg (file_path (workers s ! k)) = None"
  shows "worker_step cfg k s = Inl Exit_Failure"
  using assms
  by (cases "server_mode cfg"; cases "indeterminate cfg")
     (simp_all add: worker_step_def new_strategy_def new_stop_and_wait_def new_selective_repeat_def new_go_back_N_def
       new_packet_builder_def get_absolute_path_def file_of_def Let_def)

theorem missing_file_ends_server_witness:
  "\<exists>w. service_reachable ((example_config GO_BACK_N [])\<lparr>file_system := Map.empty\<rparr>) False (example_clients GO_BACK_N) w \<and>
     worker_step ((example_config GO_BACK_N [])\<lparr>file_system := Map.empty\<rparr>) 0 (srv w) = Inl Exit_Failure"
proof -
  let ?cfg = "(example_config GO_BACK_N [])\<lparr>file_system := Map.empty\<rparr>"
  have "\<exists>w. run_events ?cfg False (example_clients GO_BACK_N) (asks 1 7) example_service = Some w \<and>
      place (workers (srv w) ! 0) = K_Start \<and> file_path (workers (srv w) ! 0) = [102]"
    by (simp add: run_defs cong: rbind_weak_cong bind_weak_cong)
  then obtain w where w: "service_reachable ?cfg False (example_clients GO_BACK_N) w"
    "place (workers (srv w) ! 0) = K_Start" "file_path (workers (srv w) ! 0) = [102]"
    using run_reachable example_start_reachable by blast
  have "worker_step ?cfg 0 (srv w) = Inl Exit_Failure"
    by (rule missing_file_ends_server) (use w in \<open>simp_all add: example_config_def file_of_def\<close>)
  then show ?thesis using w(1) by blast
qed

text \<open>
  An error of \<open>recvfrom\<close> ends the server too: its count \<open>-1\<close> becomes the length of a
  string, unless a client has registered from the address that a failed call leaves.
\<close>

theorem receive_error_ends_server:
  "server_receive None s = Inl Length_Error \<longleftrightarrow> registered_clients s (get_address_string any_address) = None"
proof -
  have "\<not> 18446744073709551615 < (9223372036854775808 :: nat)" by simp
  then have "string_of_buffer b (to_size_t (- 1)) = Inl Length_Error" for b
    by (simp add: string_of_buffer_def to_size_t_neg)
  moreover have "ack_packet_of_buffer b \<noteq> Inl Length_Error" for b
    by (auto simp: ack_packet_of_buffer_def string_of_buffer_def ACK_PKT_LEN_def unpack_ack_def read_u32_def read_u16_def
        rbind_Inl_iff str_at_def Let_def split: if_splits)
  ultimately show ?thesis
    by (auto simp: server_receive_def recvfrom_def Let_def data_packet_of_buffer_def rbind_Inl_iff)
qed

text \<open>
  C32: a datagram of a registered client that is shorter than an acknowledgement is completed with
  the bytes the last datagram left in the buffer, so an empty one repeats the acknowledgement that
  came last, whoever sent it.
\<close>

theorem empty_datagram_repeats:
  assumes "registered_clients s (get_address_string a) \<noteq> None" "server_receive (Some (b, d)) s = Inr t"
    "ack_packet_of_buffer d = Inr ack"
  shows "server_receive (Some (a, [])) (t\<lparr>main_place := M_Receive\<rparr>) = Inr (t\<lparr>main_place := M_Route a ack\<rparr>)"
proof -
  have t: "registered_clients t = registered_clients s"
    "buffer t = take MAX_UDP_BUFFER_SIZE d @ drop (length (take MAX_UDP_BUFFER_SIZE d)) (buffer s)"
    using assms(2) by (auto elim!: server_receive_cases)
  then have "ack_packet_of_buffer (buffer t) = Inr ack" using ack_packet_prefix [OF assms(3)] by simp
  then show ?thesis using assms(1) t(1) by (simp add: server_receive_def recvfrom_def Let_def)
qed

theorem empty_datagram_repeats_witness:
  "\<exists>s t. server_receive (Some (example_host 1, ack_wire 5)) s = Inr t \<and>
     server_receive (Some (example_host 2, [])) (t\<lparr>main_place := M_Receive\<rparr>) =
       Inr (t\<lparr>main_place := M_Route (example_host 2) (mk_ack 5)\<rparr>)"
proof -
  define s where "s = (new_server 0 0 [100] [])\<lparr>registered_clients :=
    [get_address_string (example_host 1) \<mapsto> 7, get_address_string (example_host 2) \<mapsto> 8]\<rparr>"
  have a: "ack_packet_of_buffer (ack_wire 5) = Inr (mk_ack 5)" using ack_packet_of_wire [of 5 "[]"] by simp
  obtain t where t: "server_receive (Some (example_host 1, ack_wire 5)) s = Inr t"
    using ack_packet_prefix [OF a] by (auto simp: s_def server_receive_def recvfrom_def Let_def)
  have "registered_clients s (get_address_string (example_host 2)) \<noteq> None" by (simp add: s_def)
  from empty_datagram_repeats [OF this t a] t show ?thesis by blast
qed

end
