(* ===== verification/Arguments.thy ===== *)
theory Arguments
  imports Server_Main Client_Main
begin

text \<open>
  The argument files: \<open>server/parser/server_parser\<close>, one argument to a line, and
  \<open>client/parser/client_parser\<close>, arguments between white space; and what the constructors of
  the two programs make of them. A file is \<open>None\<close> when it cannot be opened.
\<close>

section \<open>Numbers in text\<close>

definition is_space :: "byte \<Rightarrow> bool" where
  "is_space c \<longleftrightarrow> c = 32 \<or> 9 \<le> c \<and> c \<le> 13"

definition is_digit :: "byte \<Rightarrow> bool" where
  "is_digit c \<longleftrightarrow> 48 \<le> c \<and> c \<le> 57"

text \<open>The longest run of digits, its value added to what was read before.\<close>

fun read_digits :: "nat \<Rightarrow> byte list \<Rightarrow> nat \<times> byte list" where
  "read_digits n [] = (n, [])"
| "read_digits n (c # cs) =
     (if is_digit c then read_digits (10 * n + unat (c - 48)) cs else (n, c # cs))"

definition read_sign :: "byte list \<Rightarrow> bool \<times> byte list" where
  "read_sign s = (case s of [] \<Rightarrow> (False, []) | c # cs \<Rightarrow> if c = 45 then (True, cs) else if c = 43 then (False, cs) else (False, s))"

text \<open>
  An optional sign and at least one digit: the value and the text after it. What stands after the
  number does not matter to \<open>stoi\<close> and \<open>stoul\<close>.
\<close>

definition read_number :: "byte list \<Rightarrow> (int \<times> byte list) option" where
  "read_number s =
     (let (negative, s) = read_sign s
      in case s of
           [] \<Rightarrow> None
         | c # cs \<Rightarrow>
             if \<not> is_digit c then None
             else let (n, rest) = read_digits 0 s in Some (if negative then - int n else int n, rest))"

definition stoi :: "byte list \<Rightarrow> int res" where
  "stoi s =
     (case read_number (dropWhile is_space s) of
        None \<Rightarrow> Inl Invalid_Argument
      | Some (v, rest) \<Rightarrow> if v < - (2 ^ 31) \<or> 2 ^ 31 \<le> v then Inl Out_Of_Range else Inr v)"

text \<open>\<open>stoul\<close> accepts a minus sign, and negates in 64 bits.\<close>

definition stoul :: "byte list \<Rightarrow> nat res" where
  "stoul s =
     (case read_number (dropWhile is_space s) of
        None \<Rightarrow> Inl Invalid_Argument
      | Some (v, rest) \<Rightarrow> if 2 ^ 64 \<le> \<bar>v\<bar> then Inl Out_Of_Range else Inr (unat (word_of_int v :: 64 word)))"

text \<open>
  \<open>stof\<close> on decimal fractions with an optional exponent; the value is not rounded to a
  \<open>float\<close>. Its hexadecimal forms, infinities and NaNs are not modelled.
\<close>

definition read_exponent :: "byte list \<Rightarrow> int" where
  "read_exponent s =
     (case s of
        [] \<Rightarrow> 0
      | c # cs \<Rightarrow> if c = 101 \<or> c = 69 then (case read_number cs of None \<Rightarrow> 0 | Some (e, rest) \<Rightarrow> e) else 0)"

definition stof :: "byte list \<Rightarrow> rat res" where
  "stof s =
     (let (negative, s) = read_sign (dropWhile is_space s);
          whole = takeWhile is_digit s;
          s = dropWhile is_digit s;
          fraction = (case s of [] \<Rightarrow> [] | c # cs \<Rightarrow> if c = 46 then takeWhile is_digit cs else []);
          s = (case s of [] \<Rightarrow> [] | c # cs \<Rightarrow> if c = 46 then dropWhile is_digit cs else s)
      in if whole = [] \<and> fraction = [] then Inl Invalid_Argument
         else
           let m = of_nat (fst (read_digits 0 (whole @ fraction)));
               e = read_exponent s - int (length fraction);
               v = (if 0 \<le> e then m * 10 ^ nat e else m / 10 ^ nat (- e))
           in if v \<noteq> 0 \<and> (v < 1 / 2 ^ 126 \<or> (2 ^ 24 - 1) * 2 ^ 104 < v) then Inl Out_Of_Range
              else Inr (if negative then - v else v))"

section \<open>The server's arguments\<close>

text \<open>\<open>std::getline\<close> until it fails: a last line need not end in a newline.\<close>

fun get_lines :: "byte list \<Rightarrow> byte list \<Rightarrow> byte list list" where
  "get_lines line [] = (if line = [] then [] else [line])"
| "get_lines line (c # cs) = (if c = 10 then line # get_lines [] cs else get_lines (line @ [c]) cs)"

definition new_server_parser :: "byte list option \<Rightarrow> byte list list" where
  "new_server_parser args_file = (case args_file of None \<Rightarrow> [] | Some contents \<Rightarrow> get_lines [] contents)"

definition server_arg :: "byte list list \<Rightarrow> nat \<Rightarrow> byte list res" where
  "server_arg server_args i = (if i < length server_args then Inr (server_args ! i) else Inl Bad_Index)"

definition get_port_number :: "byte list list \<Rightarrow> int res" where
  "get_port_number server_args = rbind (server_arg server_args 0) stoi"

definition get_max_window_size :: "byte list list \<Rightarrow> int res" where
  "get_max_window_size server_args = rbind (server_arg server_args 1) stoi"

definition get_random_seed :: "byte list list \<Rightarrow> nat res" where
  "get_random_seed server_args = rbind (rbind (server_arg server_args 2) stoul) (\<lambda>n. Inr (n mod 2 ^ 32))"

definition get_loss_probability :: "byte list list \<Rightarrow> rat res" where
  "get_loss_probability server_args = rbind (server_arg server_args 3) stof"

definition get_server_mode :: "byte list list \<Rightarrow> byte list res" where
  "get_server_mode server_args = server_arg server_args 4"

fun loss_numbers :: "byte list list \<Rightarrow> int list res" where
  "loss_numbers [] = Inr []"
| "loss_numbers (a # as) = rbind (stoi a) (\<lambda>n. rbind (loss_numbers as) (\<lambda>ns. Inr (n # ns)))"

definition get_loss_sequence :: "byte list list \<Rightarrow> int list res" where
  "get_loss_sequence server_args = loss_numbers (drop 5 server_args)"

section \<open>The server's construction\<close>

definition htons :: "16 word \<Rightarrow> 16 word" where
  "htons w = push_bit 8 w OR drop_bit 8 w"

text \<open>\<open>init\<close>, for the results of the three system calls: the address the socket is bound to.\<close>

record socket_calls =
  socket_ok :: bool
  setsockopt_ok :: bool
  bind_ok :: bool

definition server_init :: "socket_calls \<Rightarrow> int \<Rightarrow> sockaddr_in res" where
  "server_init calls port_number =
     (if \<not> socket_ok calls then Inl Exit_Failure
      else if \<not> setsockopt_ok calls then Inl Exit_Failure
      else
        let server_address =
          \<lparr>sin_family = AF_INET, sin_port = htons (word_of_int port_number), sin_addr = (0, 0, 0, 0)\<rparr>
        in if \<not> bind_ok calls then Inl Exit_Failure else Inr server_address)"

text \<open>What the constructor leaves: the window bound, the mode, the address and the state.\<close>

record constructed =
  window_bound :: int
  constructed_mode :: mode
  bound_address :: sockaddr_in
  initial_state :: server_state

definition construct_server :: "socket_calls \<Rightarrow> byte list \<Rightarrow> byte list list \<Rightarrow> constructed res" where
  "construct_server calls garbage serv_parser =
     rbind (get_max_window_size serv_parser) (\<lambda>mx.
     rbind (get_port_number serv_parser) (\<lambda>port_number.
     rbind (get_random_seed serv_parser) (\<lambda>seed.
     rbind (get_loss_probability serv_parser) (\<lambda>probability.
     rbind (get_loss_sequence serv_parser) (\<lambda>sequence.
     rbind (rbind (get_server_mode serv_parser) set_mode) (\<lambda>m.
     rbind (server_init calls port_number) (\<lambda>address.
       Inr \<lparr>window_bound = mx, constructed_mode = m, bound_address = address,
            initial_state = new_server seed probability sequence garbage\<rparr>)))))))"

definition server_main :: "nat \<Rightarrow> socket_calls \<Rightarrow> byte list \<Rightarrow> byte list option \<Rightarrow> constructed res" where
  "server_main argc calls garbage args_file =
     rbind (validate_args argc) (\<lambda>_. construct_server calls garbage (new_server_parser args_file))"

section \<open>The client's arguments\<close>

text \<open>An input stream: the text that is left, and whether it has failed.\<close>

record stream =
  text_left :: "byte list"
  stream_failed :: bool

definition open_stream :: "byte list option \<Rightarrow> stream" where
  "open_stream file =
     (case file of None \<Rightarrow> \<lparr>text_left = [], stream_failed = True\<rparr>
      | Some contents \<Rightarrow> \<lparr>text_left = contents, stream_failed = False\<rparr>)"

text \<open>
  What every extraction does first: a stream that has failed, or has nothing left but white
  space, fails, and the variable keeps its value.
\<close>

definition skip_ws :: "stream \<Rightarrow> stream" where
  "skip_ws st =
     (if stream_failed st then st
      else let rest = dropWhile is_space (text_left st) in \<lparr>text_left = rest, stream_failed = (rest = [])\<rparr>)"

definition extract_string :: "byte list \<Rightarrow> stream \<Rightarrow> byte list \<times> stream" where
  "extract_string old st =
     (let st = skip_ws st
      in if stream_failed st then (old, st)
         else (takeWhile (\<lambda>c. \<not> is_space c) (text_left st),
               st\<lparr>text_left := dropWhile (\<lambda>c. \<not> is_space c) (text_left st)\<rparr>))"

text \<open>
  The extraction of a number between two bounds: a variable that is not set stays
  indeterminate, text that is not a number sets it to 0 and a number out of bounds to the bound
  passed, and both fail the stream.
\<close>

definition extract_number :: "int \<Rightarrow> int \<Rightarrow> int option \<Rightarrow> stream \<Rightarrow> int option \<times> stream" where
  "extract_number low high old st =
     (let st = skip_ws st
      in if stream_failed st then (old, st)
         else case read_number (text_left st) of
                None \<Rightarrow> (Some 0, st\<lparr>text_left := snd (read_sign (text_left st)), stream_failed := True\<rparr>)
              | Some (v, rest) \<Rightarrow>
                  if v < low then (Some low, \<lparr>text_left = rest, stream_failed = True\<rparr>)
                  else if high < v then (Some high, \<lparr>text_left = rest, stream_failed = True\<rparr>)
                  else (Some v, \<lparr>text_left = rest, stream_failed = False\<rparr>))"

text \<open>A minus sign before an unsigned 16-bit number negates it modulo \<open>2 ^ 16\<close>.\<close>

definition extract_uint16 :: "16 word option \<Rightarrow> stream \<Rightarrow> 16 word option \<times> stream" where
  "extract_uint16 old st =
     (let negative = fst (read_sign (text_left (skip_ws st)));
          (v, st) = extract_number (- 65535) 65535 (map_option uint old) st
      in (map_option (\<lambda>v. if stream_failed st \<and> negative \<and> v \<noteq> 0 then - 1 else word_of_int v) v, st))"

record client_parser =
  server_ip :: "byte list"
  server_port_no :: "16 word option"
  local_port_no :: "16 word option"
  requested_file :: "byte list"
  window_argument :: "int option"
  mode_argument :: "byte list"

definition new_client_parser :: "byte list option \<Rightarrow> client_parser" where
  "new_client_parser args_file =
     (let st = open_stream args_file;
          (ip, st) = extract_string [] st;
          (sp, st) = extract_uint16 None st;
          (lp, st) = extract_uint16 None st;
          (name, st) = extract_string [] st;
          (n, st) = extract_number (- (2 ^ 31)) (2 ^ 31 - 1) None st;
          (m, st) = extract_string [] st
      in \<lparr>server_ip = ip, server_port_no = sp, local_port_no = lp, requested_file = name,
          window_argument = n, mode_argument = m\<rparr>)"

definition determinate :: "'a option \<Rightarrow> 'a res" where
  "determinate v = (case v of None \<Rightarrow> Inl Uninitialised | Some x \<Rightarrow> Inr x)"

section \<open>The client's construction\<close>

text \<open>
  \<open>init\<close>, for the results of the system calls and of \<open>inet_addr\<close>: the configuration of the
  client, and the address its socket is bound to. The size of the window is read later, when
  the strategy is constructed.
\<close>

definition client_init ::
    "socket_calls \<Rightarrow> (byte list \<Rightarrow> byte \<times> byte \<times> byte \<times> byte) \<Rightarrow> bool \<Rightarrow> client_parser \<Rightarrow>
     (sockaddr_in \<times> client_config) res" where
  "client_init calls inet_addr can_create p =
     (if \<not> socket_ok calls then Inl Exit_Failure
      else
        rbind (determinate (local_port_no p)) (\<lambda>local_port.
          let local_addr = \<lparr>sin_family = AF_INET, sin_port = htons local_port, sin_addr = (0, 0, 0, 0)\<rparr>
          in if \<not> bind_ok calls then Inl Exit_Failure
             else
               rbind (determinate (server_port_no p)) (\<lambda>server_port.
               rbind (set_client_mode (mode_argument p)) (\<lambda>m.
               rbind (determinate (window_argument p)) (\<lambda>n.
                 Inr (local_addr,
                   \<lparr>client_mode = m,
                    server_address =
                      \<lparr>sin_family = AF_INET, sin_port = htons server_port, sin_addr = inet_addr (server_ip p)\<rparr>,
                    req_file_name = requested_file p, default_window_size = n, creatable = can_create\<rparr>))))))"

definition client_main ::
    "nat \<Rightarrow> socket_calls \<Rightarrow> (byte list \<Rightarrow> byte \<times> byte \<times> byte \<times> byte) \<Rightarrow> bool \<Rightarrow> byte list option \<Rightarrow>
     (sockaddr_in \<times> client_config) res" where
  "client_main argc calls inet_addr can_create args_file =
     rbind (validate_args argc) (\<lambda>_. client_init calls inet_addr can_create (new_client_parser args_file))"

end
