(* ===== verification/Arguments_Properties.thy ===== *)
theory Arguments_Properties
  imports Arguments Service_Runs
begin

text \<open>Argument files that are written the usual way are read back; what the others lead to.\<close>

section \<open>Numbers\<close>

definition print_int :: "int \<Rightarrow> byte list" where
  "print_int i = (if i < 0 then 45 # decimal (nat (- i)) else decimal (nat i))"

lemma digit_byte: "d < 10 \<Longrightarrow> is_digit (of_nat (48 + d)) \<and> unat (of_nat (48 + d) - 48 :: byte) = d"
  by (auto simp: is_digit_def word_le_nat_alt unat_of_nat take_bit_nat_eq_self digit_value simp del: of_nat_add)
     (simp add: unat_of_nat)

lemma decimal_is_digit: "c \<in> set (decimal n) \<Longrightarrow> is_digit c"
  using decimal_digits digit_byte by blast

lemma decimal_Cons: "\<exists>c cs. decimal n = c # cs \<and> is_digit c"
  using decimal_is_digit [of "hd (decimal n)" n] by (cases "decimal n") auto

lemma read_decimal: "read_digits m (decimal n @ r) = read_digits (m * 10 ^ length (decimal n) + n) r"
proof (induction n arbitrary: m r rule: decimal.induct)
  case (1 n)
  show ?case
  proof (cases "n < 10")
    case True
    then show ?thesis using digit_byte [OF True] by (subst (1 2) decimal.simps) (simp add: mult.commute)
  next
    case False
    have d: "n mod 10 < 10" by simp
    let ?c = "of_nat (48 + n mod 10) :: byte"
    have e: "decimal n = decimal (n div 10) @ [?c]" using False by (subst decimal.simps) simp
    have "read_digits m (decimal n @ r) = read_digits (m * 10 ^ length (decimal (n div 10)) + n div 10) (?c # r)"
      using "1.IH" [OF False, of m "?c # r"] by (simp add: e)
    also have "\<dots> = read_digits (10 * (m * 10 ^ length (decimal (n div 10)) + n div 10) + n mod 10) r"
      using digit_byte [OF d] by simp
    also have "10 * (m * 10 ^ length (decimal (n div 10)) + n div 10) + n mod 10 = m * 10 ^ length (decimal n) + n"
      by (simp add: e algebra_simps)
    finally show ?thesis .
  qed
qed

text \<open>The text after a number starts with something that is no digit.\<close>

definition ends_number :: "byte list \<Rightarrow> bool" where
  "ends_number r \<longleftrightarrow> r = [] \<or> \<not> is_digit (hd r)"

lemma read_digits_end: "ends_number r \<Longrightarrow> read_digits n r = (n, r)"
  by (cases r) (auto simp: ends_number_def)

lemma print_int_first: "\<exists>c cs. print_int i = c # cs \<and> \<not> is_space c"
  using decimal_Cons [of "nat i"] by (auto simp: print_int_def is_space_def is_digit_def word_le_nat_alt)

lemma read_print_int:
  assumes "ends_number r"
  shows "read_number (print_int i @ r) = Some (i, r)"
proof -
  obtain c cs where c: "decimal (nat \<bar>i\<bar>) = c # cs" "is_digit c" using decimal_Cons by blast
  then have "c \<noteq> 45" "c \<noteq> 43" by (auto simp: is_digit_def word_le_nat_alt)
  then have "read_sign (print_int i @ r) = (i < 0, decimal (nat \<bar>i\<bar>) @ r)"
    using c by (auto simp: print_int_def read_sign_def)
  moreover have "read_digits 0 (decimal (nat \<bar>i\<bar>) @ r) = (nat \<bar>i\<bar>, r)"
    using assms by (simp add: read_decimal read_digits_end)
  ultimately show ?thesis using c by (auto simp: read_number_def simp del: read_digits.simps)
qed

lemma skip_print_int: "dropWhile is_space (print_int i @ r) = print_int i @ r"
  using print_int_first [of i] by auto

lemma stoi_print_int:
  assumes "- (2 ^ 31) \<le> i" "i < 2 ^ 31"
  shows "stoi (print_int i) = Inr i"
  using read_print_int [of "[]" i] skip_print_int [of i "[]"] assms by (simp add: stoi_def ends_number_def)

lemma stoul_decimal:
  assumes "n < 2 ^ 64"
  shows "stoul (decimal n) = Inr n"
proof -
  have "read_number (dropWhile is_space (decimal n)) = Some (int n, [])"
    using read_print_int [of "[]" "int n"] skip_print_int [of "int n" "[]"] by (simp add: print_int_def ends_number_def)
  moreover have "unat (word_of_int (int n) :: 64 word) = n" using assms by (simp add: unat_of_nat)
  ultimately show ?thesis using assms by (simp add: stoul_def)
qed

section \<open>The server's file\<close>

lemma get_lines_line: "10 \<notin> set l \<Longrightarrow> get_lines pre (l @ 10 # r) = (pre @ l) # get_lines [] r"
  by (induction l arbitrary: pre) auto

lemma get_lines_lines: "\<forall>l \<in> set ls. 10 \<notin> set l \<Longrightarrow> get_lines [] (concat (map (\<lambda>l. l @ [10]) ls)) = ls"
  by (induction ls) (simp_all add: get_lines_line)

fun mode_name :: "mode \<Rightarrow> byte list" where
  "mode_name STOP_AND_WAIT = bytes ''stop_and_wait''"
| "mode_name SELECTIVE_REPEAT = bytes ''selective_repeat''"
| "mode_name GO_BACK_N = bytes ''go_back_n''"

lemma set_mode_name [simp]: "set_mode (mode_name m) = Inr m" "set_client_mode (mode_name m) = Inr m"
  by (cases m; simp add: set_mode_def set_client_mode_def bytes_def)+

lemma no_newline: "10 \<notin> set (decimal n)" "10 \<notin> set (print_int i)" "10 \<notin> set (mode_name m)"
proof -
  show d: "10 \<notin> set (decimal n)" for n using decimal_is_digit [of 10 n] by (auto simp: is_digit_def word_le_nat_alt)
  show "10 \<notin> set (print_int i)" using d by (simp add: print_int_def)
  show "10 \<notin> set (mode_name m)" by (cases m) (simp_all add: bytes_def)
qed

text \<open>A file with one argument to a line: port, window, seed, probability, mode and the sequence.\<close>

definition server_file :: "int \<Rightarrow> int \<Rightarrow> nat \<Rightarrow> byte list \<Rightarrow> mode \<Rightarrow> int list \<Rightarrow> byte list" where
  "server_file port mx seed probability m sequence =
     concat (map (\<lambda>l. l @ [10])
       ([print_int port, print_int mx, decimal seed, probability, mode_name m] @ map print_int sequence))"

lemma loss_numbers_print:
  "\<forall>k \<in> set ks. - (2 ^ 31) \<le> k \<and> k < 2 ^ 31 \<Longrightarrow> loss_numbers (map print_int ks) = Inr ks"
  by (induction ks) (simp_all add: stoi_print_int)

text \<open>
  C28: the server reads back the arguments a file was written with, every number in its range, and
  starts with them.
\<close>

theorem server_arguments_round_trip:
  assumes "- (2 ^ 31) \<le> port" "port < 2 ^ 31" "- (2 ^ 31) \<le> mx" "mx < 2 ^ 31" "seed < 2 ^ 32"
    "stof probability = Inr p" "10 \<notin> set probability" "set sequence \<subseteq> {- (2 ^ 31) ..< 2 ^ 31}"
  shows "server_main 2 calls garbage (Some (server_file port mx seed probability m sequence)) =
    rbind (server_init calls port) (\<lambda>address.
      Inr \<lparr>window_bound = mx, constructed_mode = m, bound_address = address,
           initial_state = new_server seed p sequence garbage\<rparr>)"
proof -
  let ?ls = "[print_int port, print_int mx, decimal seed, probability, mode_name m] @ map print_int sequence"
  have "new_server_parser (Some (server_file port mx seed probability m sequence)) = ?ls"
    unfolding new_server_parser_def server_file_def option.case
    by (rule get_lines_lines) (use assms(7) no_newline in auto)
  moreover have "loss_numbers (map print_int sequence) = Inr sequence"
    by (rule loss_numbers_print) (use assms(8) in auto)
  ultimately show ?thesis using assms(1-6)
    by (simp add: server_main_def validate_args_def construct_server_def get_max_window_size_def get_port_number_def
        get_random_seed_def get_loss_probability_def get_loss_sequence_def get_server_mode_def server_arg_def
        stoi_print_int stoul_decimal)
qed

lemma stof_example: "stof [48, 46, 49] = Inr (1 / 10)"
  by (simp add: stof_def is_space_def read_sign_def is_digit_def read_exponent_def)

theorem server_arguments_round_trip_witness:
  "server_main 2 \<lparr>socket_ok = True, setsockopt_ok = True, bind_ok = True\<rparr> []
     (Some (server_file 8080 20 7 [48, 46, 49] SELECTIVE_REPEAT [10, 25])) =
   Inr \<lparr>window_bound = 20, constructed_mode = SELECTIVE_REPEAT,
        bound_address = \<lparr>sin_family = AF_INET, sin_port = 0x901F, sin_addr = (0, 0, 0, 0)\<rparr>,
        initial_state = new_server 7 (1 / 10) [10, 25] []\<rparr>"
proof -
  have "htons 8080 = 0x901F" by (simp add: htons_def)
  then show ?thesis
    using server_arguments_round_trip [of 8080 20 7 "[48, 46, 49]" "1 / 10" "[10, 25]"
        "\<lparr>socket_ok = True, setsockopt_ok = True, bind_ok = True\<rparr>" "[]" SELECTIVE_REPEAT]
    by (simp add: stof_example server_init_def)
qed

lemma loss_numbers_length: "loss_numbers as = Inr ns \<Longrightarrow> length ns = length as"
  by (induction as arbitrary: ns) (auto simp: rbind_Inr_iff)

text \<open>
  The constructor does not look at the number of lines: with fewer than five it indexes
  beyond the vector or stops at a line before, and with no sixth line it succeeds, but the first
  packet any worker sends indexes an empty sequence.
\<close>

theorem short_argument_file:
  assumes "length (get_lines [] contents) \<le> 5" "server_main argc calls garbage (Some contents) = Inr c"
  shows "length (get_lines [] contents) = 5 \<and> send_packet packet (link (initial_state c)) = Inl Bad_Index"
proof -
  let ?ls = "get_lines [] contents"
  obtain mx port seed p sequence mode_str m address where a: "get_server_mode ?ls = Inr mode_str"
    "get_loss_sequence ?ls = Inr sequence" "c = \<lparr>window_bound = mx, constructed_mode = m, bound_address = address,
            initial_state = new_server seed p sequence garbage\<rparr>"
    using assms(2) by (auto simp: server_main_def construct_server_def new_server_parser_def rbind_Inr_iff)
  have "4 < length ?ls" using a(1) by (auto simp: get_server_mode_def server_arg_def split: if_splits)
  then have l: "length ?ls = 5" using assms(1) by simp
  then have "sequence = []" using a(2) loss_numbers_length [of "drop 5 ?ls" sequence] by (simp add: get_loss_sequence_def)
  then show ?thesis using l a(3) by (simp add: new_server_def send_packet_def set_loss_sequence_def)
qed

theorem short_argument_file_witness:
  "\<exists>c. server_main 2 \<lparr>socket_ok = True, setsockopt_ok = True, bind_ok = True\<rparr> []
       (Some (server_file 8080 20 7 [48, 46, 49] SELECTIVE_REPEAT [])) = Inr c \<and>
     send_packet (mk_packet [1] 1) (link (initial_state c)) = Inl Bad_Index"
proof -
  let ?f = "server_file 8080 20 7 [48, 46, 49] SELECTIVE_REPEAT []"
  obtain c where c: "server_main 2 \<lparr>socket_ok = True, setsockopt_ok = True, bind_ok = True\<rparr> [] (Some ?f) = Inr c"
    using server_arguments_round_trip [of 8080 20 7 "[48, 46, 49]" "1 / 10" "[]"
        "\<lparr>socket_ok = True, setsockopt_ok = True, bind_ok = True\<rparr>" "[]" SELECTIVE_REPEAT]
    by (simp add: stof_example server_init_def)
  have "get_lines [] ?f = [print_int 8080, print_int 20, decimal 7, [48, 46, 49], mode_name SELECTIVE_REPEAT]"
    unfolding server_file_def by (subst get_lines_lines) (simp_all add: no_newline del: mode_name.simps)
  then have "length (get_lines [] ?f) \<le> 5" by simp
  from short_argument_file [OF this c] c show ?thesis by blast
qed

lemma small_word_nonzero:
  fixes k :: int
  assumes "- (2 ^ 31) \<le> k" "k < 2 ^ 31" "k \<noteq> 0"
  shows "(word_of_int k :: 64 word) \<noteq> 0"
proof
  assume "(word_of_int k :: 64 word) = 0"
  then have "sint (word_of_int k :: 64 word) = 0" by simp
  moreover have "sint (word_of_int k :: 64 word) = k"
    using assms by (simp add: sint_sbintrunc' signed_take_bit_int_eq_self)
  ultimately show False using assms(3) by simp
qed

text \<open>
  C30: a server constructed from a loss sequence with an entry, none of them 0, starts in a state
  in which sending cannot fail, and the service starts in it.
\<close>

theorem constructed_server_starts:
  assumes "server_main argc calls garbage args_file = Inr c"
    "get_loss_sequence (new_server_parser args_file) = Inr sequence" "sequence \<noteq> []" "0 \<notin> set sequence"
  shows "service_start \<lparr>srv = initial_state c, hosts = Map.empty\<rparr>"
proof -
  have c: "\<exists>seed p. initial_state c = new_server seed p sequence garbage"
    using assms(1,2) by (fastforce simp: server_main_def construct_server_def rbind_Inr_iff)
  then obtain seed p where i: "initial_state c = new_server seed p sequence garbage" by blast
  have "- (2 ^ 31) \<le> k \<and> k < 2 ^ 31" if "loss_numbers as = Inr ks" "k \<in> set ks" for as ks k
    using that by (induction as arbitrary: ks) (auto simp: rbind_Inr_iff stoi_def split: option.splits if_splits)
  then have "- (2 ^ 31) \<le> k \<and> k < 2 ^ 31" if "k \<in> set sequence" for k
    using assms(2) that by (auto simp: get_loss_sequence_def)
  then have "(word_of_int k :: 64 word) \<noteq> 0" if "k \<in> set sequence" for k
    using small_word_nonzero [of k] that assms(4) by blast
  moreover have "generator_ok (minstd_seed seed)" by (rule minstd_seed_ok)
  ultimately have "sender_ok (link (initial_state c))"
    using assms(3) by (simp add: i sender_ok_def new_server_def set_loss_sequence_def set_probability_def set_seed_def
        initial_sender_def)
  then show ?thesis using i unfolding service_start_def by auto
qed

theorem constructed_server_starts_witness:
  "\<exists>c. server_main 2 \<lparr>socket_ok = True, setsockopt_ok = True, bind_ok = True\<rparr> []
       (Some (server_file 8080 20 7 [48, 46, 49] SELECTIVE_REPEAT [10, 25])) = Inr c \<and>
     service_start \<lparr>srv = initial_state c, hosts = Map.empty\<rparr>"
proof -
  let ?f = "server_file 8080 20 7 [48, 46, 49] SELECTIVE_REPEAT [10, 25]"
  obtain c where c: "server_main 2 \<lparr>socket_ok = True, setsockopt_ok = True, bind_ok = True\<rparr> [] (Some ?f) = Inr c"
    using server_arguments_round_trip [of 8080 20 7 "[48, 46, 49]" "1 / 10" "[10, 25]"
        "\<lparr>socket_ok = True, setsockopt_ok = True, bind_ok = True\<rparr>" "[]" SELECTIVE_REPEAT]
    by (simp add: stof_example server_init_def)
  have "new_server_parser (Some ?f) =
      [print_int 8080, print_int 20, decimal 7, [48, 46, 49], mode_name SELECTIVE_REPEAT, print_int 10, print_int 25]"
    unfolding server_file_def new_server_parser_def option.case
    by (subst get_lines_lines) (simp_all add: no_newline del: mode_name.simps)
  then have "get_loss_sequence (new_server_parser (Some ?f)) = Inr [10, 25]"
    by (simp add: get_loss_sequence_def stoi_print_int)
  from constructed_server_starts [OF c this] c show ?thesis by auto
qed

section \<open>The client's file\<close>

lemma string_word:
  assumes "w \<noteq> []" "\<forall>c \<in> set w. \<not> is_space c"
  shows "extract_string old \<lparr>text_left = w @ 10 # r, stream_failed = False\<rparr> =
    (w, \<lparr>text_left = 10 # r, stream_failed = False\<rparr>)"
proof -
  have "\<not> is_space (hd w)" using assms by simp
  moreover have "is_space 10" by (simp add: is_space_def)
  ultimately show ?thesis using assms
    by (cases w) (auto simp: extract_string_def skip_ws_def Let_def takeWhile_append dropWhile_append)
qed

lemma skip_newline: "skip_ws \<lparr>text_left = 10 # r, stream_failed = False\<rparr> = skip_ws \<lparr>text_left = r, stream_failed = False\<rparr>"
  by (simp add: skip_ws_def is_space_def)

lemma next_item:
  "extract_string old \<lparr>text_left = 10 # r, stream_failed = False\<rparr> = extract_string old \<lparr>text_left = r, stream_failed = False\<rparr>"
  "extract_number l h v \<lparr>text_left = 10 # r, stream_failed = False\<rparr> = extract_number l h v \<lparr>text_left = r, stream_failed = False\<rparr>"
  "extract_uint16 x \<lparr>text_left = 10 # r, stream_failed = False\<rparr> = extract_uint16 x \<lparr>text_left = r, stream_failed = False\<rparr>"
  by (simp_all add: extract_string_def extract_number_def extract_uint16_def skip_newline)

lemma number_word:
  assumes "l \<le> i" "i \<le> h"
  shows "extract_number l h v \<lparr>text_left = print_int i @ 10 # r, stream_failed = False\<rparr> =
    (Some i, \<lparr>text_left = 10 # r, stream_failed = False\<rparr>)"
proof -
  have "read_number (print_int i @ 10 # r) = Some (i, 10 # r)"
    by (rule read_print_int) (simp add: ends_number_def is_digit_def word_le_nat_alt)
  moreover have "print_int i @ 10 # r \<noteq> []" by simp
  ultimately show ?thesis using assms skip_print_int [of i "10 # r"]
    by (simp add: extract_number_def skip_ws_def Let_def)
qed

lemma port_word:
  "extract_uint16 x \<lparr>text_left = decimal (unat p) @ 10 # r, stream_failed = False\<rparr> =
    (Some p, \<lparr>text_left = 10 # r, stream_failed = False\<rparr>)"
proof -
  have "decimal (unat p) = print_int (uint p)" by (simp add: print_int_def)
  moreover have "uint p \<le> 65535" using uint_lt2p [of p] by simp
  moreover have "- 65535 \<le> uint p" using uint_ge_0 [of p] by linarith
  ultimately show ?thesis using number_word [of "- 65535" "uint p" 65535] by (simp add: extract_uint16_def Let_def)
qed

lemma mode_name_word: "mode_name m \<noteq> []" "\<forall>c \<in> set (mode_name m). \<not> is_space c"
  by (cases m; simp add: bytes_def is_space_def)+

text \<open>The six arguments, each on a line of its own.\<close>

definition client_file :: "byte list \<Rightarrow> 16 word \<Rightarrow> 16 word \<Rightarrow> byte list \<Rightarrow> int \<Rightarrow> mode \<Rightarrow> byte list" where
  "client_file ip server_port local_port name n m =
     concat (map (\<lambda>l. l @ [10])
       [ip, decimal (unat server_port), decimal (unat local_port), name, print_int n, mode_name m])"

text \<open>
  C29: the client reads back the arguments a file was written with; a name with white space in it
  cannot be given.
\<close>

theorem client_arguments_round_trip:
  assumes "ip \<noteq> []" "{c \<in> set ip. is_space c} = {}" "name \<noteq> []" "{c \<in> set name. is_space c} = {}"
    "- (2 ^ 31) \<le> n" "n < 2 ^ 31"
  shows "new_client_parser (Some (client_file ip server_port local_port name n m)) =
    \<lparr>server_ip = ip, server_port_no = Some server_port, local_port_no = Some local_port, requested_file = name,
     window_argument = Some n, mode_argument = mode_name m\<rparr>"
proof -
  have w: "\<forall>c \<in> set ip. \<not> is_space c" "\<forall>c \<in> set name. \<not> is_space c" using assms(2,4) by auto
  note words = string_word [OF assms(1) w(1)] string_word [OF assms(3) w(2)] string_word [OF mode_name_word]
    port_word number_word [OF assms(5), of "2 ^ 31 - 1"] next_item
  show ?thesis using assms(6)
    by (simp only: new_client_parser_def open_stream_def client_file_def option.case list.map concat.simps append.simps
        append_assoc append_Nil2 words Let_def prod.case)
qed

theorem client_arguments_round_trip_witness:
  "new_client_parser (Some (client_file [49] 8080 12345 [102] 20 GO_BACK_N)) =
    \<lparr>server_ip = [49], server_port_no = Some 8080, local_port_no = Some 12345, requested_file = [102],
     window_argument = Some 20, mode_argument = mode_name GO_BACK_N\<rparr>"
  by (rule client_arguments_round_trip) (auto simp: is_space_def)

text \<open>
  Without its argument file the client does not stop with a message: it binds to a port that
  was never assigned.
\<close>

theorem missing_argument_file:
  "client_main argc calls inet_addr can_create None =
    (if argc \<noteq> 2 \<or> \<not> socket_ok calls then Inl Exit_Failure else Inl Uninitialised)"
  by (simp add: client_main_def validate_args_def client_init_def new_client_parser_def open_stream_def
      extract_string_def extract_uint16_def extract_number_def skip_ws_def determinate_def Let_def)

end
