(* ===== verification/Dummy_Client.thy ===== *)
theory Dummy_Client
  imports Arguments
begin

text \<open>
  \<open>dummy_client.cpp\<close>: a program that sends one request and does not wait for an answer. It
  sends the bare name of a file, without the header of a packet.
\<close>

definition PORT :: "16 word" where "PORT = 8080"

definition init_request :: "byte list" where
  "init_request = bytes ''index_hotmail.html''"

text \<open>For the results of the system calls: the exit code and what has been sent where.\<close>

definition dummy_main :: "socket_calls \<Rightarrow> bool \<Rightarrow> (int \<times> (sockaddr_in \<times> byte list) list) res" where
  "dummy_main calls pton_ok =
     (if \<not> socket_ok calls then Inl Exit_Failure
      else if \<not> pton_ok then Inr (-1, [])
      else if \<not> bind_ok calls then Inl Exit_Failure
      else
        let servaddr = \<lparr>sin_family = AF_INET, sin_port = htons PORT, sin_addr = (0, 0, 0, 0)\<rparr>
        in Inr (0, [(servaddr, init_request)]))"

lemma request_bytes: "init_request = [105, 110, 100, 101, 120, 95, 104, 111] @ bytes ''tmail.html''"
  by (simp add: init_request_def bytes_def)

lemma request_length: "length init_request = 18"
  by (simp add: init_request_def bytes_def)

lemma request_header:
  "read_u16 init_request 4 = Inr 24440" "\<exists>n. read_u32 init_request 0 = Inr n" "\<exists>c. read_u16 init_request 6 = Inr c"
  by (simp_all add: request_bytes read_u16_def read_u32_def str_at_def)

lemma request_unpacked: "\<exists>p. unpack init_request blank_data_packet = Inr p \<and> data p = bytes ''tmail.html''"
proof -
  have "substr init_request 8 (to_size_t (int (unat (24440 :: 16 word)) - int HEADER_SIZE)) = Inr (bytes ''tmail.html'')"
    by (simp add: substr_def request_bytes HEADER_SIZE_def bytes_def)
  with request_header show ?thesis by (auto simp: unpack_def)
qed

lemma misread_request: "\<exists>p. data_packet_of_buffer (init_request @ r) 18 = Inr p \<and> data p = bytes ''tmail.html''"
proof -
  have "string_of_buffer (init_request @ r) (to_size_t 18) = Inr init_request"
    using request_length by (simp add: string_of_buffer_def)
  then show ?thesis using request_unpacked by (simp add: data_packet_of_buffer_def)
qed

text \<open>
  The server takes the first eight characters of the dummy client's request for a header, so
  the file it looks for is not the one that was asked for.
\<close>

theorem dummy_request_misread:
  assumes "registered_clients s (get_address_string a) = None"
  shows "\<exists>s'. server_receive (Some (a, init_request)) s = Inr s' \<and> main_place s' = M_Dispatch a (bytes ''tmail.html'')"
proof -
  have b: "take MAX_UDP_BUFFER_SIZE init_request = init_request"
    using request_length by (simp add: MAX_UDP_BUFFER_SIZE_def)
  obtain p where "data_packet_of_buffer (init_request @ drop 18 (buffer s)) 18 = Inr p" "data p = bytes ''tmail.html''"
    using misread_request by blast
  then show ?thesis using assms request_length
    by (simp add: server_receive_def recvfrom_def Let_def b)
qed

theorem dummy_request_misread_witness:
  "\<exists>s'. server_receive (Some (any_address, init_request)) (new_server 0 0 [100] []) = Inr s' \<and>
     main_place s' = M_Dispatch any_address (bytes ''tmail.html'')"
  by (rule dummy_request_misread) (simp add: new_server_def)

end
