(* ===== verification/Service_Go_Back_N.thy ===== *)
theory Service_Go_Back_N
  imports Service_Runs Service_Hosts Go_Back_N_Transfer
begin

text \<open>
  The service in the mode \<open>go_back_n\<close>. What the sessions of the other two modes promise does not
  hold here, since the server believes every acknowledgement and takes a repeated request for
  one; but its workers never send anything that is not a packet of the file, and the clients
  write only what comes next, so what a client has written stays a prefix of the file it asked
  for, whatever the acknowledgements and the names of the threads. The last section shows how the
  handshake and a repeated request lose a file.
\<close>

section \<open>The client\<close>

text \<open>
  A client that has written the first payloads, done or not: the handshake and the terminal packet
  make it done at any time.
\<close>

definition gbn_held :: "byte list list \<Rightarrow> client_strategy \<Rightarrow> bool" where
  "gbn_held ds c \<longleftrightarrow> (\<exists>e. gbn_inv ds e (c\<lparr>cl_done := False\<rparr>))"

text \<open>What can come from a server that sends the payloads \<open>ds\<close>, or is damaged on its way.\<close>

definition gbn_message :: "byte list list \<Rightarrow> byte list \<Rightarrow> bool" where
  "gbn_message ds x \<longleftrightarrow> (\<exists>i < length ds. x = wire (ds ! i) (of_nat i)) \<or> (\<exists>n. x = wire [] n)"

lemma gbn_accept_undone:
  "(gbn_accept p ok c)\<lparr>cl_done := False\<rparr> =
   (if data p = [] then c\<lparr>cl_done := False\<rparr> else (gbn_accept p ok (c\<lparr>cl_done := False\<rparr>))\<lparr>cl_done := False\<rparr>)"
  by (simp add: gbn_accept_def gbn_deliver_packet_def Let_def)

lemma gbn_run_held:
  assumes held: "gbn_held ds c" and x: "gbn_message ds x \<or> damaged x" and r: "gbn_client_run (Some x) c = Inr c'"
  shows "gbn_held ds c'"
proof -
  let ?c = "c\<lparr>cl_done := False\<rparr>"
  obtain e where inv: "gbn_inv ds e ?c" using held by (auto simp: gbn_held_def)
  have pay: "payloads_ok ds" using inv by (simp add: gbn_inv_def)
  have "\<exists>p. readable x p \<and> (data p = [] \<or> gbn_traffic ds x)"
  proof (cases "\<exists>n. x = wire [] n")
    case True
    then show ?thesis using readable_wire [of "[]"] by fastforce
  next
    case False
    then consider "gbn_traffic ds x" | "damaged x" using x by (auto simp: gbn_message_def gbn_traffic_def)
    then show ?thesis
    proof cases
      case 1
      then show ?thesis using traffic_packet [OF pay] by blast
    qed (auto simp: damaged_def readable_def gbn_traffic_def)
  qed
  then obtain p where p: "readable x p" "data p = [] \<or> gbn_traffic ds x" by blast
  let ?ok = "calculate_checksum p = Inr (cksum p)"
  have c': "c' = gbn_accept p ?ok c" using gbn_run_readable [OF p(1), of c] r by simp
  show ?thesis
  proof (cases "data p = []")
    case True
    then show ?thesis using inv c' by (auto simp: gbn_held_def gbn_accept_undone)
  next
    case False
    then obtain e' c1 where "gbn_client_run (Some x) ?c = Inr c1" "gbn_inv ds e' c1"
      using p(2) gbn_step [OF inv] by blast
    moreover from this have "c1\<lparr>cl_done := False\<rparr> = c1" by (cases c1) (simp add: gbn_inv_def)
    ultimately have "gbn_inv ds e' ((gbn_accept p ?ok ?c)\<lparr>cl_done := False\<rparr>)"
      using gbn_run_readable [OF p(1), of ?c] by simp
    then show ?thesis using False c' gbn_accept_undone [of p ?ok c] by (auto simp: gbn_held_def)
  qed
qed

lemma gbn_held_prefix: "gbn_held ds c \<Longrightarrow> prefix (cl_output c) (concat ds)"
  by (auto simp: gbn_held_def gbn_inv_def prefix_def)
     (metis append_take_drop_id concat_append)

section \<open>The workers\<close>

definition gbn_worker :: "byte list list \<Rightarrow> gbn_timer_pc \<Rightarrow> bool \<Rightarrow> rdt_strategy \<Rightarrow> bool" where
  "gbn_worker ds pc finished s \<longleftrightarrow>
     (\<exists>dd dw rest. if finished then gbn_threads ds dd dw rest pc s \<and> (\<forall>x \<in> set (sent s). gbn_message ds x)
        else gbn_server ds dd dw rest pc s)"

lemma gbn_server_messages:
  assumes "gbn_server ds dd dw rest pc s" "x \<in> set (sent s)"
  shows "gbn_message ds x"
proof -
  have "gbn_posted ds 0 (length dd + length dw) (sent s)" using assms(1) by (simp add: gbn_server_def gbn_running_def)
  moreover have "length dd + length dw \<le> length ds" using gbn_bound(1) [OF gbn_server_core [OF assms(1)]] by simp
  moreover obtain i where "i < length dd + length dw" "x = gbn_wire ds 0 i"
    using calculation(1) assms(2) by (auto simp: gbn_posted_def)
  ultimately have "i < length ds \<and> x = wire (ds ! i) (of_nat i)" by (simp add: gbn_wire_def)
  then show ?thesis unfolding gbn_message_def by blast
qed

lemma gbn_worker_messages: "gbn_worker ds pc finished s \<Longrightarrow> x \<in> set (sent s) \<Longrightarrow> gbn_message ds x"
  using gbn_server_messages by (auto simp: gbn_worker_def split: if_splits)

lemma gbn_worker_timer:
  assumes w: "gbn_worker ds pc finished s" and st: "gbn_timer_step pc s = Inr (pc', s')"
  shows "gbn_worker ds pc' finished s'"
proof (cases finished)
  case True
  then obtain dd dw rest where th: "gbn_threads ds dd dw rest pc s" and m: "\<forall>x \<in> set (sent s). gbn_message ds x"
    using w by (auto simp: gbn_worker_def)
  have core: "gbn_core ds 0 dd dw rest (s\<lparr>set_mutex := False\<rparr>)" using th by (simp add: gbn_threads_def)
  note f = gbn_timer_threads [OF th st]
  have log: "set (sent s') \<subseteq> set (sent s) \<union> gbn_wire ds 0 ` {..<length dd + length dw}"
    using f [THEN conjunct2, THEN conjunct2, THEN conjunct2, THEN conjunct2] by (elim disjE conjE exE) auto
  have th': "gbn_threads ds dd dw rest pc' s'" by (rule f [THEN conjunct1])
  have "gbn_message ds x" if "x \<in> set (sent s')" for x
  proof (cases "x \<in> set (sent s)")
    case False
    then have "x \<in> gbn_wire ds 0 ` {..<length dd + length dw}" using that log by (meson UnE subsetD)
    then obtain i where "i < length dd + length dw" "x = gbn_wire ds 0 i" by auto
    then have "i < length ds \<and> x = wire (ds ! i) (of_nat i)" using gbn_bound(1) [OF core] by (simp add: gbn_wire_def)
    then show ?thesis unfolding gbn_message_def by blast
  qed (use m in simp)
  then show ?thesis using True th' unfolding gbn_worker_def by (intro exI [of _ dd] exI [of _ dw] exI [of _ rest]) simp
next
  case False
  then obtain dd dw rest where "gbn_server ds dd dw rest pc s" using w by (auto simp: gbn_worker_def)
  from gbn_timer_server [OF this st] show ?thesis using False unfolding gbn_worker_def by auto
qed

lemma gbn_worker_acknowledge:
  assumes w: "gbn_worker ds pc False s" and st: "gbn_acknowledge_packet strict a s = Inr s'"
  shows "gbn_worker ds pc False s'"
proof -
  obtain dd dw rest where sv: "gbn_server ds dd dw rest pc s" using w by (auto simp: gbn_worker_def)
  have "\<exists>dd dw rest. gbn_server ds dd dw rest pc s'"
  proof (cases "set_mutex s")
    case True
    then show ?thesis using gbn_acknowledge_locked [OF True st] sv by blast
  next
    case False
    then have run: "gbn_running ds 0 dd dw rest s" by (rule gbn_server_free [OF sv])
    then have core: "gbn_core ds 0 dd dw rest s" by (simp add: gbn_running_def)
    show ?thesis
    proof (cases "\<exists>i < length dw. ackno a = of_nat (0 + length dd + i)")
      case True
      then obtain i where i: "i < length dw" "ackno a = of_nat (0 + length dd + i)" by blast
      then have "strict = False" using gbn_acknowledge_strict [OF core i] st by (cases strict) auto
      then show ?thesis using gbn_acknowledge_running [OF run i] st gbn_server_update [OF sv _ False] by fastforce
    next
      case False
      then show ?thesis using gbn_acknowledge_other [OF core, of a strict] st sv by auto
    qed
  qed
  then show ?thesis by (simp add: gbn_worker_def)
qed

text \<open>Of what the state of a sender is made up, its log apart.\<close>

definition same_sender :: "rdt_strategy \<Rightarrow> rdt_strategy \<Rightarrow> bool" where
  "same_sender s s' \<longleftrightarrow>
     mem s' = mem s \<and> window s' = window s \<and> pkt_builder s' = pkt_builder s \<and>
     next_seq_number s' = next_seq_number s \<and> set_mutex s' = set_mutex s \<and>
     unacked_packets s' = unacked_packets s \<and> (sender s' = sender s \<or> sender_ok (sender s'))"

lemma same_sender_core:
  assumes "same_sender s s'" "gbn_core ds 0 dd dw rest (s\<lparr>set_mutex := False\<rparr>)"
  shows "gbn_core ds 0 dd dw rest (s'\<lparr>set_mutex := False\<rparr>)"
proof -
  let ?s = "s\<lparr>set_mutex := False\<rparr>\<lparr>sender := sender s'\<rparr>"
  have "sender_ok (sender s')" using assms by (auto simp: same_sender_def gbn_core_def)
  then have "gbn_core ds 0 dd dw rest ?s" by (rule gbn_core_link [OF assms(2)])
  moreover have "gbn_core ds 0 dd dw rest (s'\<lparr>set_mutex := False\<rparr>) = gbn_core ds 0 dd dw rest ?s"
    by (rule gbn_core_cong) (use assms(1) in \<open>simp_all add: same_sender_def\<close>)
  ultimately show ?thesis by simp
qed

lemma same_sender_threads: "same_sender s s' \<Longrightarrow> gbn_threads ds dd dw rest pc s \<Longrightarrow> gbn_threads ds dd dw rest pc s'"
  using same_sender_core [of s s' ds dd dw rest] by (simp add: gbn_threads_def same_sender_def)

lemma same_sender_server:
  "same_sender s s' \<Longrightarrow> sent s' = sent s \<Longrightarrow> gbn_server ds dd dw rest pc s \<Longrightarrow> gbn_server ds dd dw rest pc s'"
  using same_sender_core [of s s' ds dd dw rest] same_sender_threads [of s s' ds dd dw rest pc]
  by (simp add: gbn_server_def gbn_running_def acked_at_def same_sender_def)

lemma gbn_worker_same:
  assumes w: "gbn_worker ds pc finished s" and same: "same_sender s s'"
  shows "sent s' = sent s \<Longrightarrow> gbn_worker ds pc finished s'"
    and "sent s' = sent s @ [wire [] n] \<Longrightarrow> gbn_worker ds pc True s'"
proof -
  obtain dd dw rest where d: "if finished then gbn_threads ds dd dw rest pc s \<and> (\<forall>x \<in> set (sent s). gbn_message ds x)
      else gbn_server ds dd dw rest pc s" using w unfolding gbn_worker_def by blast
  then have th: "gbn_threads ds dd dw rest pc s'"
    using same_sender_threads [OF same] by (auto simp: gbn_server_def split: if_splits)
  show "gbn_worker ds pc finished s'" if "sent s' = sent s"
    using d th that same_sender_server [OF same that] unfolding gbn_worker_def by (intro exI) (auto split: if_splits)
  assume "sent s' = sent s @ [wire [] n]"
  then have "\<forall>x \<in> set (sent s'). gbn_message ds x"
    using gbn_worker_messages [OF w] by (auto simp: gbn_message_def)
  then show "gbn_worker ds pc True s'" using th unfolding gbn_worker_def by auto
qed

lemma gbn_worker_link: "gbn_worker ds pc finished s \<Longrightarrow> sender_ok l \<Longrightarrow> gbn_worker ds pc finished (s\<lparr>sender := l\<rparr>)"
  by (rule gbn_worker_same(1)) (simp_all add: same_sender_def)

lemma gbn_worker_sender: "gbn_worker ds pc finished s \<Longrightarrow> sender_ok (sender s)"
  by (auto simp: gbn_worker_def gbn_server_def gbn_threads_def gbn_core_def split: if_splits)

section \<open>The server\<close>

definition gbn_serves :: "config \<Rightarrow> bool" where
  "gbn_serves cfg \<longleftrightarrow> server_mode cfg = GO_BACK_N \<and> length (working_directory cfg) < 200 \<and>
     fst (indeterminate cfg) = 0 \<and>
     (\<forall>contents \<in> ran (file_system cfg). length (chunks contents) < 2 ^ 32 - 1)"

definition gbn_worker_ok :: "config \<Rightarrow> packet_sender \<Rightarrow> worker \<Rightarrow> bool" where
  "gbn_worker_ok cfg l wk \<longleftrightarrow>
     (case rdt wk of
        None \<Rightarrow> place wk = K_Start
      | Some r \<Rightarrow> place wk \<noteq> K_Start \<and>
          (\<exists>contents pc. file_of cfg (file_path wk) = Some contents \<and> timer_place wk = GBN_Timer pc \<and>
             gbn_worker (chunks contents) pc (place wk = K_Finalize \<or> place wk = K_Ended) (r\<lparr>sender := l\<rparr>)))"

definition gbn_server_inv :: "config \<Rightarrow> server_state \<Rightarrow> bool" where
  "gbn_server_inv cfg s \<longleftrightarrow> sender_ok (link s) \<and> (\<forall>wk \<in> set (workers s). gbn_worker_ok cfg (link s) wk)"

lemma gbn_worker_ok_link:
  assumes wk: "gbn_worker_ok cfg l wk" and l: "sender_ok l'"
  shows "gbn_worker_ok cfg l' wk"
proof (cases "rdt wk")
  case (Some r)
  then have "place wk \<noteq> K_Start \<and> (\<exists>contents pc. file_of cfg (file_path wk) = Some contents \<and>
      timer_place wk = GBN_Timer pc \<and>
      gbn_worker (chunks contents) pc (place wk = K_Finalize \<or> place wk = K_Ended) (r\<lparr>sender := l\<rparr>))"
    using wk by (simp add: gbn_worker_ok_def)
  then obtain contents pc where c: "place wk \<noteq> K_Start" "file_of cfg (file_path wk) = Some contents"
    "timer_place wk = GBN_Timer pc"
    "gbn_worker (chunks contents) pc (place wk = K_Finalize \<or> place wk = K_Ended) (r\<lparr>sender := l\<rparr>)"
    by (elim conjE exE)
  have "gbn_worker (chunks contents) pc (place wk = K_Finalize \<or> place wk = K_Ended) (r\<lparr>sender := l\<rparr>\<lparr>sender := l'\<rparr>)"
    by (rule gbn_worker_link [OF c(4) l])
  then show ?thesis using Some c(1-3) by (simp add: gbn_worker_ok_def)
qed (use wk in \<open>simp add: gbn_worker_ok_def\<close>)

lemma gbn_change:
  assumes inv: "gbn_server_inv cfg s" and s': "workers s' = (workers s)[k := wk']" "sender_ok (link s')"
    and wk': "gbn_worker_ok cfg (link s') wk'"
  shows "gbn_server_inv cfg s'"
proof -
  have "gbn_worker_ok cfg (link s') v" if "v \<in> set (workers s')" for v
  proof (cases "v = wk'")
    case False
    then have "v \<in> set (workers s)" using that set_update_subset_insert [of "workers s" k wk'] by (auto simp: s'(1))
    then have "gbn_worker_ok cfg (link s) v" using inv by (simp add: gbn_server_inv_def)
    then show ?thesis by (rule gbn_worker_ok_link [OF _ s'(2)])
  qed (use wk' in simp)
  then show ?thesis using s'(2) by (simp add: gbn_server_inv_def)
qed

lemma gbn_same_worker:
  "gbn_server_inv cfg s \<Longrightarrow> k < length (workers s) \<Longrightarrow> workers s' = workers s \<Longrightarrow> link s' = link s \<Longrightarrow> gbn_server_inv cfg s'"
  by (simp add: gbn_server_inv_def)

text \<open>A worker whose strategy has run an operation, with the link.\<close>

lemma gbn_strategy_change:
  assumes inv: "gbn_server_inv cfg s" and k: "k < length (workers s)"
    and f: "file_of cfg (file_path (workers s ! k)) = Some contents"
    and r: "gbn_worker (chunks contents) pc (p = K_Finalize \<or> p = K_Ended) r" and p: "p \<noteq> K_Start"
  shows "gbn_server_inv cfg (set_worker k ((workers s ! k)\<lparr>rdt := Some r, timer_place := GBN_Timer pc, place := p\<rparr>)
    (s\<lparr>link := sender r\<rparr>))"
  by (rule gbn_change [OF inv, where k = k])
     (use f r p gbn_worker_sender [OF r] in \<open>auto simp: set_worker_def gbn_worker_ok_def\<close>)

lemma gbn_running_worker:
  assumes inv: "gbn_server_inv cfg s" and k: "k < length (workers s)" and r: "rdt (workers s ! k) = Some r"
  obtains contents pc where "file_of cfg (file_path (workers s ! k)) = Some contents"
    "timer_place (workers s ! k) = GBN_Timer pc" "place (workers s ! k) \<noteq> K_Start"
    "gbn_worker (chunks contents) pc (place (workers s ! k) = K_Finalize \<or> place (workers s ! k) = K_Ended)
       (r\<lparr>sender := link s\<rparr>)"
proof -
  have "gbn_worker_ok cfg (link s) (workers s ! k)" using inv k by (simp add: gbn_server_inv_def)
  then show ?thesis using r that by (auto simp: gbn_worker_ok_def)
qed

lemma gbn_start_worker:
  assumes cfg: "gbn_serves cfg" and l: "sender_ok l" and n: "new_strategy cfg path l = Inr (m, r)"
    and st: "start_strategy GO_BACK_N (r\<lparr>sender := l\<rparr>) = Inr r'"
  obtains contents where "file_of cfg path = Some contents" "gbn_worker (chunks contents) G_Loop False r'"
proof -
  obtain mx thr where i: "indeterminate cfg = (0, mx, thr)" using cfg by (cases "indeterminate cfg") (auto simp: gbn_serves_def)
  then have n: "new_go_back_N 0 mx thr (working_directory cfg) (file_system cfg) path l (clock_source cfg) = Inr r"
    using n cfg by (auto simp: new_strategy_def gbn_serves_def rbind_Inr_iff)
  then obtain b where b: "fill_window (base_strategy b l (clock_source cfg) 0 DEFAULT_WINDOW_SIZE mx thr) = Inr r"
    by (auto simp: new_go_back_N_def rbind_Inr_iff)
  then have "sender r = l" using fill_window_frame [OF b] by (simp add: base_strategy_def)
  then have "r\<lparr>sender := l\<rparr> = r" by (cases r) simp
  then have run: "rbind (new_go_back_N (of_nat 0) mx thr (working_directory cfg) (file_system cfg) path l (clock_source cfg))
      gbn_start = Inr r'" using n st by (simp add: start_strategy_def)
  obtain contents where f: "file_of cfg path = Some contents"
    using n cfg by (cases "file_of cfg path")
      (auto simp: new_go_back_N_def new_packet_builder_def get_absolute_path_def file_of_def gbn_serves_def rbind_Inr_iff)
  then have "contents \<in> ran (file_system cfg)" by (auto simp: file_of_def ran_def)
  then have s: "length (chunks contents) < 2 ^ 32 - 1" using cfg by (simp add: gbn_serves_def)
  then have u: "usable (working_directory cfg) (file_system cfg) path 1 l"
    using cfg f l by (simp add: usable_def gbn_serves_def file_of_def)
  obtain dw rest where "gbn_running (chunks contents) 0 [] dw rest r'"
    using gbn_initial_running [OF u f [unfolded file_of_def], of 0 mx thr "clock_source cfg"] run s by auto
  moreover from this have "\<not> set_mutex r'" by (simp add: gbn_running_def gbn_core_def)
  ultimately have "gbn_server (chunks contents) [] dw rest G_Loop r'"
    by (simp add: gbn_server_def gbn_threads_def gbn_running_def set_mutex_False gbn_timed_def)
  then show ?thesis using f by (intro that) (auto simp: gbn_worker_def)
qed

lemma gbn_worker_step:
  assumes cfg: "gbn_serves cfg" and inv: "gbn_server_inv cfg s" and k: "k < length (workers s)"
    and st: "worker_step cfg k s = Inr s'"
  shows "gbn_server_inv cfg s'"
proof -
  let ?w = "workers s ! k"
  have mode: "server_mode cfg = GO_BACK_N" and l: "sender_ok (link s)" and wk: "gbn_worker_ok cfg (link s) ?w"
    using cfg inv k by (simp_all add: gbn_serves_def gbn_server_inv_def)
  have op: "gbn_server_inv cfg s'"
    if on: "on_strategy k operation p s = Inr s'" and p: "p \<noteq> K_Start"
      and ok: "\<And>ds pc r r'. gbn_worker ds pc (place ?w = K_Finalize \<or> place ?w = K_Ended) r \<Longrightarrow> operation r = Inr r' \<Longrightarrow>
        gbn_worker ds pc (p = K_Finalize \<or> p = K_Ended) r'" for operation p
  proof -
    obtain r r' where r: "rdt ?w = Some r" "operation (r\<lparr>sender := link s\<rparr>) = Inr r'"
      "s' = set_worker k (?w\<lparr>rdt := Some r', place := p\<rparr>) (s\<lparr>link := sender r'\<rparr>)" by (rule on_strategyE [OF on])
    obtain contents pc where c: "file_of cfg (file_path ?w) = Some contents" "timer_place ?w = GBN_Timer pc"
      "gbn_worker (chunks contents) pc (place ?w = K_Finalize \<or> place ?w = K_Ended) (r\<lparr>sender := link s\<rparr>)"
      by (rule gbn_running_worker [OF inv k r(1)])
    have "?w\<lparr>rdt := Some r', timer_place := GBN_Timer pc, place := p\<rparr> = ?w\<lparr>rdt := Some r', place := p\<rparr>"
      using c(2) by (cases ?w) simp
    with gbn_strategy_change [OF inv k c(1) ok [OF c(3) r(2)] p] r(3) show ?thesis by simp
  qed
  show ?thesis
  proof (cases "place ?w")
    case K_Start
    obtain r r' where n: "new_strategy cfg (file_path ?w) (link s) = Inr (GO_BACK_N, r)"
      and r': "start_strategy GO_BACK_N (r\<lparr>sender := link s\<rparr>) = Inr r'"
      "s' = set_worker k (?w\<lparr>rdt := Some r', timer_place := GBN_Timer G_Loop, place := K_Check\<rparr>) (s\<lparr>link := sender r'\<rparr>)"
      by (rule worker_startE [OF st K_Start k]) (use new_strategy_class mode in \<open>fastforce simp: timer_start_def\<close>)
    obtain contents where c: "file_of cfg (file_path ?w) = Some contents" "gbn_worker (chunks contents) G_Loop False r'"
      by (rule gbn_start_worker [OF cfg l n r'(1)])
    with gbn_strategy_change [OF inv k c(1), where p = K_Check and r = r' and pc = G_Loop] r'(2) show ?thesis by simp
  next
    case K_Check
    then obtain r where r: "rdt ?w = Some r" using wk by (auto simp: gbn_worker_ok_def split: option.splits)
    obtain d r' where d: "is_done r = (d, r')" by fastforce
    have s': "s' = set_worker k (?w\<lparr>rdt := Some r', place := if d then K_Finish else K_Wait\<rparr>) s"
      using st K_Check r d by (simp add: worker_step_def Let_def)
    obtain contents pc where c: "file_of cfg (file_path ?w) = Some contents" "timer_place ?w = GBN_Timer pc"
      "gbn_worker (chunks contents) pc (place ?w = K_Finalize \<or> place ?w = K_Ended) (r\<lparr>sender := link s\<rparr>)"
      by (rule gbn_running_worker [OF inv k r])
    have "gbn_worker (chunks contents) pc False (r'\<lparr>sender := link s\<rparr>)"
      using gbn_worker_same(1) [OF c(3), of "r'\<lparr>sender := link s\<rparr>"] d K_Check
      by (auto simp: is_done_def now_def same_sender_def Let_def split: if_splits)
    then have "gbn_worker_ok cfg (link s') (?w\<lparr>rdt := Some r', place := if d then K_Finish else K_Wait\<rparr>)"
      using c(1,2) by (auto simp: gbn_worker_ok_def s' set_worker_def)
    then show ?thesis by (rule gbn_change [OF inv, where k = k, rotated 2]) (simp_all add: s' set_worker_def l)
  next
    case K_Wait
    obtain q m where q: "index_map [] (thread ?w) (worker_threads_acks s) = (q, m)" by fastforce
    show ?thesis
    proof (cases q)
      case Nil
      then have "s' = s\<lparr>worker_threads_acks := m\<rparr>" using st K_Wait q by (simp add: worker_step_def Let_def)
      then show ?thesis using inv by (simp add: gbn_server_inv_def)
    next
      case (Cons a q')
      then have s': "s' = set_worker k (?w\<lparr>place := K_Acknowledge a\<rparr>)
          (s\<lparr>worker_threads_acks := m(thread ?w \<mapsto> q')\<rparr>)" using st K_Wait q by (simp add: worker_step_def Let_def)
      have "gbn_worker_ok cfg (link s) (?w\<lparr>place := K_Acknowledge a\<rparr>)"
        using wk K_Wait by (auto simp: gbn_worker_ok_def split: option.splits)
      then show ?thesis
        by (intro gbn_change [OF inv, of s' k "?w\<lparr>place := K_Acknowledge a\<rparr>"]) (simp_all add: s' set_worker_def l)
    qed
  next
    case (K_Acknowledge a)
    have tc: "timer_class (timer_place ?w) = GO_BACK_N"
      using wk K_Acknowledge by (auto simp: gbn_worker_ok_def split: option.splits)
    show ?thesis
    proof (rule op)
      show "on_strategy k (acknowledge cfg GO_BACK_N a) K_Check s = Inr s'"
        using st K_Acknowledge tc by (simp add: worker_step_def Let_def)
      show "gbn_worker ds pc (K_Check = K_Finalize \<or> K_Check = K_Ended) r'"
        if "gbn_worker ds pc (place ?w = K_Finalize \<or> place ?w = K_Ended) r" "acknowledge cfg GO_BACK_N a r = Inr r'" for ds pc r r'
        using that K_Acknowledge mode gbn_worker_acknowledge [of ds pc r "checked_iterators cfg" a r']
        by (simp add: acknowledge_def)
    qed simp
  next
    case K_Finish
    show ?thesis
    proof (rule op)
      show "on_strategy k send_empty_packet K_Finalize s = Inr s'"
        using st K_Finish by (simp add: worker_step_def Let_def)
      show "gbn_worker ds pc (K_Finalize = K_Finalize \<or> K_Finalize = K_Ended) r'"
        if "gbn_worker ds pc (place ?w = K_Finalize \<or> place ?w = K_Ended) r" "send_empty_packet r = Inr r'" for ds pc r r'
        using that(2) gbn_worker_same(2) [OF that(1), of r' "next_seq_number r"]
        by (auto simp: send_empty_packet_def pack_mk_packet same_sender_def)
    qed simp
  next
    case K_Finalize
    then obtain m where s': "s' = set_worker k (?w\<lparr>place := K_Ended\<rparr>) (s\<lparr>working_threads := m\<rparr>)"
      using st by (auto simp: worker_step_def Let_def finalize_worker_thread_def rbind_Inr_iff split: prod.splits option.splits)
    have "gbn_worker_ok cfg (link s) (?w\<lparr>place := K_Ended\<rparr>)"
      using wk K_Finalize by (auto simp: gbn_worker_ok_def split: option.splits)
    then show ?thesis
      by (intro gbn_change [OF inv, of s' k "?w\<lparr>place := K_Ended\<rparr>"]) (simp_all add: s' set_worker_def l)
  next
    case K_Ended
    then show ?thesis using st inv by (simp add: worker_step_def Let_def)
  qed
qed

lemma gbn_timer_step:
  assumes inv: "gbn_server_inv cfg s" and k: "k < length (workers s)" and st: "timer_step k s = Inr s'"
  shows "gbn_server_inv cfg s'"
proof (cases "\<exists>r. rdt (workers s ! k) = Some r \<and> timer r")
  case True
  let ?w = "workers s ! k"
  obtain r where r: "rdt ?w = Some r" "timer r" using True by blast
  obtain contents pc where c: "file_of cfg (file_path ?w) = Some contents" "timer_place ?w = GBN_Timer pc"
    "place ?w \<noteq> K_Start" "gbn_worker (chunks contents) pc (place ?w = K_Finalize \<or> place ?w = K_Ended) (r\<lparr>sender := link s\<rparr>)"
    by (rule gbn_running_worker [OF inv k r(1)])
  obtain pc' r' where t: "gbn_timer_step pc (r\<lparr>sender := link s\<rparr>) = Inr (pc', r')"
    "s' = set_worker k (?w\<lparr>rdt := Some r', timer_place := GBN_Timer pc'\<rparr>) (s\<lparr>link := sender r'\<rparr>)"
    using st r c(2) by (auto simp: timer_step_def Let_def rbind_Inr_iff)
  have "?w\<lparr>rdt := Some r', timer_place := GBN_Timer pc', place := place ?w\<rparr> = ?w\<lparr>rdt := Some r', timer_place := GBN_Timer pc'\<rparr>"
    by (cases ?w) simp
  with gbn_strategy_change [OF inv k c(1) gbn_worker_timer [OF c(4) t(1)] c(3)] t(2) show ?thesis by simp
next
  case False
  then have "s' = s" using st by (auto simp: timer_step_def Let_def split: option.splits if_splits)
  then show ?thesis using inv by simp
qed

lemma gbn_server_step:
  assumes cfg: "gbn_serves cfg" and inv: "gbn_server_inv cfg s" and st: "server_step cfg reuse arrives s s'"
  shows "gbn_server_inv cfg s'"
  using st
proof cases
  case (main_receives a d)
  then have "link s' = link s" "workers s' = workers s" by (auto elim!: server_receive_cases)
  then show ?thesis using inv by (simp add: gbn_server_inv_def)
next
  case (main_continues pc tid)
  have mode: "server_mode cfg = GO_BACK_N" using cfg by (simp add: gbn_serves_def)
  have l: "link s' = link s" using main_continues(1) by (cases pc) (auto simp: Let_def split: prod.splits)
  have "workers s' = workers s \<or> (\<exists>wk. workers s' = workers s @ [wk] \<and> gbn_worker_ok cfg l wk)" for l
    using main_continues(1) mode
    by (cases pc) (auto simp: gbn_worker_ok_def timer_start_def Let_def split: prod.splits)
  then show ?thesis using inv l unfolding gbn_server_inv_def by fastforce
next
  case (worker_steps k)
  then show ?thesis using gbn_worker_step [OF cfg inv] by blast
next
  case (timer_steps k)
  then show ?thesis using gbn_timer_step [OF inv] by blast
qed

section \<open>The service\<close>

text \<open>The payloads of the file a client asks for; none, if there is no such file.\<close>

definition wanted_payloads :: "config \<Rightarrow> client_config \<Rightarrow> byte list list" where
  "wanted_payloads cfg c = (case file_of cfg (req_file_name c) of None \<Rightarrow> [] | Some contents \<Rightarrow> chunks contents)"

definition gbn_service_inv :: "config \<Rightarrow> (sockaddr_in \<Rightarrow> client_config) \<Rightarrow> service \<Rightarrow> bool" where
  "gbn_service_inv cfg ccfg w \<longleftrightarrow>
     hosts_inv ccfg w \<and> gbn_server_inv cfg (srv w) \<and>
     (\<forall>a. gbn_held (wanted_payloads cfg (ccfg a)) (strategy_of ccfg w a))"

lemma gbn_from_server:
  assumes inv: "gbn_service_inv cfg ccfg w" and x: "from_server w a x"
  shows "gbn_message (wanted_payloads cfg (ccfg a)) x"
proof -
  have h: "greeting_inv (srv w)" "requests_ok ccfg w" and s: "gbn_server_inv cfg (srv w)"
    using inv by (simp_all add: gbn_service_inv_def hosts_inv_def)
  consider (handshake) "(a, x) \<in> set (handshakes (srv w))"
    | (worker) wk r where "wk \<in> set (workers (srv w))" "peer wk = a" "rdt wk = Some r" "x \<in> set (sent r)"
    using x by (auto simp: from_server_def split: option.splits)
  then show ?thesis
  proof cases
    case handshake
    then have "x = wire [] 0" using h(1) by (force simp: greeting_inv_def ack_wire_eq)
    then show ?thesis unfolding gbn_message_def by blast
  next
    case worker
    then obtain k where k: "k < length (workers (srv w))" "workers (srv w) ! k = wk" by (auto simp: in_set_conv_nth)
    obtain contents pc where c: "file_of cfg (file_path wk) = Some contents"
      "gbn_worker (chunks contents) pc (place wk = K_Finalize \<or> place wk = K_Ended) (r\<lparr>sender := link (srv w)\<rparr>)"
      using gbn_running_worker [OF s k(1)] worker(3) k(2) by metis
    have "file_path wk = req_file_name (ccfg a)" using h(2) worker(1,2) by (auto simp: requests_ok_def)
    then have "wanted_payloads cfg (ccfg a) = chunks contents" using c(1) by (simp add: wanted_payloads_def)
    then show ?thesis using gbn_worker_messages [OF c(2)] worker(4) by simp
  qed
qed

lemma gbn_service_start:
  assumes cfg: "gbn_serves cfg" and fit: "\<And>a. fits cfg (ccfg a)" and st: "service_start w"
  shows "gbn_service_inv cfg ccfg w"
proof -
  have w: "hosts w = Map.empty" "workers (srv w) = []" "sender_ok (link (srv w))"
    using st by (auto simp: service_start_def new_server_def)
  have "gbn_held (wanted_payloads cfg (ccfg a)) (new_client_strategy (ccfg a))" for a
  proof -
    have "payloads_ok (wanted_payloads cfg (ccfg a))"
    proof (cases "file_of cfg (req_file_name (ccfg a))")
      case (Some contents)
      then have "contents \<in> ran (file_system cfg)" by (auto simp: file_of_def ran_def)
      then show ?thesis using Some cfg chunks_bounds [of _ contents]
        by (auto simp: wanted_payloads_def payloads_ok_def gbn_serves_def)
    qed (simp add: wanted_payloads_def payloads_ok_def)
    moreover have "new_client_strategy (ccfg a) =
        new_client_go_back_N (default_window_size (ccfg a)) (fw_open True (req_file_name (ccfg a)) new_file_writer)"
      using fit [of a] cfg by (simp add: new_client_strategy_def fits_def gbn_serves_def)
    ultimately have "gbn_inv (wanted_payloads cfg (ccfg a)) 0 (new_client_strategy (ccfg a))"
      using gbn_initial [of _ new_file_writer] by (simp add: new_file_writer_def)
    moreover from this have "(new_client_strategy (ccfg a))\<lparr>cl_done := False\<rparr> = new_client_strategy (ccfg a)"
      by (cases "new_client_strategy (ccfg a)") (simp add: gbn_inv_def)
    ultimately show ?thesis by (auto simp: gbn_held_def)
  qed
  then show ?thesis using start_hosts [OF st] w by (simp add: gbn_service_inv_def gbn_server_inv_def strategy_of_def)
qed

lemma gbn_client_step:
  assumes cfg: "gbn_serves cfg" and fit: "\<And>a. fits cfg (ccfg a)" and inv: "gbn_service_inv cfg ccfg w"
    and h: "hosts w a = Some h" and st: "client_step (ccfg a) e h = Inr h'"
    and x: "\<And>x. e = Received x \<Longrightarrow> \<exists>y. x = Some y \<and> (from_server w a y \<or> damaged y)"
  shows "gbn_held (wanted_payloads cfg (ccfg a)) (strategy_at (ccfg a) (client_at h'))"
proof -
  let ?c = "strategy_of ccfg w a" and ?ds = "wanted_payloads cfg (ccfg a)"
  have held: "gbn_held ?ds ?c" and "host_ok (ccfg a) h"
    using inv h by (simp_all add: gbn_service_inv_def hosts_inv_def hosts_ok_def)
  from client_step_cases [OF fit this(2) st]
  have c: "strategy_at (ccfg a) (client_at h') = ?c \<or>
      (\<exists>x. e = Received x \<and> run_client (client_mode (ccfg a)) x ?c = Inr (strategy_at (ccfg a) (client_at h')))"
    by (simp add: strategy_of_def h)
  have m: "client_mode (ccfg a) = GO_BACK_N" using fit [of a] cfg by (simp add: fits_def gbn_serves_def)
  show ?thesis
  proof (cases "strategy_at (ccfg a) (client_at h') = ?c")
    case False
    then obtain z where z: "e = Received z" "gbn_client_run z ?c = Inr (strategy_at (ccfg a) (client_at h'))"
      using c m by (auto simp: run_client_def)
    obtain y where y: "z = Some y" "from_server w a y \<or> damaged y" using x [OF z(1)] by blast
    then have "gbn_message ?ds y \<or> damaged y" using gbn_from_server [OF inv] by blast
    from gbn_run_held [OF held this] show ?thesis using z(2) y(1) by simp
  qed (use held in simp)
qed

lemma gbn_service_step:
  assumes cfg: "gbn_serves cfg" and fit: "\<And>a. fits cfg (ccfg a)" and inv: "gbn_service_inv cfg ccfg w"
    and st: "service_step cfg reuse ccfg w w'"
  shows "gbn_service_inv cfg ccfg w'"
proof -
  have ho: "hosts_inv ccfg w'" using step_keeps_hosts [OF fit _ st] inv by (simp add: gbn_service_inv_def)
  have host: "gbn_service_inv cfg ccfg w'"
    if "w' = w\<lparr>hosts := (hosts w)(a \<mapsto> h')\<rparr>" "gbn_held (wanted_payloads cfg (ccfg a)) (strategy_at (ccfg a) (client_at h'))" for a h'
    using ho inv that by (auto simp: gbn_service_inv_def strategy_of_def)
  from st show ?thesis
  proof (cases rule: service_step.cases)
    case (host_begins a h)
    have "gbn_held (wanted_payloads cfg (ccfg a)) (strategy_of ccfg w a)" using inv by (simp add: gbn_service_inv_def)
    then have "gbn_held (wanted_payloads cfg (ccfg a)) (strategy_at (ccfg a) (client_at h))"
      using host_begins(2) client_begin_ok(2) [OF fit host_begins(4)] by (simp add: strategy_of_def)
    then show ?thesis by (rule host [OF host_begins(1)])
  next
    case (host_selects a h r h')
    show ?thesis by (rule host [OF host_selects(1)], rule gbn_client_step [OF cfg fit inv host_selects(2,4)]) simp
  next
    case (host_receives a h x h')
    show ?thesis
      by (rule host [OF host_receives(1)], rule gbn_client_step [OF cfg fit inv host_receives(2,4)])
         (use host_receives(3) in auto)
  next
    case (server_acts s')
    then show ?thesis using ho inv gbn_server_step [OF cfg _ server_acts(2)]
      by (simp add: gbn_service_inv_def strategy_of_def)
  qed
qed

lemma gbn_reachable:
  assumes "gbn_serves cfg" "\<And>b. fits cfg (ccfg b)" "service_reachable cfg reuse ccfg w"
  shows "gbn_service_inv cfg ccfg w"
proof -
  have "reachable service_start (service_step cfg reuse ccfg) w" using assms(3) by (simp add: service_reachable_def)
  then show ?thesis
    by (induction rule: reachable.induct) (use gbn_service_start gbn_service_step assms(1,2) in blast)+
qed

text \<open>
  C8: with go-back-N, what a client has written is a prefix of the file it asked for, whatever the
  network, the acknowledgements (of whichever client, truthful or not), the scheduler and the
  names of the threads.
\<close>

theorem service_go_back_N_prefix:
  assumes "gbn_serves cfg" "\<And>b. fits cfg (ccfg b)" "service_reachable cfg reuse ccfg w" "hosts w a = Some h"
  shows "prefix (host_file (ccfg a) h) (case file_of cfg (req_file_name (ccfg a)) of None \<Rightarrow> [] | Some contents \<Rightarrow> contents)"
proof -
  have inv: "gbn_service_inv cfg ccfg w" by (rule gbn_reachable [OF assms(1-3)])
  then have "host_file (ccfg a) h = cl_output (strategy_of ccfg w a)"
    using assms(2,4) by (intro host_file_output) (auto simp: gbn_service_inv_def hosts_inv_def hosts_ok_def)
  moreover have "prefix (cl_output (strategy_of ccfg w a)) (concat (wanted_payloads cfg (ccfg a)))"
    using inv by (intro gbn_held_prefix) (simp add: gbn_service_inv_def)
  ultimately show ?thesis by (simp add: wanted_payloads_def concat_chunks split: option.splits)
qed

lemmas gbn_run_defs =
  new_go_back_N_def DEFAULT_WINDOW_SIZE_def gbn_start_def gbn_send_packet_def gbn_stamp_def
  new_client_go_back_N_def gbn_client_run_def gbn_deliver_packet_def send_ack_eq

lemma gbn_run:
  "\<exists>w h c. example_state GO_BACK_N False [104, 105]
      (asks 1 7 @ [Main 99, Main 99, Worker 0, Selects (example_host 1) (Readable (example_host 0)),
        Receives (example_host 1) (wire [104, 105] 0)]) = Some w \<and>
    hosts w (example_host 1) = Some h \<and> client_at h = C_Receiving c \<and> files (writer c) [102] = Some [104, 105]"
  by (simp add: run_defs gbn_run_defs cong: rbind_weak_cong bind_weak_cong)

lemma example_gbn_serves: "gbn_serves (example_config GO_BACK_N [104, 105])"
  by (simp add: gbn_serves_def example_config_def length_chunks)

theorem service_go_back_N_prefix_witness:
  "\<exists>w h. service_reachable (example_config GO_BACK_N [104, 105]) False (example_clients GO_BACK_N) w \<and>
     hosts w (example_host 1) = Some h \<and> host_file (example_clients GO_BACK_N (example_host 1)) h = [104, 105] \<and>
     prefix (host_file (example_clients GO_BACK_N (example_host 1)) h) [104, 105]"
proof -
  obtain w h c where w: "service_reachable (example_config GO_BACK_N [104, 105]) False (example_clients GO_BACK_N) w"
    "hosts w (example_host 1) = Some h" "client_at h = C_Receiving c" "files (writer c) [102] = Some [104, 105]"
    using gbn_run example_reachable by blast
  from service_go_back_N_prefix [OF example_gbn_serves example_fits w(1,2)] w show ?thesis
    by (auto simp: host_file_def example_clients_def example_request_def)
qed

section \<open>Files that are lost\<close>

text \<open>A client that has received nothing has written nothing, whatever else it knows.\<close>

lemma nothing_received:
  assumes inv: "gbn_service_inv cfg ccfg w" and fit: "fits cfg (ccfg a)" and h: "hosts w a = Some h" "client_at h = C_Receiving c"
    and e: "expected_seqno c = 0"
  shows "files (writer c) (req_file_name (ccfg a)) \<in> {None, Some []}"
proof -
  have held: "gbn_held (wanted_payloads cfg (ccfg a)) c" and ok: "host_ok (ccfg a) h"
    using inv h by (auto simp: gbn_service_inv_def hosts_inv_def hosts_ok_def strategy_of_def dest: spec [of _ a])
  obtain i where i: "gbn_inv (wanted_payloads cfg (ccfg a)) i (c\<lparr>cl_done := False\<rparr>)" using held by (auto simp: gbn_held_def)
  then have "of_nat i = (0 :: 32 word)" "i < 2 ^ 32" using e by (auto simp: gbn_inv_def payloads_ok_def)
  then have "i = 0" using unat_of_nat_32 [of i] by simp
  then have "cl_output c = []" using i by (simp add: gbn_inv_def)
  moreover have "file_stream (writer c) = Some (req_file_name (ccfg a))" using ok h by (simp add: host_ok_def)
  ultimately show ?thesis by (auto simp: cl_output_def split: option.splits)
qed

text \<open>
  The empty packet ends the file wherever its number is in the window, and the loop of the client
  then closes the file without receiving another datagram.
\<close>

lemma empty_packet_closes:
  assumes h: "hosts w a = Some h" "client_at h = C_Receiving c" "\<not> cl_done c"
    and m: "client_mode (ccfg a) = GO_BACK_N" and x: "from_server w a (wire [] n)"
    and n: "expected_seqno c \<le> n" "n < expected_seqno c + word_of_int (cl_window_size c)"
  shows "run_events cfg reuse ccfg [Receives a (wire [] n), Receives a (wire [] n)] w =
    Some (w\<lparr>hosts := (hosts w)(a \<mapsto> h\<lparr>client_at := C_Closed (c\<lparr>cl_done := True, writer := fw_close (writer c)\<rparr>)\<rparr>)\<rparr>)"
proof -
  have run: "gbn_client_run (Some (wire [] n)) c = Inr (c\<lparr>cl_done := True\<rparr>)"
    using n read_short_wires(1) [of n] by (simp add: gbn_client_run_def recvfrom_def MAX_PKT_SIZE_def is_terminal_pkt_def)
  have x': "from_server (w\<lparr>hosts := z\<rparr>) a (wire [] n)" for z using x by (simp add: from_server_def)
  show ?thesis using h m x x' run
    by (simp add: guarded_def receive_datagrams_def run_client_def)
qed

lemma gbn_asked:
  "\<exists>w h c wk r. example_state GO_BACK_N False [104, 105]
      (asks 1 7 @ [Main 99, Main 99, Worker 0, Worker 0, Selects (example_host 1) (Readable (example_host 0))]) = Some w \<and>
    hosts w (example_host 1) = Some h \<and> requests h = [wire example_request 0] \<and>
    client_at h = C_Receiving c \<and> \<not> cl_done c \<and> expected_seqno c = 0 \<and> cl_window_size c = 4 \<and>
    handshakes (srv w) = [(example_host 1, ack_wire 0)] \<and> main_place (srv w) = M_Receive \<and>
    workers (srv w) = [wk] \<and> thread wk = 7 \<and> peer wk = example_host 1 \<and> place wk = K_Wait \<and>
    worker_threads_acks (srv w) 7 = None \<and> rdt wk = Some r \<and> window r \<noteq> [] \<and> \<not> set_mutex r"
  by (simp add: run_defs gbn_run_defs cong: rbind_weak_cong bind_weak_cong)

text \<open>
  C20: the handshake is an acknowledgement with the number 0, and the go-back-N client, which
  numbers packets from 0, reads it as the empty packet that ends the file. The client leaves its
  first loop on the first datagram it is told of; when the handshake is among those still to come,
  which is so whenever a packet of the file overtakes it or the network delivers it twice, and
  nothing has been received, the handshake makes the client close an empty file, whatever the file
  it asked for. (The second event is the end of the loop: no second datagram is read.)
\<close>

theorem handshake_ends_go_back_N:
  assumes "gbn_serves cfg" "\<And>b. fits cfg (ccfg b)" "service_reachable cfg reuse ccfg w"
    and "hosts w a = Some h" "client_at h = C_Receiving c" "\<not> cl_done c" "expected_seqno c = 0"
    and "(word_of_int (cl_window_size c) :: 32 word) \<noteq> 0" "(a, ack_wire 0) \<in> set (handshakes (srv w))"
  shows "\<exists>w' h' c'. run_events cfg reuse ccfg [Receives a (ack_wire 0), Receives a (ack_wire 0)] w = Some w' \<and>
    hosts w' a = Some h' \<and> client_at h' = C_Closed c' \<and> host_file (ccfg a) h' = []"
proof -
  have m: "client_mode (ccfg a) = GO_BACK_N" using assms(1,2) by (simp add: gbn_serves_def fits_def)
  have "from_server w a (wire [] 0)" using assms(9) by (simp add: from_server_def ack_wire_eq)
  from empty_packet_closes [where ccfg = ccfg, OF assms(4-6) m this] assms(7,8)
  show ?thesis using nothing_received [OF gbn_reachable [OF assms(1-3)] assms(2,4,5,7)]
    by (auto simp: ack_wire_eq host_file_def fw_close_def word_gt_0)
qed

theorem handshake_ends_go_back_N_witness:
  "\<exists>w' h' c'. service_reachable (example_config GO_BACK_N [104, 105]) False (example_clients GO_BACK_N) w' \<and>
     hosts w' (example_host 1) = Some h' \<and> client_at h' = C_Closed c' \<and>
     host_file (example_clients GO_BACK_N (example_host 1)) h' = []"
proof -
  obtain w h c where w: "service_reachable (example_config GO_BACK_N [104, 105]) False (example_clients GO_BACK_N) w"
    "hosts w (example_host 1) = Some h" "client_at h = C_Receiving c" "\<not> cl_done c" "expected_seqno c = 0"
    "cl_window_size c = 4" "handshakes (srv w) = [(example_host 1, ack_wire 0)]"
    using gbn_asked example_reachable by blast
  from handshake_ends_go_back_N [OF example_gbn_serves example_fits w(1-5)] w(6,7)
  obtain w' h' c' where "run_events (example_config GO_BACK_N [104, 105]) False (example_clients GO_BACK_N)
      [Receives (example_host 1) (ack_wire 0), Receives (example_host 1) (ack_wire 0)] w = Some w'"
    "hosts w' (example_host 1) = Some h'" "client_at h' = C_Closed c'"
    "host_file (example_clients GO_BACK_N (example_host 1)) h' = []" by (auto simp del: run_events.simps)
  then show ?thesis using run_reachable [OF _ w(1)] by blast
qed











end
