(* ===== verification/Service_Live.thy ===== *)
theory Service_Live
  imports Service_Properties Server_Threads
begin

text \<open>
  The service over a link that loses nothing: what the workers, the main thread and the clients
  keep besides the invariant of the service, so that none of them ever waits for something that
  cannot come.
\<close>

section \<open>The invariant of a service over a lossless link\<close>

definition worker_live :: "config \<Rightarrow> worker \<Rightarrow> bool" where
  "worker_live cfg wk \<longleftrightarrow>
     (\<forall>r contents. rdt wk = Some r \<longrightarrow> file_of cfg (file_path wk) = Some contents \<longrightarrow>
        place wk \<noteq> K_Finalize \<longrightarrow> place wk \<noteq> K_Ended \<longrightarrow>
        posted (chunks contents) r \<and> (place wk = K_Wait \<longrightarrow> window r \<noteq> []))"

text \<open>A handshake has been sent to every client that is being served, or is about to be.\<close>

definition greeted :: "server_state \<Rightarrow> bool" where
  "greeted s \<longleftrightarrow>
     peer ` set (workers s) \<subseteq> fst ` set (handshakes s) \<and>
     (\<forall>a p. main_place s = M_Dispatch a p \<longrightarrow> a \<in> fst ` set (handshakes s))"

definition windows_ok :: "(sockaddr_in \<Rightarrow> client_config) \<Rightarrow> service \<Rightarrow> bool" where
  "windows_ok ccfg w \<longleftrightarrow>
     (\<forall>a. cl_window_size (strategy_of ccfg w a) = cl_window_size (new_client_strategy (ccfg a)))"

definition lively :: "config \<Rightarrow> (sockaddr_in \<Rightarrow> client_config) \<Rightarrow> service \<Rightarrow> bool" where
  "lively cfg ccfg w \<longleftrightarrow>
     service_inv cfg ccfg w \<and> loss_probability (link (srv w)) \<le> 0 \<and> greeted (srv w) \<and>
     windows_ok ccfg w \<and> (\<forall>wk \<in> set (workers (srv w)). worker_live cfg wk) \<and> recorded_inv (srv w)"

lemma start_lively:
  assumes "serves cfg" "\<And>a. fits cfg (ccfg a)" "service_start w" "loss_probability (link (srv w)) \<le> 0"
  shows "lively cfg ccfg w"
  using service_start_inv [OF assms(1-3)] assms(3,4)
  by (auto simp: lively_def greeted_def windows_ok_def recorded_inv_def service_start_def new_server_def strategy_of_def)

section \<open>The clients\<close>

lemma host_keeps_windows:
  assumes cfg: "serves cfg" and fit: "fits cfg (ccfg a)" and w: "windows_ok ccfg w"
    and h: "hosts w a = Some h" "host_ok (ccfg a) h" and st: "client_step (ccfg a) e h = Inr h'"
  shows "windows_ok ccfg (w\<lparr>hosts := (hosts w)(a \<mapsto> h')\<rparr>)"
proof -
  have "server_mode cfg \<noteq> GO_BACK_N" using cfg by (simp add: serves_def)
  from client_step_cases [OF fit h(2) st, unfolded run_client_sr [OF fit this]]
  have "cl_window_size (strategy_at (ccfg a) (client_at h')) = cl_window_size (strategy_at (ccfg a) (client_at h))"
    using run_window_size by auto
  then show ?thesis using w [unfolded windows_ok_def, THEN spec, of a] w h(1)
    by (simp add: windows_ok_def strategy_of_def)
qed

section \<open>The server\<close>

lemma own_keeps_greeted:
  assumes "greeted s" "own_step k s s'" "k < length (workers s)"
  shows "greeted s'"
  using assms own_members(3) [OF assms(2,3)] by (simp add: greeted_def own_step_def)

lemma main_keeps_greeted: "greeted s \<Longrightarrow> greeted (main_step cfg tid s (main_place s))"
  by (cases "main_place s") (auto simp: greeted_def index_map_def split: option.splits)

lemma receive_keeps_greeted:
  assumes g: "greeted s" and st: "server_receive (Some (a, d)) s = Inr s'"
  shows "greeted s'"
  using st by (rule server_receive_cases) (use g in \<open>auto simp: greeted_def\<close>)

lemma own_keeps_live:
  assumes "\<forall>wk \<in> set (workers s). worker_live cfg wk" "own_step k s s'" "k < length (workers s)"
    and "worker_live cfg (workers s' ! k)"
  shows "\<forall>wk \<in> set (workers s'). worker_live cfg wk"
proof -
  obtain w' where w': "workers s' = (workers s)[k := w']" using assms(2) by (auto simp: own_step_def)
  then have "worker_live cfg w'" using assms(3,4) by simp
  then show ?thesis using assms(1) w' by (auto dest!: set_update_subset_insert [THEN subsetD])
qed

lemma main_keeps_live:
  "\<forall>wk \<in> set (workers s). worker_live cfg wk \<Longrightarrow> \<forall>wk \<in> set (workers (main_step cfg tid s pc)). worker_live cfg wk"
  by (cases pc) (auto simp: index_map_def worker_live_def split: option.splits)

text \<open>The strategy of a worker that has not finished.\<close>

lemma active_worker:
  assumes l: "lively cfg ccfg w" and k: "k < length (workers (srv w))"
    and r: "rdt (workers (srv w) ! k) = Some r" and f: "file_of cfg (file_path (workers (srv w) ! k)) = Some contents"
    and p: "place (workers (srv w) ! k) \<noteq> K_Finalize" "place (workers (srv w) ! k) \<noteq> K_Ended"
  shows "sinv_of cfg (chunks contents) (received (strategy_of ccfg w (peer (workers (srv w) ! k))))
      (timer_place (workers (srv w) ! k)) (r\<lparr>sender := link (srv w)\<rparr>)" (is ?si)
    and "live_of (chunks contents) (r\<lparr>sender := link (srv w)\<rparr>)" (is ?lv)
    and "place (workers (srv w) ! k) = K_Wait \<longrightarrow> window r \<noteq> []"
proof -
  let ?wk = "workers (srv w) ! k"
  have inv: "service_inv cfg ccfg w" and l0: "loss_probability (link (srv w)) \<le> 0" and wl: "worker_live cfg ?wk"
    using l k by (simp_all add: lively_def)
  obtain c where "file_of cfg (file_path ?wk) = Some c"
    "session_inv (sinv_of cfg) (quiet_of cfg) (chunks c) (session_of ccfg w ?wk r)"
    by (rule running_session [OF inv k r])
  then show ?si using f p by (auto simp: session_inv_def session_of_def)
  show ?lv "place ?wk = K_Wait \<longrightarrow> window r \<noteq> []"
    using wl r f p l0 by (auto simp: worker_live_def posted_def lossless_def)
qed

lemma worker_step_live:
  assumes cfg: "serves cfg" and l: "lively cfg ccfg w" and k: "k < length (workers (srv w))"
    and st: "worker_step cfg k (srv w) = Inr s'"
  shows "worker_live cfg (workers s' ! k)"
proof -
  let ?wk = "workers (srv w) ! k" and ?c = "strategy_of ccfg w (peer (workers (srv w) ! k))"
  have inv: "service_inv cfg ccfg w" and l0: "loss_probability (link (srv w)) \<le> 0" and wl: "worker_live cfg ?wk"
    using l k by (simp_all add: lively_def)
  note so = worker_at(2) [OF inv k]
  show ?thesis
  proof (cases "place ?wk")
    case K_Start
    obtain r0 r where r0: "new_strategy cfg (file_path ?wk) (link (srv w)) = Inr (server_mode cfg, r0)"
      and r: "start_strategy (server_mode cfg) (r0\<lparr>sender := link (srv w)\<rparr>) = Inr r"
        "s' = set_worker k (?wk\<lparr>rdt := Some r, timer_place := timer_start (server_mode cfg), place := K_Check\<rparr>)
          ((srv w)\<lparr>link := sender r\<rparr>)"
      by (rule worker_startE [OF st K_Start k]) (metis new_strategy_class)
    have "sender r0 = link (srv w)" by (rule new_strategy_sender [OF cfg r0])
    then have "r0\<lparr>sender := link (srv w)\<rparr> = r0" by (metis sender_self)
    then show ?thesis using served_start_live [OF cfg so l0 _ r0, of _ r] r k by (simp add: worker_live_def)
  next
    case K_Check
    then obtain r where r: "rdt ?wk = Some r" using st by (auto simp: worker_step_def Let_def split: option.splits)
    then have "workers s' ! k = ?wk\<lparr>rdt := Some (snd (is_done r)), place := if fst (is_done r) then K_Finish else K_Wait\<rparr>"
      using st K_Check k by (auto simp: worker_step_def Let_def split_def)
    then show ?thesis using wl r K_Check by (auto simp: worker_live_def is_done_def now_def Let_def posted_def)
  next
    case K_Wait
    obtain q m where q: "index_map [] (thread ?wk) (worker_threads_acks (srv w)) = (q, m)" by fastforce
    then have "workers s' ! k = ?wk \<or> (\<exists>ack. workers s' ! k = ?wk\<lparr>place := K_Acknowledge ack\<rparr>)"
      using st K_Wait k by (auto simp: worker_step_def Let_def split: list.splits)
    then show ?thesis using wl K_Wait by (auto simp: worker_live_def)
  next
    case (K_Acknowledge ack)
    obtain r r' where r: "rdt ?wk = Some r"
      "acknowledge cfg (timer_class (timer_place ?wk)) ack (r\<lparr>sender := link (srv w)\<rparr>) = Inr r'"
      "workers s' ! k = ?wk\<lparr>rdt := Some r', place := K_Check\<rparr>"
      using k by (auto intro: worker_acknowledgeE [OF st K_Acknowledge])
    have tr: "trusts_of cfg ack \<Longrightarrow> received ?c (unat (ackno ack))"
      using worker_at(1) [OF inv k] K_Acknowledge by (simp add: worker_ok_def benign_def)
    show ?thesis
    proof (cases "file_of cfg (file_path ?wk)")
      case (Some contents)
      have "timer_class (timer_place ?wk) = server_mode cfg"
        using timer_class_of [OF disjI1 [OF active_worker(1) [OF l k r(1) Some]]] K_Acknowledge by simp
      with r(2) have a: "acknowledge cfg (server_mode cfg) ack (r\<lparr>sender := link (srv w)\<rparr>) = Inr r'" by simp
      show ?thesis
        using served_waits.live_ack [OF active_worker(1,2) [OF l k r(1)] tr a] r(3) K_Acknowledge
        by (simp add: worker_live_def)
    qed (use r(3) in \<open>simp add: worker_live_def\<close>)
  next
    case K_Finish
    then obtain r where "workers s' ! k = ?wk\<lparr>rdt := Some r, place := K_Finalize\<rparr>"
      using st k by (auto simp: worker_step_def Let_def elim!: on_strategyE)
    then show ?thesis by (simp add: worker_live_def)
  next
    case K_Finalize
    then have "place (workers s' ! k) = K_Ended" using st k
      by (auto simp: worker_step_def Let_def finalize_worker_thread_def rbind_Inr_iff split: prod.splits option.splits)
    then show ?thesis by (simp add: worker_live_def)
  next
    case K_Ended
    then show ?thesis using st wl by (simp add: worker_step_def Let_def)
  qed
qed

lemma timer_step_live:
  assumes l: "lively cfg ccfg w" and k: "k < length (workers (srv w))" and st: "timer_step k (srv w) = Inr s'"
  shows "worker_live cfg (workers s' ! k)"
proof -
  let ?wk = "workers (srv w) ! k"
  have wl: "worker_live cfg ?wk" using l k by (simp add: lively_def)
  show ?thesis
  proof (cases "\<exists>r. rdt ?wk = Some r \<and> timer r")
    case False
    then show ?thesis using st wl by (auto simp: timer_step_def Let_def split: option.splits)
  next
    case True
    then obtain r pc r' where r: "rdt ?wk = Some r" "handle_time_out (timer_place ?wk) (r\<lparr>sender := link (srv w)\<rparr>) = Inr (pc, r')"
      "workers s' ! k = ?wk\<lparr>rdt := Some r', timer_place := pc\<rparr>"
      using st k by (auto simp: timer_step_def Let_def rbind_Inr_iff)
    have "posted (chunks contents) r' \<and> (place ?wk = K_Wait \<longrightarrow> window r' \<noteq> [])"
      if f: "file_of cfg (file_path ?wk) = Some contents" and p: "place ?wk \<noteq> K_Finalize" "place ?wk \<noteq> K_Ended" for contents
    proof -
      note a = active_worker [OF l k r(1) f p]
      show ?thesis using served_waits.live_tick [OF a(1,2) r(2)] a(3) served_waits.tick_keeps_window [OF a(1,2) _ r(2)]
        by auto
    qed
    then show ?thesis using r(3) by (simp add: worker_live_def)
  qed
qed

section \<open>Every step keeps it\<close>

lemma host_keeps_lively:
  assumes cfg: "serves cfg" and fit: "\<And>a. fits cfg (ccfg a)" and l: "lively cfg ccfg w"
    and inv: "service_inv cfg ccfg (w\<lparr>hosts := (hosts w)(a \<mapsto> h')\<rparr>)"
    and h: "hosts w a = Some h" and st: "client_step (ccfg a) e h = Inr h'"
  shows "lively cfg ccfg (w\<lparr>hosts := (hosts w)(a \<mapsto> h')\<rparr>)"
proof -
  have "windows_ok ccfg w" "host_ok (ccfg a) h" using l h by (simp_all add: lively_def service_inv_def)
  from host_keeps_windows [OF cfg fit this(1) h this(2) st] show ?thesis using l inv by (simp add: lively_def)
qed

lemma lively_step:
  assumes cfg: "serves cfg" and fit: "\<And>a. fits cfg (ccfg a)" and l: "lively cfg ccfg w"
    and st: "service_step cfg False ccfg w w'"
  shows "lively cfg ccfg w'"
proof -
  have inv: "service_inv cfg ccfg w" and g: "greeted (srv w)" and wl: "\<forall>wk \<in> set (workers (srv w)). worker_live cfg wk"
    using l by (simp_all add: lively_def)
  have inv': "service_inv cfg ccfg w'" by (rule service_step_inv [OF cfg fit inv st])
  from st show ?thesis
  proof (cases rule: service_step.cases)
    case (host_begins a h)
    note h = client_begin_ok [OF fit host_begins(4)]
    have "windows_ok ccfg w'" using l host_begins(1,2) h(2)
      by (auto simp: lively_def windows_ok_def strategy_of_def)
    then show ?thesis using l inv' host_begins(1) by (simp add: lively_def)
  next
    case (host_selects a h r h')
    show ?thesis unfolding host_selects(1)
      by (rule host_keeps_lively [OF cfg fit l inv' [unfolded host_selects(1)] host_selects(2,4)])
  next
    case (host_receives a h x h')
    show ?thesis unfolding host_receives(1)
      by (rule host_keeps_lively [OF cfg fit l inv' [unfolded host_receives(1)] host_receives(2,4)])
  next
    case (server_acts s')
    have "recorded_inv s'"
      using server_step_recorded [OF _ server_acts(2)] l by (simp add: lively_def service_inv_def)
    moreover have "greeted s' \<and> loss_probability (link s') = loss_probability (link (srv w)) \<and>
        (\<forall>wk \<in> set (workers s'). worker_live cfg wk)"
      using server_acts(2)
    proof (cases rule: server_step.cases)
      case (main_receives a d)
      have "workers s' = workers (srv w)" "link s' = link (srv w)"
        using main_receives(3) by (auto elim!: server_receive_cases)
      then show ?thesis using receive_keeps_greeted [OF g main_receives(3)] wl by simp
    next
      case (main_continues pc tid)
      then show ?thesis using main_keeps_greeted [OF g, of cfg tid] main_keeps_live [OF wl, of tid] main_step_loss [of cfg tid "srv w"]
        by simp
    next
      case (worker_steps k)
      note own = worker_step_own [OF worker_steps]
      show ?thesis
        using own_keeps_greeted [OF g own worker_steps(1)] worker_step_loss [OF worker_steps(2)]
          own_keeps_live [OF wl own worker_steps(1) worker_step_live [OF cfg l worker_steps]] by blast
    next
      case (timer_steps k)
      note own = timer_step_own(1) [OF timer_steps(2)]
      show ?thesis
        using own_keeps_greeted [OF g own timer_steps(1)] timer_step_loss [OF timer_steps(2)]
          own_keeps_live [OF wl own timer_steps(1) timer_step_live [OF l timer_steps]] by blast
    qed
    ultimately show ?thesis using l inv' server_acts(1) by (simp add: lively_def windows_ok_def strategy_of_def)
  qed
qed

end
