(* ===== verification/Service_Progress.thy ===== *)
theory Service_Progress
  imports Service_Live
begin

text \<open>
  How a client of the service gets on when the link loses nothing: the main thread comes back to
  its loop, the client gets a worker, the worker and the client start, the worker empties its
  queue, and a datagram, its acknowledgement and the way of that through the main thread move the
  window on.
\<close>

section \<open>Runs\<close>

definition serving :: "config \<Rightarrow> (sockaddr_in \<Rightarrow> client_config) \<Rightarrow> service \<Rightarrow> bool" where
  "serving cfg ccfg w \<longleftrightarrow> serves cfg \<and> (\<forall>a. fits cfg (ccfg a)) \<and> lively cfg ccfg w"

abbreviation runs :: "config \<Rightarrow> (sockaddr_in \<Rightarrow> client_config) \<Rightarrow> service \<Rightarrow> service \<Rightarrow> bool" where
  "runs cfg ccfg \<equiv> (service_step cfg False ccfg)\<^sup>*\<^sup>*"

lemma servingD:
  assumes "serving cfg ccfg w"
  shows "serves cfg" "fits cfg (ccfg a)" "lively cfg ccfg w" "service_inv cfg ccfg w" "routing_inv (srv w)"
    "greeted (srv w)"
  using assms by (simp_all add: serving_def lively_def service_inv_def)

lemma serving_runs: "runs cfg ccfg w w' \<Longrightarrow> serving cfg ccfg w \<Longrightarrow> serving cfg ccfg w'"
  by (induction rule: rtranclp_induct) (auto simp: serving_def intro: lively_step)

lemma worker_runs:
  "k < length (workers (srv w)) \<Longrightarrow> worker_step cfg k (srv w) = Inr s' \<Longrightarrow> runs cfg ccfg w (w\<lparr>srv := s'\<rparr>)"
  by (auto intro: service_step.server_acts server_step.worker_steps)

section \<open>The main thread comes back to its loop\<close>

fun main_left :: "main_pc \<Rightarrow> nat" where
  "main_left M_Receive = 0"
| "main_left (M_Route a ack) = 2"
| "main_left (M_Push tid ack) = 1"
| "main_left (M_Dispatch a path) = 3"
| "main_left (M_Register tid a) = 2"
| "main_left (M_Record tid) = 1"

lemma main_turn:
  assumes "main_place (srv w) \<noteq> M_Receive"
  obtains tid where
    "service_step cfg False ccfg w (w\<lparr>srv := main_step cfg tid (srv w) (main_place (srv w))\<rparr>)"
proof -
  have "finite (insert 0 (running_threads False (srv w)))" by (simp add: running_threads_def)
  then obtain tid where "tid \<notin> insert 0 (running_threads False (srv w))" using ex_new_if_finite infinite_UNIV_nat by blast
  then show ?thesis using assms by (intro that [of tid] service_step.server_acts server_step.main_continues) auto
qed

lemma main_moves:
  "pc \<noteq> M_Receive \<Longrightarrow> main_left (main_place (main_step cfg tid s pc)) < main_left pc"
  "prefix (workers s) (workers (main_step cfg tid s pc))"
  by (cases pc; auto simp: Let_def split: prod.splits)+

lemma main_returns:
  "\<exists>s'. runs cfg ccfg w (w\<lparr>srv := s'\<rparr>) \<and> main_place s' = M_Receive \<and> prefix (workers (srv w)) (workers s')"
proof (induction "main_left (main_place (srv w))" arbitrary: w rule: less_induct)
  case less
  show ?case
  proof (cases "main_place (srv w) = M_Receive")
    case True
    then show ?thesis by (intro exI [of _ "srv w"]) simp
  next
    case False
    then obtain tid where st: "service_step cfg False ccfg w (w\<lparr>srv := main_step cfg tid (srv w) (main_place (srv w))\<rparr>)"
      (is "service_step _ _ _ _ ?w") by (rule main_turn)
    note m = main_moves(1) [OF False, of cfg tid "srv w"] main_moves(2) [of "srv w" cfg tid "main_place (srv w)"]
    obtain s' where s': "runs cfg ccfg ?w (?w\<lparr>srv := s'\<rparr>)" "main_place s' = M_Receive"
      "prefix (workers (srv ?w)) (workers s')"
      using less [of ?w] m(1) by auto
    have "?w\<lparr>srv := s'\<rparr> = w\<lparr>srv := s'\<rparr>" by simp
    then have "runs cfg ccfg w (w\<lparr>srv := s'\<rparr>)" using st s'(1) by (metis converse_rtranclp_into_rtranclp)
    then show ?thesis using s'(2,3) m(2) prefix_order.trans by fastforce
  qed
qed

section \<open>A client gets its worker\<close>

lemma client_is_waiting:
  assumes s: "serving cfg ccfg w" and m: "main_place (srv w) = M_Receive" and h: "hosts w a = Some h"
    and none: "\<forall>wk \<in> set (workers (srv w)). peer wk \<noteq> a"
  shows "client_at h = C_Waiting" "registered_clients (srv w) (get_address_string a) = None"
proof -
  have inv: "service_inv cfg ccfg w" and r: "routing_inv (srv w)" using servingD [OF s] by simp_all
  show new: "registered_clients (srv w) (get_address_string a) = None"
  proof (rule ccontr)
    assume "registered_clients (srv w) (get_address_string a) \<noteq> None"
    then obtain tid where "registered_clients (srv w) (get_address_string a) = Some tid" by blast
    then obtain wk where wk: "wk \<in> set (workers (srv w))" "client_key wk = get_address_string a"
      using r unfolding routing_inv_def by blast
    then have "hosts w (peer wk) \<noteq> None" using inv unfolding service_inv_def by blast
    with same_address [OF inv this] wk h none show False by (auto simp: client_key_def)
  qed
  have "\<not> contacted (srv w) a"
    using inv new m none by (force simp: service_inv_def greeting_inv_def contacted_def)
  then show "client_at h = C_Waiting" using inv h by (auto simp: service_inv_def)
qed

lemma worker_is_created:
  assumes s: "serving cfg ccfg w" and m: "main_place (srv w) = M_Receive" and h: "hosts w a = Some h"
    and none: "\<forall>wk \<in> set (workers (srv w)). peer wk \<noteq> a"
  shows "\<exists>w' k. runs cfg ccfg w w' \<and> hosts w' a \<noteq> None \<and> k < length (workers (srv w')) \<and> peer (workers (srv w') ! k) = a"
proof -
  note c = client_is_waiting [OF s m h none]
  let ?q = "wire (req_file_name (ccfg a)) 0"
  let ?w1 = "w\<lparr>hosts := (hosts w)(a \<mapsto> h\<lparr>requests := requests h @ [?q]\<rparr>)\<rparr>"
  have "req_datagram_buffer h = ?q" using servingD(4) [OF s] h by (simp add: service_inv_def host_ok_def)
  then have "client_step (ccfg a) (Selected Time_Out) h = Inr (h\<lparr>requests := requests h @ [?q]\<rparr>)"
    by (simp add: c(1) handle_ack_timeout_def)
  with h have 1: "service_step cfg False ccfg w ?w1"
    by (intro service_step.host_selects [where r = Time_Out and h = h]) (simp_all del: client_step.simps)
  have arrives: "to_server cfg ?w1 a ?q" by (simp add: to_server_def host_sent_def)
  obtain s2 where 2: "server_receive (Some (a, ?q)) (srv w) = Inr s2" "workers s2 = workers (srv w)"
    "main_place s2 = M_Dispatch a (req_file_name (ccfg a))"
    using c(2) request_read [OF servingD(2) [OF s, of a]] by (simp add: server_receive_def recvfrom_def Let_def)
  let ?w2 = "?w1\<lparr>srv := s2\<rparr>"
  have st2: "service_step cfg False ccfg ?w1 ?w2"
    using arrives 2 m by (intro service_step.server_acts server_step.main_receives) auto
  obtain tid where 3: "service_step cfg False ccfg ?w2 (?w2\<lparr>srv := main_step cfg tid (srv ?w2) (main_place (srv ?w2))\<rparr>)"
    by (rule main_turn [of ?w2]) (use 2(3) in simp)
  let ?w3 = "?w2\<lparr>srv := main_step cfg tid (srv ?w2) (main_place (srv ?w2))\<rparr>"
  have "runs cfg ccfg w ?w3" using 1 st2 3 by (meson rtranclp.rtrancl_refl rtranclp.rtrancl_into_rtrancl)
  moreover have "length (workers (srv w)) < length (workers (srv ?w3))"
    "peer (workers (srv ?w3) ! length (workers (srv w))) = a" "hosts ?w3 a \<noteq> None"
    using 2(2,3) by simp_all
  ultimately show ?thesis by blast
qed

section \<open>The client leaves its first loop, the worker starts\<close>

lemma client_starts:
  assumes s: "serving cfg ccfg w" and h: "hosts w a = Some h" and k: "k < length (workers (srv w))"
    and a: "peer (workers (srv w) ! k) = a"
  shows "\<exists>h'. runs cfg ccfg w (w\<lparr>hosts := (hosts w)(a \<mapsto> h')\<rparr>) \<and> client_at h' \<noteq> C_Waiting"
proof (cases "client_at h = C_Waiting")
  case True
  have "a \<in> peer ` set (workers (srv w))" using k a by force
  then have "a \<in> fst ` set (handshakes (srv w))" using servingD(6) [OF s] unfolding greeted_def by blast
  then obtain x where "(a, x) \<in> set (handshakes (srv w))" by force
  then have x: "\<exists>x. from_server w a x" unfolding from_server_def by blast
  have "client_step (ccfg a) (Selected (Readable (server_address (ccfg a)))) h =
      Inr (h\<lparr>client_at := C_Receiving (new_client_strategy (ccfg a))\<rparr>)"
    by (simp add: True handle_ack_timeout_def is_server_addr_def)
  with h x have "service_step cfg False ccfg w
      (w\<lparr>hosts := (hosts w)(a \<mapsto> h\<lparr>client_at := C_Receiving (new_client_strategy (ccfg a))\<rparr>)\<rparr>)"
    by (intro service_step.host_selects [where r = "Readable (server_address (ccfg a))" and h = h])
       (simp_all del: client_step.simps)
  then show ?thesis by (intro exI [of _ "h\<lparr>client_at := C_Receiving (new_client_strategy (ccfg a))\<rparr>"]) auto
next
  case False
  moreover have "w\<lparr>hosts := (hosts w)(a \<mapsto> h)\<rparr> = w" using h by (simp add: fun_upd_idem)
  ultimately show ?thesis by (intro exI [of _ h]) simp
qed

lemma worker_starts:
  assumes s: "serving cfg ccfg w" and k: "k < length (workers (srv w))"
    and p: "place (workers (srv w) ! k) = K_Start" and f: "file_of cfg (file_path (workers (srv w) ! k)) = Some contents"
  shows "\<exists>s'. worker_step cfg k (srv w) = Inr s' \<and> place (workers s' ! k) = K_Check"
proof -
  let ?wk = "workers (srv w) ! k"
  have so: "sender_ok (link (srv w))" using worker_at(2) [OF servingD(4) [OF s] k] .
  obtain r0 r where r: "new_strategy cfg (file_path ?wk) (link (srv w)) = Inr (server_mode cfg, r0)" "start_strategy (server_mode cfg) r0 = Inr r"
    by (rule served_starts [OF servingD(1) [OF s] so f])
  have "sender r0 = link (srv w)" by (rule new_strategy_sender [OF servingD(1) [OF s] r(1)])
  then have "r0\<lparr>sender := link (srv w)\<rparr> = r0" by (metis sender_self)
  then show ?thesis using r p k by (auto simp: worker_step_def on_strategy_def set_worker_def Let_def)
qed

section \<open>A worker and its client\<close>

text \<open>Worker \<open>k\<close> serves the client \<open>a\<close>, which has left its first loop; the main thread is free.\<close>

definition attends :: "config \<Rightarrow> (sockaddr_in \<Rightarrow> client_config) \<Rightarrow> sockaddr_in \<Rightarrow> nat \<Rightarrow> service \<Rightarrow> bool" where
  "attends cfg ccfg a k w \<longleftrightarrow>
     serving cfg ccfg w \<and> main_place (srv w) = M_Receive \<and>
     k < length (workers (srv w)) \<and> peer (workers (srv w) ! k) = a \<and>
     (\<exists>h. hosts w a = Some h \<and> client_at h \<noteq> C_Waiting)"

definition waiting_acks :: "nat \<Rightarrow> server_state \<Rightarrow> ack_packet list" where
  "waiting_acks k s = fst (index_map [] (thread (workers s ! k)) (worker_threads_acks s))"

text \<open>It rests: it has nothing to do before another acknowledgement arrives, or it has finished.\<close>

definition finished :: "nat \<Rightarrow> server_state \<Rightarrow> bool" where
  "finished k s \<longleftrightarrow> place (workers s ! k) = K_Finalize \<or> place (workers s ! k) = K_Ended"

definition rests :: "nat \<Rightarrow> server_state \<Rightarrow> bool" where
  "rests k s \<longleftrightarrow> finished k s \<or> place (workers s ! k) = K_Wait \<and> waiting_acks k s = []"

fun place_left :: "worker_pc \<Rightarrow> nat" where
  "place_left (K_Acknowledge ack) = 3"
| "place_left K_Check = 2"
| "place_left K_Finish = 1"
| "place_left pc = 0"

definition worker_left :: "nat \<Rightarrow> server_state \<Rightarrow> nat" where
  "worker_left k s = 4 * length (waiting_acks k s) + place_left (place (workers s ! k))"

lemma attends_runs:
  assumes at: "attends cfg ccfg a k w" and st: "worker_step cfg k (srv w) = Inr s'"
  shows "runs cfg ccfg w (w\<lparr>srv := s'\<rparr>)" "attends cfg ccfg a k (w\<lparr>srv := s'\<rparr>)"
proof -
  have k: "k < length (workers (srv w))" using at by (simp add: attends_def)
  show r: "runs cfg ccfg w (w\<lparr>srv := s'\<rparr>)" by (rule worker_runs [OF k st])
  have "serving cfg ccfg (w\<lparr>srv := s'\<rparr>)" using serving_runs [OF r] at by (simp add: attends_def)
  moreover obtain w' where "workers s' = (workers (srv w))[k := w']" "same_worker (workers (srv w) ! k) w'"
    "main_place s' = main_place (srv w)"
    using worker_step_own [OF k st] by (auto simp: own_step_def)
  ultimately show "attends cfg ccfg a k (w\<lparr>srv := s'\<rparr>)" using at by (simp add: attends_def same_worker_def)
qed

text \<open>The effect of one step on the place and on the queue.\<close>

lemma on_strategy_moves:
  assumes "on_strategy k operation pc s = Inr s'" "k < length (workers s)"
  shows "place (workers s' ! k) = pc" "waiting_acks k s' = waiting_acks k s"
  using assms by (auto elim!: on_strategyE simp: waiting_acks_def)

lemma check_moves:
  assumes "place (workers s ! k) = K_Check" "rdt (workers s ! k) = Some r" "k < length (workers s)"
  shows "\<exists>s'. worker_step cfg k s = Inr s' \<and> workers s' ! k = (workers s ! k)\<lparr>rdt := Some (snd (is_done r)),
      place := if fst (is_done r) then K_Finish else K_Wait\<rparr> \<and> waiting_acks k s' = waiting_acks k s"
  using assms by (simp add: worker_step_def Let_def split_def waiting_acks_def)

lemma wait_moves:
  assumes "place (workers s ! k) = K_Wait" "waiting_acks k s = ack # q" "k < length (workers s)"
  shows "\<exists>s'. worker_step cfg k s = Inr s' \<and> workers s' ! k = (workers s ! k)\<lparr>place := K_Acknowledge ack\<rparr> \<and>
      waiting_acks k s' = q"
  using assms by (simp add: worker_step_def Let_def waiting_acks_def split_def index_map_def)

lemma worker_advances:
  assumes at: "attends cfg ccfg a k w" and p: "place (workers (srv w) ! k) \<noteq> K_Start" and n: "\<not> rests k (srv w)"
  shows "\<exists>s'. worker_step cfg k (srv w) = Inr s' \<and> worker_left k s' < worker_left k (srv w) \<and>
    place (workers s' ! k) \<noteq> K_Start"
proof -
  let ?wk = "workers (srv w) ! k"
  have k: "k < length (workers (srv w))" and s: "serving cfg ccfg w" using at by (simp_all add: attends_def)
  have inv: "service_inv cfg ccfg w" using servingD [OF s] by simp
  obtain r where r: "rdt ?wk = Some r" using worker_at(1) [OF inv k] p by (auto simp: worker_ok_def split: option.splits)
  have nf: "place ?wk \<noteq> K_Finalize" "place ?wk \<noteq> K_Ended" using n by (auto simp: rests_def finished_def)
  obtain s' where st: "worker_step cfg k (srv w) = Inr s'"
    using worker_succeeds [OF inv k p nf(1)] by (auto simp: succeeds_def)
  show ?thesis
  proof (cases "place ?wk")
    case K_Check
    then show ?thesis using check_moves [OF K_Check r k, of cfg] by (auto simp: worker_left_def)
  next
    case K_Wait
    then obtain ack q where "waiting_acks k (srv w) = ack # q" using n by (auto simp: rests_def neq_Nil_conv)
    with wait_moves [OF K_Wait this k, of cfg] K_Wait show ?thesis by (auto simp: worker_left_def)
  next
    case (K_Acknowledge ack)
    then have "on_strategy k (acknowledge cfg (timer_class (timer_place ?wk)) ack) K_Check (srv w) = Inr s'" using st by (simp add: worker_step_def Let_def)
    with on_strategy_moves [OF this k] st K_Acknowledge show ?thesis by (auto simp: worker_left_def)
  next
    case K_Finish
    then have "on_strategy k send_empty_packet K_Finalize (srv w) = Inr s'" using st by (simp add: worker_step_def Let_def)
    with on_strategy_moves [OF this k] st K_Finish show ?thesis by (auto simp: worker_left_def)
  qed (use p nf in simp_all)
qed

lemma worker_comes_to_rest:
  "attends cfg ccfg a k w \<Longrightarrow> place (workers (srv w) ! k) \<noteq> K_Start \<Longrightarrow>
   \<exists>w'. runs cfg ccfg w w' \<and> attends cfg ccfg a k w' \<and> rests k (srv w')"
proof (induction "worker_left k (srv w)" arbitrary: w rule: less_induct)
  case less
  show ?case
  proof (cases "rests k (srv w)")
    case True
    then show ?thesis using less.prems by blast
  next
    case False
    obtain s' where s': "worker_step cfg k (srv w) = Inr s'" "worker_left k s' < worker_left k (srv w)"
      "place (workers s' ! k) \<noteq> K_Start"
      using worker_advances [OF less.prems False] by blast
    note n = attends_runs [OF less.prems(1) s'(1)]
    obtain w' where "runs cfg ccfg (w\<lparr>srv := s'\<rparr>) w'" "attends cfg ccfg a k w'" "rests k (srv w')"
      using less.hyps [of "w\<lparr>srv := s'\<rparr>"] s' n(2) by auto
    then show ?thesis using n(1) by (meson rtranclp_trans)
  qed
qed

section \<open>An acknowledgement is passed on\<close>

lemma main_continues_runs:
  assumes "main_place (srv w) = pc" "pc \<noteq> M_Receive" "\<And>tid. main_step cfg tid (srv w) pc = s'"
  shows "runs cfg ccfg w (w\<lparr>srv := s'\<rparr>)"
proof -
  obtain tid where "service_step cfg False ccfg w (w\<lparr>srv := main_step cfg tid (srv w) (main_place (srv w))\<rparr>)"
    by (rule main_turn [of w cfg ccfg]) (use assms in auto)
  then show ?thesis using assms by auto
qed

lemma ack_is_passed_on:
  assumes at: "attends cfg ccfg a k w" and x: "x \<in> set (host_sent (the (hosts w a)))"
    and ack: "ack_packet_of_buffer x = Inr ack"
  shows "\<exists>s'. runs cfg ccfg w (w\<lparr>srv := s'\<rparr>) \<and> main_place s' = M_Receive \<and> workers s' = workers (srv w) \<and>
    waiting_acks k s' = waiting_acks k (srv w) @ [ack]"
proof -
  let ?s = "srv w" and ?wk = "workers (srv w) ! k"
  have s: "serving cfg ccfg w" and m: "main_place ?s = M_Receive" and k: "k < length (workers ?s)" and p: "peer ?wk = a"
    and h: "hosts w a \<noteq> None" using at by (auto simp: attends_def)
  have "?wk \<in> set (workers ?s)" using k by simp
  then have reg: "registered_clients ?s (get_address_string a) = Some (thread ?wk)"
    using servingD(5) [OF s] p m by (auto simp: routing_inv_def client_key_def)
  obtain b where 1: "server_receive (Some (a, x)) ?s = Inr (?s\<lparr>buffer := b, main_place := M_Route a ack\<rparr>)" (is "_ = Inr ?s1")
    using reg ack_packet_prefix [OF ack] by (simp add: server_receive_def recvfrom_def Let_def)
  have "to_server cfg w a x" using h x by (auto simp: to_server_def)
  with m 1 have r1: "runs cfg ccfg w (w\<lparr>srv := ?s1\<rparr>)"
    by (auto intro!: service_step.server_acts server_step.main_receives)
  let ?s2 = "?s1\<lparr>main_place := M_Push (thread ?wk) ack\<rparr>"
  have "runs cfg ccfg (w\<lparr>srv := ?s1\<rparr>) (w\<lparr>srv := ?s1\<rparr>\<lparr>srv := ?s2\<rparr>)"
    by (rule main_continues_runs [where pc = "M_Route a ack"]) (use reg in \<open>simp_all add: index_map_def\<close>)
  then have r2: "runs cfg ccfg (w\<lparr>srv := ?s1\<rparr>) (w\<lparr>srv := ?s2\<rparr>)" by simp
  let ?s3 = "push_ack (thread ?wk) ack ?s2"
  have "runs cfg ccfg (w\<lparr>srv := ?s2\<rparr>) (w\<lparr>srv := ?s2\<rparr>\<lparr>srv := ?s3\<rparr>)"
    by (rule main_continues_runs [where pc = "M_Push (thread ?wk) ack"]) simp_all
  then have r3: "runs cfg ccfg (w\<lparr>srv := ?s2\<rparr>) (w\<lparr>srv := ?s3\<rparr>)" by simp
  have "main_place ?s3 = M_Receive" "workers ?s3 = workers ?s" "waiting_acks k ?s3 = waiting_acks k ?s @ [ack]"
    by (simp_all add: waiting_acks_def index_map_def split: option.splits)
  then show ?thesis using rtranclp_trans [OF rtranclp_trans [OF r1 r2] r3] by blast
qed

section \<open>One round\<close>

definition window_usable :: "client_config \<Rightarrow> bool" where
  "window_usable c \<longleftrightarrow> 1 \<le> default_window_size c \<and> default_window_size c < 2 ^ 31"

lemma client_window:
  assumes s: "serving cfg ccfg w" and u: "window_usable (ccfg a)"
  shows "1 \<le> cl_window_size (strategy_of ccfg w a)" "cl_window_size (strategy_of ccfg w a) < 2 ^ 31"
proof -
  have "cl_window_size (strategy_of ccfg w a) = cl_window_size (new_client_strategy (ccfg a))"
    using s by (simp add: serving_def lively_def windows_ok_def)
  moreover have "client_mode (ccfg a) \<noteq> GO_BACK_N" using servingD(1) [OF s] servingD(2) [OF s, of a] by (auto simp: serves_def fits_def)
  ultimately show "1 \<le> cl_window_size (strategy_of ccfg w a)" "cl_window_size (strategy_of ccfg w a) < 2 ^ 31"
    using u by (cases "client_mode (ccfg a)";
      simp add: new_client_strategy_def new_client_selective_repeat_def window_usable_def Let_def)+
qed

text \<open>Something the server has sent to a client that receives is received.\<close>

lemma receiving_client:
  assumes at: "attends cfg ccfg a k w" and nd: "\<not> cl_done (strategy_of ccfg w a)"
  obtains h c where "hosts w a = Some h" "client_at h = C_Receiving c"
proof -
  obtain h where h: "hosts w a = Some h" "client_at h \<noteq> C_Waiting" using at by (auto simp: attends_def)
  have "service_inv cfg ccfg w" using at servingD(4) by (simp add: attends_def)
  then have "host_ok (ccfg a) h" using h(1) by (simp add: service_inv_def)
  then show ?thesis using h nd that by (cases "client_at h") (auto simp: host_ok_def strategy_of_def)
qed

lemma client_receives:
  assumes at: "attends cfg ccfg a k w" and x: "from_server w a x"
    and c: "sr_client_run (Some x) (strategy_of ccfg w a) = Inr c" and nd: "\<not> cl_done (strategy_of ccfg w a)"
  shows "\<exists>w'. runs cfg ccfg w w' \<and> srv w' = srv w \<and> attends cfg ccfg a k w' \<and> strategy_of ccfg w' a = c \<and>
    set (cl_sent c) \<subseteq> set (host_sent (the (hosts w' a)))"
proof -
  have s: "serving cfg ccfg w" using at by (simp add: attends_def)
  obtain h c0 where h: "hosts w a = Some h" "client_at h = C_Receiving c0" by (rule receiving_client [OF at nd])
  then have c0: "strategy_of ccfg w a = c0" by (simp add: strategy_of_def)
  have "server_mode cfg \<noteq> GO_BACK_N" using servingD(1) [OF s] by (simp add: serves_def)
  then have "client_step (ccfg a) (Received (Some x)) h = Inr (h\<lparr>client_at := C_Receiving c\<rparr>)" (is "_ = Inr ?h")
    using h(2) c nd c0 run_client_sr [OF servingD(2) [OF s]] by (simp add: receive_datagrams_def)
  with h x have "service_step cfg False ccfg w (w\<lparr>hosts := (hosts w)(a \<mapsto> ?h)\<rparr>)" (is "service_step _ _ _ _ ?w")
    by (intro service_step.host_receives [where x = x and h = h]) (simp_all del: client_step.simps)
  then have r: "runs cfg ccfg w ?w" by simp
  have "attends cfg ccfg a k ?w" using serving_runs [OF r s] at by (simp add: attends_def)
  moreover have "strategy_of ccfg ?w a = c" by (simp add: strategy_of_def)
  ultimately show ?thesis using r by (intro exI [of _ ?w]) (simp add: host_sent_def)
qed

text \<open>The data of a worker that waits.\<close>

lemma waiting_worker:
  assumes at: "attends cfg ccfg a k w" and p: "place (workers (srv w) ! k) = K_Wait"
    and f: "file_of cfg (req_file_name (ccfg a)) = Some contents"
  obtains r where "rdt (workers (srv w) ! k) = Some r" "window r \<noteq> []"
    "sinv_of cfg (chunks contents) (received (strategy_of ccfg w a))
      (timer_place (workers (srv w) ! k)) (r\<lparr>sender := link (srv w)\<rparr>)"
    "live_of (chunks contents) (r\<lparr>sender := link (srv w)\<rparr>)"
    "cl_inv (chunks contents) (strategy_of ccfg w a)" "\<not> cl_done (strategy_of ccfg w a)"
    "file_path (workers (srv w) ! k) = req_file_name (ccfg a)"
proof -
  let ?wk = "workers (srv w) ! k"
  have s: "serving cfg ccfg w" and k: "k < length (workers (srv w))" and a: "peer ?wk = a" using at by (auto simp: attends_def)
  note inv = servingD(4) [OF s]
  obtain r where r: "rdt ?wk = Some r" using worker_at(1) [OF inv k] p by (auto simp: worker_ok_def split: option.splits)
  have mem: "?wk \<in> set (workers (srv w))" using k by simp
  then have fp: "file_path ?wk = req_file_name (ccfg a)" using inv a unfolding service_inv_def by blast
  obtain c where "file_of cfg (file_path ?wk) = Some c"
    "session_inv (sinv_of cfg) (quiet_of cfg) (chunks c) (session_of ccfg w ?wk r)"
    by (rule running_session [OF inv k r])
  then have "cl_inv (chunks contents) (strategy_of ccfg w a)" "\<not> cl_done (strategy_of ccfg w a)"
    using f fp p a by (auto simp: session_inv_def session_of_def)
  then show ?thesis using active_worker [OF servingD(3) [OF s] k r f [folded fp]] p a r fp by (intro that) simp_all
qed

lemma client_acknowledges:
  assumes at: "attends cfg ccfg a k w" and p: "place (workers (srv w) ! k) = K_Wait"
    and f: "file_of cfg (req_file_name (ccfg a)) = Some contents" and u: "window_usable (ccfg a)"
    and r: "rdt (workers (srv w) ! k) = Some r"
  defines "i \<equiv> Suc (unat (packets_sent r))"
  shows "\<exists>w'. runs cfg ccfg w w' \<and> srv w' = srv w \<and> attends cfg ccfg a k w' \<and> i \<le> length (chunks contents) \<and>
    received (strategy_of ccfg w' a) i \<and> ack_wire (of_nat i) \<in> set (host_sent (the (hosts w' a)))"
proof -
  let ?c = "strategy_of ccfg w a" and ?ds = "chunks contents"
  have s: "serving cfg ccfg w" and k: "k < length (workers (srv w))" and a: "peer (workers (srv w) ! k) = a"
    using at by (auto simp: attends_def)
  from waiting_worker [OF at p f] r have w: "window r \<noteq> []"
    and si: "sinv_of cfg ?ds (received ?c) (timer_place (workers (srv w) ! k)) (r\<lparr>sender := link (srv w)\<rparr>)"
    and lv: "live_of ?ds (r\<lparr>sender := link (srv w)\<rparr>)"
    and cl: "cl_inv ?ds ?c" "\<not> cl_done ?c" by (metis option.inject)+
  from served_waits.front_posted [OF si lv] w have fp: "unat (packets_sent r) < length ?ds"
    "\<forall>j. 1 \<le> j \<and> j \<le> unat (packets_sent r) \<longrightarrow> received ?c j" "data_wire_of ?ds i \<in> set (sent r)" by (simp_all add: i_def)
  have i: "1 \<le> i" "i \<le> length ?ds" using fp(1) by (simp_all add: i_def)
  have "i \<le> unat (expected_seqno ?c)" using received_expected [OF cl(1) fp(2,1)] by (simp add: i_def Suc_le_eq)
  from run_acks [OF cl(1) i this client_window [OF s u]] obtain c where
    c: "sr_client_run (Some (data_wire_of ?ds i)) ?c = Inr c" "ack_wire (of_nat i) \<in> set (cl_sent c)" by blast
  have "workers (srv w) ! k \<in> set (workers (srv w))" using k by simp
  then have "from_server w a (data_wire_of ?ds i)" using fp(3) a r by (force simp: from_server_def)
  from client_receives [OF at this c(1) cl(2)] obtain w' where
    w': "runs cfg ccfg w w'" "srv w' = srv w" "attends cfg ccfg a k w'" "strategy_of ccfg w' a = c"
      "set (cl_sent c) \<subseteq> set (host_sent (the (hosts w' a)))" by blast
  have "cl_inv ?ds c"
    using waiting_worker [OF w'(3) _ f] p w'(2,4) by metis
  then have "received c i" using acknowledged_received i(2) c(2) by blast
  then show ?thesis using w' i(2) c(2) by blast
qed

text \<open>The worker takes the acknowledgement and looks at its window again.\<close>

lemma worker_acknowledges:
  assumes at: "attends cfg ccfg a k w" and p: "place (workers (srv w) ! k) = K_Wait"
    and f: "file_of cfg (req_file_name (ccfg a)) = Some contents"
    and r: "rdt (workers (srv w) ! k) = Some r" and i: "i = Suc (unat (packets_sent r))" "i \<le> length (chunks contents)"
    and R: "received (strategy_of ccfg w a) i" and q: "waiting_acks k (srv w) = [mk_ack (of_nat i)]"
  shows "\<exists>w'. runs cfg ccfg w w' \<and> attends cfg ccfg a k w' \<and>
    (place (workers (srv w') ! k) = K_Finish \<or> rests k (srv w') \<and>
      (\<exists>r'. rdt (workers (srv w') ! k) = Some r' \<and> unat (packets_sent r) < unat (packets_sent r')))"
proof -
  let ?wk = "workers (srv w) ! k" and ?ds = "chunks contents"
  have k: "k < length (workers (srv w))" using at by (simp add: attends_def)
  from waiting_worker [OF at p f] r have w: "window r \<noteq> []"
    and si: "sinv_of cfg ?ds (received (strategy_of ccfg w a)) (timer_place ?wk) (r\<lparr>sender := link (srv w)\<rparr>)"
    and lv: "live_of ?ds (r\<lparr>sender := link (srv w)\<rparr>)"
    and cl: "cl_inv ?ds (strategy_of ccfg w a)" by (metis option.inject)+
  obtain s1 where 1: "worker_step cfg k (srv w) = Inr s1" "workers s1 ! k = ?wk\<lparr>place := K_Acknowledge (mk_ack (of_nat i))\<rparr>"
    "waiting_acks k s1 = []" "link s1 = link (srv w)"
    using wait_moves [OF p q k, of cfg] p by (auto simp: worker_step_def Let_def split: prod.splits list.splits)
  note at1 = attends_runs [OF at 1(1)]
  have k1: "k < length (workers s1)" using at1(2) by (simp add: attends_def)
  have "succeeds (worker_step cfg k (srv (w\<lparr>srv := s1\<rparr>)))"
    using at1(2) 1(2) by (intro worker_succeeds [where ccfg = ccfg, OF servingD(4)]) (simp_all add: attends_def)
  then obtain s2 where st2: "worker_step cfg k s1 = Inr s2" by (auto simp: succeeds_def)
  then have on: "on_strategy k (acknowledge cfg (server_mode cfg) (mk_ack (of_nat i))) K_Check s1 = Inr s2"
    using 1(2) timer_class_of [OF disjI1 [OF si]] by (simp add: worker_step_def Let_def)
  then obtain r' where r': "acknowledge cfg (server_mode cfg) (mk_ack (of_nat i)) (r\<lparr>sender := link (srv w)\<rparr>) = Inr r'" "rdt (workers s2 ! k) = Some r'"
    using 1(2,4) r k1 by (auto elim!: on_strategyE)
  have less: "unat (packets_sent r) < unat (packets_sent r')"
    using served_waits.front_moves [OF si lv, of r'] r'(1) w R by (simp add: i(1))
  note at2 = attends_runs [OF at1(2), simplified, OF st2]
  have k2: "k < length (workers s2)" using at2(2) by (simp add: attends_def)
  note m2 = on_strategy_moves [OF on k1]
  obtain s3 where 3: "worker_step cfg k s2 = Inr s3" "waiting_acks k s3 = []"
    "workers s3 ! k = (workers s2 ! k)\<lparr>rdt := Some (snd (is_done r')), place := if fst (is_done r') then K_Finish else K_Wait\<rparr>"
    using check_moves [OF m2(1) r'(2) k2, of cfg] m2(2) 1(3) by auto
  note at3 = attends_runs [OF at2(2), simplified, OF 3(1)]
  have "runs cfg ccfg w (w\<lparr>srv := s3\<rparr>)" using at1(1) at2(1) at3(1) by (meson rtranclp_trans)
  then show ?thesis using at3(2) 3 less by (intro exI [of _ "w\<lparr>srv := s3\<rparr>"]) (auto simp: rests_def)
qed

end
