(* ===== verification/Service_Completion.thy ===== *)
theory Service_Completion
  imports Service_Progress
begin

text \<open>
  From every state of the service over a link that loses nothing, every client can be brought to
  the end: round after round until the window is empty, the terminal packet, and the closed file.
\<close>

section \<open>All rounds\<close>

lemma one_round:
  assumes at: "attends cfg ccfg a k w" and p: "rests k (srv w)" "\<not> finished k (srv w)"
    and f: "file_of cfg (req_file_name (ccfg a)) = Some contents" and u: "window_usable (ccfg a)"
    and r: "rdt (workers (srv w) ! k) = Some r"
  shows "unat (packets_sent r) < length (chunks contents) \<and>
    (\<exists>w'. runs cfg ccfg w w' \<and> attends cfg ccfg a k w' \<and>
      (place (workers (srv w') ! k) = K_Finish \<or> rests k (srv w') \<and>
        (\<exists>r'. rdt (workers (srv w') ! k) = Some r' \<and> unat (packets_sent r) < unat (packets_sent r'))))"
proof -
  define i where "i = Suc (unat (packets_sent r))"
  have pl: "place (workers (srv w) ! k) = K_Wait" and q: "waiting_acks k (srv w) = []"
    using p by (auto simp: rests_def)
  obtain w1 where w1: "runs cfg ccfg w w1" "srv w1 = srv w" "attends cfg ccfg a k w1" "i \<le> length (chunks contents)"
    "received (strategy_of ccfg w1 a) i" "ack_wire (of_nat i) \<in> set (host_sent (the (hosts w1 a)))"
    using client_acknowledges [OF at pl f u r] unfolding i_def by blast
  have "ack_packet_of_buffer (ack_wire (of_nat i)) = Inr (mk_ack (of_nat i))"
    using ack_packet_of_wire [of "of_nat i" "[]"] by simp
  from ack_is_passed_on [OF w1(3,6) this] obtain s2 where s2: "runs cfg ccfg w1 (w1\<lparr>srv := s2\<rparr>)" "main_place s2 = M_Receive"
    "workers s2 = workers (srv w1)" "waiting_acks k s2 = waiting_acks k (srv w1) @ [mk_ack (of_nat i)]" by blast
  let ?w2 = "w1\<lparr>srv := s2\<rparr>"
  have "attends cfg ccfg a k ?w2" using serving_runs [OF s2(1)] w1(3) s2(2,3) by (simp add: attends_def)
  moreover have "strategy_of ccfg ?w2 a = strategy_of ccfg w1 a" by (simp add: strategy_of_def)
  ultimately obtain w' where "runs cfg ccfg ?w2 w'" "attends cfg ccfg a k w'"
    "place (workers (srv w') ! k) = K_Finish \<or> rests k (srv w') \<and>
      (\<exists>r'. rdt (workers (srv w') ! k) = Some r' \<and> unat (packets_sent r) < unat (packets_sent r'))"
    using worker_acknowledges [of cfg ccfg a k ?w2 contents r i] f i_def w1 s2 pl q r by auto
  moreover have "runs cfg ccfg w ?w2" using w1(1) s2(1) by (rule rtranclp_trans)
  ultimately show ?thesis using w1(4) i_def by (meson Suc_le_eq rtranclp_trans)
qed

lemma worker_finishes:
  assumes at: "attends cfg ccfg a k w" and p: "place (workers (srv w) ! k) = K_Finish"
  shows "\<exists>w'. runs cfg ccfg w w' \<and> attends cfg ccfg a k w' \<and> finished k (srv w')"
proof -
  have k: "k < length (workers (srv w))" and s: "serving cfg ccfg w" using at by (simp_all add: attends_def)
  obtain s' where st: "worker_step cfg k (srv w) = Inr s'"
    using worker_succeeds [OF servingD(4) [OF s] k] p by (auto simp: succeeds_def)
  then have "on_strategy k send_empty_packet K_Finalize (srv w) = Inr s'" using p by (simp add: worker_step_def Let_def)
  then have "finished k s'" using on_strategy_moves(1) [OF _ k] by (auto simp: finished_def)
  then show ?thesis using attends_runs [OF at st] by (intro exI [of _ "w\<lparr>srv := s'\<rparr>"]) simp
qed

lemma all_rounds:
  assumes f: "file_of cfg (req_file_name (ccfg a)) = Some contents" and u: "window_usable (ccfg a)"
  shows "attends cfg ccfg a k w \<Longrightarrow> rests k (srv w) \<Longrightarrow> rdt (workers (srv w) ! k) = Some r \<Longrightarrow>
    \<exists>w'. runs cfg ccfg w w' \<and> attends cfg ccfg a k w' \<and> finished k (srv w')"
proof (induction "length (chunks contents) - unat (packets_sent r)" arbitrary: w r rule: less_induct)
  case less
  show ?case
  proof (cases "finished k (srv w)")
    case True
    then show ?thesis using less.prems by blast
  next
    case False
    note o = one_round [OF less.prems(1,2) False f u less.prems(3)]
    then obtain w1 where w1: "runs cfg ccfg w w1" "attends cfg ccfg a k w1"
      "place (workers (srv w1) ! k) = K_Finish \<or> rests k (srv w1) \<and>
        (\<exists>r'. rdt (workers (srv w1) ! k) = Some r' \<and> unat (packets_sent r) < unat (packets_sent r'))" by blast
    from w1(3) have "\<exists>w'. runs cfg ccfg w1 w' \<and> attends cfg ccfg a k w' \<and> finished k (srv w')"
    proof
      assume "rests k (srv w1) \<and>
        (\<exists>r'. rdt (workers (srv w1) ! k) = Some r' \<and> unat (packets_sent r) < unat (packets_sent r'))"
      then obtain r' where r': "rests k (srv w1)" "rdt (workers (srv w1) ! k) = Some r'"
        "unat (packets_sent r) < unat (packets_sent r')" by blast
      show ?thesis by (rule less.hyps [OF _ w1(2) r'(1,2)]) (rule diff_less_mono2 [OF r'(3) conjunct1 [OF o]])
    qed (rule worker_finishes [OF w1(2)])
    then show ?thesis using w1(1) by (meson rtranclp_trans)
  qed
qed

section \<open>The end\<close>

definition closed_at :: "sockaddr_in \<Rightarrow> service \<Rightarrow> bool" where
  "closed_at a w \<longleftrightarrow> (\<exists>h c. hosts w a = Some h \<and> client_at h = C_Closed c)"

definition ended_for :: "sockaddr_in \<Rightarrow> service \<Rightarrow> bool" where
  "ended_for a w \<longleftrightarrow> (\<exists>wk \<in> set (workers (srv w)). peer wk = a \<and> place wk = K_Ended)"

text \<open>A worker whose thread has been recorded marks itself done.\<close>

lemma worker_ends:
  assumes at: "attends cfg ccfg a k w" and fin: "finished k (srv w)"
  shows "\<exists>w'. runs cfg ccfg w w' \<and> attends cfg ccfg a k w' \<and> finished k (srv w') \<and> ended_for a w'"
proof (cases "place (workers (srv w) ! k) = K_Ended")
  case True
  then have "ended_for a w" using at by (auto simp: attends_def ended_for_def)
  then show ?thesis using at fin by blast
next
  case False
  let ?wk = "workers (srv w) ! k"
  have k: "k < length (workers (srv w))" and s: "serving cfg ccfg w" and m: "main_place (srv w) = M_Receive"
    using at by (simp_all add: attends_def)
  have p: "place ?wk = K_Finalize" using False fin by (simp add: finished_def)
  have "?wk \<in> set (workers (srv w))" using k by simp
  then obtain t where "working_threads (srv w) (thread ?wk) = Some (Some t)"
    using servingD(3) [OF s] m by (auto simp: lively_def recorded_inv_def)
  then obtain s' where st: "worker_step cfg k (srv w) = Inr s'" "workers s' = (workers (srv w))[k := ?wk\<lparr>place := K_Ended\<rparr>]"
    using p by (auto simp: worker_step_def Let_def finalize_worker_thread_def index_map_def)
  note n = attends_runs [OF at st(1)]
  have e: "place (workers s' ! k) = K_Ended" and k': "k < length (workers s')" using st(2) k by simp_all
  then have "finished k s'" by (simp add: finished_def)
  moreover have "peer (workers s' ! k) = a" using n(2) by (simp add: attends_def)
  then have "ended_for a (w\<lparr>srv := s'\<rparr>)" using e k' by (auto simp: ended_for_def)
  ultimately show ?thesis using n by (intro exI [of _ "w\<lparr>srv := s'\<rparr>"]) simp
qed

text \<open>When the worker has finished, the terminal packet ends the client's loop, and it closes its file.\<close>

lemma client_closes:
  assumes at: "attends cfg ccfg a k w" and d: "cl_done (strategy_of ccfg w a)"
  shows "\<exists>w'. runs cfg ccfg w w' \<and> closed_at a w' \<and> srv w' = srv w"
proof -
  have s: "serving cfg ccfg w" and k: "k < length (workers (srv w))" "peer (workers (srv w) ! k) = a"
    using at by (simp_all add: attends_def)
  obtain h where h: "hosts w a = Some h" "client_at h \<noteq> C_Waiting" using at by (auto simp: attends_def)
  show ?thesis
  proof (cases "client_at h")
    case (C_Receiving c)
    then have c: "cl_done c" using d h(1) by (simp add: strategy_of_def)
    have "a \<in> peer ` set (workers (srv w))" using k by force
    then have "a \<in> fst ` set (handshakes (srv w))" using servingD(6) [OF s] unfolding greeted_def by blast
    then obtain x where "(a, x) \<in> set (handshakes (srv w))" by force
    then have x: "from_server w a x" by (simp add: from_server_def)
    have "client_step (ccfg a) (Received (Some x)) h =
        Inr (h\<lparr>client_at := C_Closed (c\<lparr>writer := fw_close (writer c)\<rparr>)\<rparr>)" (is "_ = Inr ?h")
      by (simp add: C_Receiving receive_datagrams_def c)
    with h x have "service_step cfg False ccfg w (w\<lparr>hosts := (hosts w)(a \<mapsto> ?h)\<rparr>)"
      by (intro service_step.host_receives [where x = x and h = h]) (simp_all del: client_step.simps)
    then show ?thesis by (intro exI [of _ "w\<lparr>hosts := (hosts w)(a \<mapsto> ?h)\<rparr>"]) (simp add: closed_at_def)
  next
    case (C_Closed c)
    then have "closed_at a w" using h(1) by (simp add: closed_at_def)
    then show ?thesis by blast
  qed (use h in simp)
qed

lemma client_finishes:
  assumes at: "attends cfg ccfg a k w" and fin: "finished k (srv w)" and u: "window_usable (ccfg a)"
  shows "\<exists>w'. runs cfg ccfg w w' \<and> closed_at a w' \<and> srv w' = srv w"
proof (cases "cl_done (strategy_of ccfg w a)")
  case True
  then show ?thesis using client_closes [OF at] by blast
next
  case False
  let ?wk = "workers (srv w) ! k" and ?c = "strategy_of ccfg w a"
  have s: "serving cfg ccfg w" and k: "k < length (workers (srv w))" and a: "peer ?wk = a" using at by (auto simp: attends_def)
  note inv = servingD(4) [OF s]
  obtain r where r: "rdt ?wk = Some r"
    using worker_at(1) [OF inv k] fin by (auto simp: worker_ok_def finished_def split: option.splits)
  obtain contents where "session_inv (sinv_of cfg) (quiet_of cfg) (chunks contents) (session_of ccfg w ?wk r)"
    by (rule running_session [OF inv k r])
  then have e: "ended (chunks contents) (received ?c) (r\<lparr>sender := link (srv w)\<rparr>)" and cl: "cl_inv (chunks contents) ?c"
    using fin a by (auto simp: session_inv_def session_of_def finished_def)
  then have all: "\<forall>i. 1 \<le> i \<and> i \<le> length (chunks contents) \<longrightarrow> received ?c i"
    and x: "terminal_wire (chunks contents) \<in> set (sent r)" by (simp_all add: ended_def all_received_def)
  have "below_window_end (of_nat (Suc (length (chunks contents)))) ?c"
    using expected_in_window [OF client_window [OF s u]] expected_all [OF cl all] by simp
  then obtain c where c: "sr_client_run (Some (terminal_wire (chunks contents))) ?c = Inr c" "cl_done c"
    using run_terminal [OF cl all] by (auto simp: terminal_wire_def)
  have "?wk \<in> set (workers (srv w))" using k by simp
  then have "from_server w a (terminal_wire (chunks contents))" using x a r by (force simp: from_server_def)
  from client_receives [OF at this c(1) False] obtain w1 where
    w1: "runs cfg ccfg w w1" "srv w1 = srv w" "attends cfg ccfg a k w1" "strategy_of ccfg w1 a = c" by blast
  then show ?thesis using client_closes [OF w1(3)] c(2) by (metis rtranclp_trans)
qed

section \<open>From any state to the end\<close>

lemma attended_completes:
  assumes at: "attends cfg ccfg a k w" and f: "file_of cfg (req_file_name (ccfg a)) = Some contents"
    and u: "window_usable (ccfg a)"
  shows "\<exists>w'. runs cfg ccfg w w' \<and> closed_at a w' \<and> ended_for a w'"
proof -
  have s: "serving cfg ccfg w" and k: "k < length (workers (srv w))" and a: "peer (workers (srv w) ! k) = a"
    using at by (auto simp: attends_def)
  have "workers (srv w) ! k \<in> set (workers (srv w))" using k by simp
  then have fp: "file_path (workers (srv w) ! k) = req_file_name (ccfg a)"
    using servingD(4) [OF s] a unfolding service_inv_def by blast
  obtain w1 where w1: "runs cfg ccfg w w1" "attends cfg ccfg a k w1" "place (workers (srv w1) ! k) \<noteq> K_Start"
  proof (cases "place (workers (srv w) ! k) = K_Start")
    case True
    from worker_starts [OF s k True f [folded fp]] obtain s' where
      s': "worker_step cfg k (srv w) = Inr s'" "place (workers s' ! k) = K_Check" by blast
    show ?thesis by (rule that [OF attends_runs [OF at s'(1)]]) (simp add: s'(2))
  next
    case False
    then show ?thesis using at that by blast
  qed
  obtain w2 where w2: "runs cfg ccfg w1 w2" "attends cfg ccfg a k w2" "rests k (srv w2)"
    using worker_comes_to_rest [OF w1(2,3)] by blast
  have "serving cfg ccfg w2" "k < length (workers (srv w2))" using w2(2) by (simp_all add: attends_def)
  then have "worker_ok cfg ccfg w2 (workers (srv w2) ! k)" using worker_at(1) servingD(4) by blast
  then obtain r where "rdt (workers (srv w2) ! k) = Some r"
    using w2(3) by (auto simp: worker_ok_def rests_def finished_def split: option.splits)
  from all_rounds [OF f u w2(2,3) this] obtain w3 where
    w3: "runs cfg ccfg w2 w3" "attends cfg ccfg a k w3" "finished k (srv w3)" by blast
  obtain w4 where w4: "runs cfg ccfg w3 w4" "attends cfg ccfg a k w4" "finished k (srv w4)" "ended_for a w4"
    using worker_ends [OF w3(2,3)] by blast
  obtain w5 where w5: "runs cfg ccfg w4 w5" "closed_at a w5" "srv w5 = srv w4" using client_finishes [OF w4(2,3) u] by blast
  have "runs cfg ccfg w w5" using w1(1) w2(1) w3(1) w4(1) w5(1) by (meson rtranclp_trans)
  moreover have "ended_for a w5" using w5(3) w4(4) by (simp add: ended_for_def)
  ultimately show ?thesis using w5(2) by blast
qed

lemma has_worker_completes:
  assumes s: "serving cfg ccfg w" and h: "hosts w a \<noteq> None" and k: "k < length (workers (srv w))"
    and a: "peer (workers (srv w) ! k) = a" and f: "file_of cfg (req_file_name (ccfg a)) = Some contents"
    and u: "window_usable (ccfg a)"
  shows "\<exists>w'. runs cfg ccfg w w' \<and> closed_at a w' \<and> ended_for a w'"
proof -
  obtain h0 where "hosts w a = Some h0" using h by blast
  from client_starts [OF s this k a] obtain h1 where
    h1: "runs cfg ccfg w (w\<lparr>hosts := (hosts w)(a \<mapsto> h1)\<rparr>)" "client_at h1 \<noteq> C_Waiting" by blast
  let ?w1 = "w\<lparr>hosts := (hosts w)(a \<mapsto> h1)\<rparr>"
  obtain s' where s': "runs cfg ccfg ?w1 (?w1\<lparr>srv := s'\<rparr>)" "main_place s' = M_Receive"
    "prefix (workers (srv ?w1)) (workers s')"
    using main_returns by blast
  have r: "runs cfg ccfg w (?w1\<lparr>srv := s'\<rparr>)" using h1(1) s'(1) by (rule rtranclp_trans)
  have "attends cfg ccfg a k (?w1\<lparr>srv := s'\<rparr>)"
    using serving_runs [OF r s] s'(2,3) k a h1(2) by (auto simp: attends_def prefix_def nth_append)
  from attended_completes [OF this f u] r show ?thesis by (meson rtranclp_trans)
qed

lemma lively_completes:
  assumes s: "serving cfg ccfg w" and h: "hosts w a \<noteq> None"
    and f: "file_of cfg (req_file_name (ccfg a)) = Some contents" and u: "window_usable (ccfg a)"
  shows "\<exists>w'. runs cfg ccfg w w' \<and> closed_at a w' \<and> ended_for a w'"
proof -
  obtain s' where s': "runs cfg ccfg w (w\<lparr>srv := s'\<rparr>)" "main_place s' = M_Receive"
    using main_returns by blast
  let ?w1 = "w\<lparr>srv := s'\<rparr>"
  note s1 = serving_runs [OF s'(1) s]
  show ?thesis
  proof (cases "\<exists>wk \<in> set (workers s'). peer wk = a")
    case True
    then obtain k where k: "k < length (workers (srv ?w1))" "peer (workers (srv ?w1) ! k) = a" by (auto simp: in_set_conv_nth)
    have "hosts ?w1 a \<noteq> None" using h by simp
    from has_worker_completes [OF s1 this k f u] obtain w' where "runs cfg ccfg ?w1 w'" "closed_at a w'" "ended_for a w'" by blast
    then show ?thesis using rtranclp_trans [OF s'(1)] by blast
  next
    case False
    obtain h0 where "hosts ?w1 a = Some h0" using h by auto
    from worker_is_created [OF s1 _ this] False s'(2) obtain w2 k where
      w2: "runs cfg ccfg ?w1 w2" "hosts w2 a \<noteq> None" "k < length (workers (srv w2))" "peer (workers (srv w2) ! k) = a" by auto
    from has_worker_completes [OF serving_runs [OF w2(1) s1] w2(2-4) f u] w2(1) s'(1) show ?thesis
      by (meson rtranclp_trans)
  qed
qed

section \<open>Every client can be served\<close>

lemma reachable_lively:
  assumes cfg: "serves cfg" and fit: "\<And>a. fits cfg (ccfg a)"
    and r: "service_reachable cfg False ccfg w" and l: "loss_probability (link (srv w)) \<le> 0"
  shows "lively cfg ccfg w"
proof -
  have "reachable service_start (service_step cfg False ccfg) w" using r by (simp add: service_reachable_def)
  then have "loss_probability (link (srv w)) \<le> 0 \<longrightarrow> lively cfg ccfg w"
  proof (induction rule: reachable.induct)
    case (reachable_start w)
    then show ?case using start_lively [where ccfg = ccfg, OF cfg fit] by blast
  next
    case (reachable_step w w')
    from reachable_step(2) have "loss_probability (link (srv w')) = loss_probability (link (srv w))"
      by (auto simp: loss_probability_is_constant elim!: service_stepE)
    then show ?case using lively_step [where ccfg = ccfg, OF cfg fit _ reachable_step(2)] reachable_step.IH by simp
  qed
  then show ?thesis using l by simp
qed

lemma client_begins:
  assumes f: "fits cfg (ccfg a)" and a: "sin_family a = AF_INET"
  shows "\<exists>w'. runs cfg ccfg w w' \<and> hosts w' a \<noteq> None"
proof (cases "hosts w a")
  case None
  obtain h where "client_begin (ccfg a) = Inr h"
    using f by (auto simp: client_begin_def create_req_datagram_def fits_def pack_mk_packet)
  with None a have "service_step cfg False ccfg w (w\<lparr>hosts := (hosts w)(a \<mapsto> h)\<rparr>)" by (rule service_step.host_begins)
  then show ?thesis by (intro exI [of _ "w\<lparr>hosts := (hosts w)(a \<mapsto> h)\<rparr>"]) auto
next
  case Some
  then show ?thesis by blast
qed

text \<open>A client that has closed its file stays so, and so does a worker that has ended.\<close>

lemma closed_stays:
  assumes "runs cfg ccfg w w'" "closed_at a w"
  shows "closed_at a w'"
  using assms
proof (induction rule: rtranclp_induct)
  case (step y z)
  then show ?case by (auto simp: closed_at_def elim!: service_stepE)
qed simp

lemma own_keeps_ended:
  assumes own: "own_step k s s'" and e: "wk \<in> set (workers s)" "peer wk = a" "place wk = K_Ended"
    and p: "place (workers s ! k) = K_Ended \<Longrightarrow> place (workers s' ! k) = K_Ended" and k: "k < length (workers s)"
  shows "\<exists>wk \<in> set (workers s'). peer wk = a \<and> place wk = K_Ended"
proof -
  obtain w' where w': "workers s' = (workers s)[k := w']" "peer w' = peer (workers s ! k)"
    using own by (auto simp: own_step_def same_worker_def)
  obtain j where j: "j < length (workers s)" "workers s ! j = wk" using e(1) by (auto simp: in_set_conv_nth)
  have "peer (workers s' ! j) = a \<and> place (workers s' ! j) = K_Ended"
    using w' j e(2,3) p k by (cases "j = k") auto
  then show ?thesis using j(1) w'(1) by (intro bexI [of _ "workers s' ! j"]) simp_all
qed

lemma server_keeps_ended:
  assumes e: "wk \<in> set (workers s)" "peer wk = a" "place wk = K_Ended" and st: "server_step cfg reuse arrives s s'"
  shows "\<exists>wk \<in> set (workers s'). peer wk = a \<and> place wk = K_Ended"
  using st
proof cases
  case (main_receives b d)
  then have "workers s' = workers s" by (auto elim!: server_receive_cases)
  then show ?thesis using e by auto
next
  case (main_continues pc tid)
  then show ?thesis using e set_mono_prefix [OF main_moves(2), of s cfg tid pc] by blast
next
  case (worker_steps k)
  show ?thesis by (rule own_keeps_ended [OF worker_step_own [OF worker_steps] e])
    (use worker_steps in \<open>auto simp: worker_step_def Let_def\<close>)
next
  case (timer_steps k)
  show ?thesis by (rule own_keeps_ended [OF timer_step_own(1) [OF timer_steps(2)] e])
    (use timer_steps in \<open>auto simp: timer_step_def Let_def rbind_Inr_iff split: option.splits if_splits\<close>)
qed

lemma ended_stays:
  assumes "runs cfg ccfg w w'" "ended_for a w"
  shows "ended_for a w'"
  using assms
proof (induction rule: rtranclp_induct)
  case (step y z)
  then have "ended_for a y" by blast
  with step(2) show ?case
    by (cases rule: service_step.cases) (auto simp: ended_for_def intro: server_keeps_ended)
qed simp

lemma all_complete:
  assumes A: "finite A" "\<And>a. a \<in> A \<Longrightarrow> sin_family a = AF_INET \<and> window_usable (ccfg a) \<and>
      file_of cfg (req_file_name (ccfg a)) \<noteq> None"
    and s: "serving cfg ccfg w"
  shows "\<exists>w'. runs cfg ccfg w w' \<and> (\<forall>a \<in> A. closed_at a w' \<and> ended_for a w')"
  using A
proof (induction A rule: finite_induct)
  case (insert a A)
  obtain w1 where w1: "runs cfg ccfg w w1" "\<forall>a \<in> A. closed_at a w1 \<and> ended_for a w1" using insert by auto
  obtain contents where c: "sin_family a = AF_INET" "window_usable (ccfg a)"
    "file_of cfg (req_file_name (ccfg a)) = Some contents" using insert.prems by auto
  obtain w2 where w2: "runs cfg ccfg w1 w2" "hosts w2 a \<noteq> None"
    using client_begins [where ccfg = ccfg, OF servingD(2) [OF s] c(1)] by blast
  have r2: "runs cfg ccfg w w2" using w1(1) w2(1) by (rule rtranclp_trans)
  obtain w3 where w3: "runs cfg ccfg w2 w3" "closed_at a w3" "ended_for a w3"
    using lively_completes [OF serving_runs [OF r2 s] w2(2) c(3,2)] by blast
  have r13: "runs cfg ccfg w1 w3" using w2(1) w3(1) by (rule rtranclp_trans)
  then have "\<forall>b \<in> insert a A. closed_at b w3 \<and> ended_for b w3"
    using closed_stays [OF r13] ended_stays [OF r13] w1(2) w3(2,3) by blast
  then show ?case using rtranclp_trans [OF r2 w3(1)] by blast
qed blast

text \<open>
  C3: with selective repeat or stop-and-wait, usable clients and no reused thread name, as long as
  the link loses nothing, whatever the network, the scheduler and the clients have done so far, the
  service can go on so that every one of any finite set of clients that ask for files that exist,
  those that have not begun included, closes its file with exactly the contents it asked for, and
  its worker has ended; no thread waits for ever for another, or for an acknowledgement that cannot
  come. (From the last state of \<open>Service_Faults\<close>'s run with a reused name it cannot.)
\<close>

theorem service_can_complete:
  assumes "serves cfg" "\<And>b. fits cfg (ccfg b)" "service_reachable cfg False ccfg w"
    "loss_probability (link (srv w)) \<le> 0" "finite A"
    "\<And>a. a \<in> A \<Longrightarrow> sin_family a = AF_INET \<and> window_usable (ccfg a) \<and> file_of cfg (req_file_name (ccfg a)) \<noteq> None"
  shows "\<exists>w'. (service_step cfg False ccfg)\<^sup>*\<^sup>* w w' \<and>
    (\<forall>a \<in> A. (\<exists>h c. hosts w' a = Some h \<and> client_at h = C_Closed c \<and>
         file_of cfg (req_file_name (ccfg a)) = Some (host_file (ccfg a) h)) \<and>
       (\<exists>wk \<in> set (workers (srv w')). peer wk = a \<and> place wk = K_Ended))"
proof -
  have "serving cfg ccfg w" using assms(1,2) reachable_lively [OF assms(1-4)] by (simp add: serving_def)
  from all_complete [OF assms(5,6) this] obtain w' where w': "runs cfg ccfg w w'"
    "\<forall>a \<in> A. closed_at a w' \<and> ended_for a w'" by blast
  have "service_reachable cfg False ccfg w'"
    using assms(3) w'(1) unfolding service_reachable_def by (rule reachable_steps)
  from service_closed [OF assms(1,2) this] show ?thesis using w' unfolding closed_at_def ended_for_def by blast
qed

theorem service_can_complete_witness:
  "\<exists>w w' h h'. service_reachable (example_config SELECTIVE_REPEAT [104, 105]) False (example_clients SELECTIVE_REPEAT) w \<and>
     (service_step (example_config SELECTIVE_REPEAT [104, 105]) False (example_clients SELECTIVE_REPEAT))\<^sup>*\<^sup>* w w' \<and>
     hosts w' (example_host 1) = Some h \<and> hosts w' (example_host 2) = Some h' \<and>
     host_file (example_clients SELECTIVE_REPEAT (example_host 1)) h = [104, 105] \<and>
     host_file (example_clients SELECTIVE_REPEAT (example_host 2)) h' = [104, 105]"
proof -
  have "\<exists>w. example_state SELECTIVE_REPEAT False [104, 105] (take 13 (transfer_events 1 0 7)) = Some w \<and>
      loss_probability (link (srv w)) \<le> 0"
    by (simp add: run_defs transfer_events_def cong: rbind_weak_cong bind_weak_cong)
  then obtain w where w: "service_reachable (example_config SELECTIVE_REPEAT [104, 105]) False (example_clients SELECTIVE_REPEAT) w"
    "loss_probability (link (srv w)) \<le> 0" using example_reachable by blast
  let ?A = "{example_host 1, example_host 2}"
  have A: "finite ?A" by simp
  have c: "sin_family a = AF_INET \<and> window_usable (example_clients SELECTIVE_REPEAT a) \<and>
      file_of (example_config SELECTIVE_REPEAT [104, 105]) (req_file_name (example_clients SELECTIVE_REPEAT a)) \<noteq> None"
    if "a \<in> ?A" for a using that by (auto simp: window_usable_def example_clients_def example_request_def)
  obtain w' where
    w': "(service_step (example_config SELECTIVE_REPEAT [104, 105]) False (example_clients SELECTIVE_REPEAT))\<^sup>*\<^sup>* w w'"
      "\<forall>a \<in> ?A. \<exists>h. hosts w' a = Some h \<and>
        file_of (example_config SELECTIVE_REPEAT [104, 105]) (req_file_name (example_clients SELECTIVE_REPEAT a)) =
          Some (host_file (example_clients SELECTIVE_REPEAT a) h)"
    using service_can_complete [OF example_good example_fits w A c] by blast
  from w'(2) obtain h h' where
    "hosts w' (example_host 1) = Some h" "host_file (example_clients SELECTIVE_REPEAT (example_host 1)) h = [104, 105]"
    "hosts w' (example_host 2) = Some h'" "host_file (example_clients SELECTIVE_REPEAT (example_host 2)) h' = [104, 105]"
    by auto
  then show ?thesis using w(1) w'(1) by blast
qed

end
