(* ===== verification/Printing.thy ===== *)
theory Printing
  imports Progress Addresses
begin

text \<open>
  What the programs print: the two \<open>operator<<\<close> of \<open>shared\<close> and the statistics file of
  \<open>is_done\<close>. A stream is what has been written to it. Of a packet everything that goes over the
  wire can be read off what is printed, and of the statistics every value.
\<close>

section \<open>Packets\<close>

definition endl :: "byte list" where "endl = [10]"

definition rule_line :: "byte list" where
  "rule_line = bytes ''======================================='' @ endl"

definition print_data_packet :: "byte list \<Rightarrow> data_packet \<Rightarrow> byte list" where
  "print_data_packet strm packet =
     strm @ rule_line @
     decimal (unat (cksum packet)) @ endl @
     decimal (unat (len packet)) @ endl @
     decimal (unat (seqno packet)) @ endl @
     data packet @ endl @
     rule_line"

definition print_ack_packet :: "byte list \<Rightarrow> ack_packet \<Rightarrow> byte list" where
  "print_ack_packet strm packet =
     strm @ decimal (unat (ack_cksum packet)) @ endl @
     decimal (unat (ack_len packet)) @ endl @
     decimal (unat (ackno packet))"

section \<open>The statistics\<close>

text \<open>An \<open>int\<close> is printed with its sign.\<close>

definition print_int :: "int \<Rightarrow> byte list" where
  "print_int i = (if i < 0 then bytes ''-'' else []) @ decimal (nat \<bar>i\<bar>)"

text \<open>The file is opened anew each time, so this is all of it.\<close>

fun stats_text :: "int list \<times> 32 word \<times> nat \<Rightarrow> byte list" where
  "stats_text (history, packets, time_spent) =
     concat (map (\<lambda>wz. print_int wz @ endl) history) @
     bytes ''Packets sent: '' @ decimal (unat packets) @ endl @
     bytes ''Time spent: '' @ decimal time_spent @ bytes ''msec'' @ endl"

definition stats_file :: "rdt_strategy \<Rightarrow> byte list option" where
  "stats_file s = map_option stats_text (stats s)"

section \<open>What is printed can be read back\<close>

lemma decimal_bytes: "x \<in> set (decimal n) \<Longrightarrow> 48 \<le> unat x \<and> unat x \<le> 57"
  using decimal_digits digit_value by fastforce

lemma no_endl [simp]: "10 \<notin> set (decimal n)"
  using decimal_bytes [of 10 n] by auto

lemma decimal_iff: "decimal m = decimal n \<longleftrightarrow> m = n"
  using decimal_inj by auto

lemma print_int_no_endl [simp]: "10 \<notin> set (print_int i)"
  by (simp add: print_int_def bytes_def)

lemma print_int_inj: "print_int i = print_int j \<Longrightarrow> i = j"
proof -
  assume e: "print_int i = print_int j"
  have m: "bytes ''-'' = [45]" by (simp add: bytes_def)
  have h: "decimal n \<noteq> 45 # xs" for n xs using decimal_bytes [of 45 n] by fastforce
  show "i = j" using e h [of "nat \<bar>j\<bar>"] h [of "nat \<bar>i\<bar>"]
    by (auto simp: print_int_def m decimal_iff split: if_splits) (metis h)+
qed

lemma field_iff:
  "10 \<notin> set a \<Longrightarrow> 10 \<notin> set b \<Longrightarrow> a @ (10 :: byte) # r = b @ 10 # r' \<longleftrightarrow> a = b \<and> r = r'"
  using split_field [of a 10 r b r'] by blast

text \<open>Two acknowledgements that print alike are equal, and two data packets but for the local marks.\<close>

lemma print_ack_iff: "print_ack_packet strm p = print_ack_packet strm q \<longleftrightarrow> p = q"
  by (cases p; cases q) (auto simp: print_ack_packet_def endl_def field_iff decimal_iff unsigned_word_eqI)

lemma print_data_iff:
  "print_data_packet strm p = print_data_packet strm q \<longleftrightarrow>
   cksum p = cksum q \<and> len p = len q \<and> seqno p = seqno q \<and> data p = data q"
  by (auto simp: print_data_packet_def endl_def field_iff decimal_iff unsigned_word_eqI)

text \<open>The values of the statistics can be read off the file.\<close>

lemma print_int_head: "print_int i \<noteq> 80 # xs"
proof -
  have "decimal n \<noteq> 80 # xs" for n using decimal_bytes [of 80 n] by fastforce
  then show ?thesis by (simp add: print_int_def bytes_def)
qed

lemma print_int_neq_Nil: "print_int i \<noteq> []"
  by (simp add: print_int_def)

lemma print_int_line: "print_int i @ 10 # xs \<noteq> 80 # ys"
  using print_int_head [of i] print_int_neq_Nil [of i] by (auto simp: append_eq_Cons_conv)

lemma history_lines:
  "concat (map (\<lambda>wz. print_int wz @ endl) h) @ 80 # r = concat (map (\<lambda>wz. print_int wz @ endl) h') @ 80 # r' \<longleftrightarrow>
    h = h' \<and> r = r'"
proof (induction h arbitrary: h')
  case Nil
  show ?case
  proof (cases h')
    case (Cons a as)
    then show ?thesis using print_int_line by (auto simp: endl_def) (metis print_int_line)
  qed simp
next
  case (Cons i h)
  show ?case
  proof (cases h')
    case Nil
    then show ?thesis using print_int_line by (auto simp: endl_def)
  next
    case (Cons j as)
    have "(print_int i = print_int j) = (i = j)" using print_int_inj by blast
    then show ?thesis using Cons.IH [of as] by (simp add: Cons endl_def field_iff)
  qed
qed

lemma stats_lines_iff:
  "concat (map (\<lambda>wz. print_int wz @ endl) h) @ (80 # p) @ decimal n @ endl @ q @ decimal t @ r =
   concat (map (\<lambda>wz. print_int wz @ endl) h') @ (80 # p) @ decimal n' @ endl @ q @ decimal t' @ r \<longleftrightarrow>
   h = h' \<and> n = n' \<and> t = t'"
  by (simp add: endl_def history_lines [unfolded endl_def] field_iff decimal_iff)

lemma stats_file_iff: "stats_file s = stats_file s' \<longleftrightarrow> stats s = stats s'"
proof -
  obtain p where p: "bytes ''Packets sent: '' = 80 # p" by (simp add: bytes_def)
  show ?thesis
    by (cases "stats s"; cases "stats s'")
       (auto simp: stats_file_def p stats_lines_iff [unfolded append_Cons] split_def prod_eq_iff unsigned_word_eqI)
qed

text \<open>
  The number of packets in the statistics is that of the packets of the file, each counted when it
  leaves the window: what has been sent again, and the empty packet, are not in it.
\<close>

lemma statistics_count_packets:
  assumes t: "transfer_reachable contents lnk n t" "\<not> over t" and w: "window (server t) = []"
  shows "\<exists>time_spent. stats_file (snd (is_done (server t))) =
    Some (stats_text (window_size_history (server t), of_nat ((length contents + 499) div 500), time_spent))"
proof -
  have inv: "sr_inv (chunks contents) (received (client t)) (server t)"
    using reachable_inv [OF t(1)] t(2) by (simp add: session_inv_def)
  have "packets_sent (server t) = of_nat (unat (packets_sent (server t)))" by simp
  then have "packets_sent (server t) = of_nat ((length contents + 499) div 500)"
    by (simp only: sr_front_all [OF inv w] length_chunks)
  then show ?thesis using w by (simp add: stats_file_def is_done_def now_def Let_def) blast
qed

end
