(* ===== verification/Spec2Isabelle.thy ===== *)
theory Spec2Isabelle
  imports Stop_And_Wait_Properties Go_Back_N_Properties Timer_Race Wire_Properties Server_Properties Sender_Properties Client_Properties
    Service_Refinement Server_Threads Service_Faults Arguments_Properties Dummy_Client
    Service_Go_Back_N Service_Completion Printing
begin

text \<open>
  A verification development of the reliable-data-transfer programs under \<open>src/\<close>: a server that
  sends files over UDP, a client that asks for one, and the strategies both use to survive a
  network that loses datagrams. The theories model the C++ code function by function and prove
  what the programs achieve together, what each part contributes, and where the code fails.

  \<^bold>\<open>The program.\<close> The server (\<open>server/server.cpp\<close>) receives datagrams in one thread. A
  datagram from an unknown address is a request: it is answered with an empty packet (the
  handshake) and a worker thread is started for the address. A datagram from a known address is
  an acknowledgement: it is put into the queue of the address' worker. A worker constructs a
  sending strategy (\<open>server/strategy\<close>), which reads the file through \<open>server/filereader\<close>, keeps
  the packets on their way in a window, sends them through the lossy link
  (\<open>server/packet_sender.cpp\<close>) and starts a thread that sends the oldest again when it has not
  been acknowledged for a second. When the window is empty the worker sends an empty packet. The
  client (\<open>client/client.cpp\<close>) repeats its request until something comes back, and then gives
  each datagram to a receiving strategy (\<open>client/strategy\<close>), which writes the data in order
  through \<open>client/filewriter\<close> and acknowledges it.

  \<^bold>\<open>The code and its theories.\<close>
  \<^item> \<open>Prelude\<close>: the faults as values (\<open>error\<close>, \<open>'a res\<close>), the bind with its rules, reachability
    and the locale \<open>inv_system\<close> of an invariant of a step relation.
  \<^item> \<open>Packets\<close>: \<open>shared/packet_util\<close>, \<open>shared/data_packet\<close>, \<open>shared/ack_packet\<close>: the two wire
    formats, checksums at their width, mutators. Locale \<open>wire_format\<close>, interpreted for both.
  \<^item> \<open>Cxx_Set\<close>: \<open>std::set\<close> with the comparators of \<open>shared/data_packet.h\<close>, in which elements the
    comparator cannot tell apart are one element. Locale \<open>ordered_set\<close>.
  \<^item> \<open>Packet_Builder\<close> (\<open>server/filereader\<close>), \<open>Packet_Sender\<close> (\<open>server/packet_sender\<close>),
    \<open>Rdt_Strategy\<close> (\<open>server/strategy/rdt_strategy.h\<close>, \<open>server/timer_thread\<close>): what the sending
    strategies share. Packets live in an explicit store, so a deleted one can still be pointed to.
  \<^item> \<open>Selective_Repeat\<close>, \<open>Stop_And_Wait\<close>, \<open>Go_Back_N\<close>: the three sending strategies and their
    timer threads, which are step functions between the places where another thread can come in.
  \<^item> \<open>Client_Strategy\<close>: \<open>client/filewriter\<close> and the two receiving strategies. \<open>Printing\<close>: the two
    \<open>operator<<\<close> of \<open>shared\<close> and the text of the statistics file.
  \<^item> \<open>Addresses\<close>, \<open>Server_Main\<close>, \<open>Client_Main\<close>, \<open>Dummy_Client\<close>: the main programs; \<open>Arguments\<close>:
    \<open>server/parser\<close>, \<open>client/parser\<close> and the constructors that use them.
  \<^item> \<open>Session\<close> (one worker and its client over a network) and \<open>Service\<close> (the whole server, any
    number of clients, the network): the compositions the theorems are about.

  \<^bold>\<open>What is proved.\<close>
  \<^item> \<open>Selective_Repeat_Inv\<close>, \<open>Stop_And_Wait_Inv\<close>, \<open>Go_Back_N_Inv\<close>, \<open>Client_Inv\<close>,
    \<open>Client_Go_Back_N_Inv\<close>: the invariant of each strategy, one lemma for each operation that it
    does not fail and keeps the invariant.
  \<^item> \<open>Session\<close>: the locale \<open>sending_strategy\<close> states what a worker relies on; from it follow, once
    for every strategy, that the client holds a prefix of the file, the whole file at the end,
    and that no handler fails. \<open>Session_Progress\<close> extends it to \<open>posting_strategy\<close>, from which it
    follows that every transfer can still be completed, and that to \<open>waiting_strategy\<close>, whose
    timer thread never empties the window. Selective repeat (\<open>File_Transfer\<close>,
    \<open>Progress\<close>) and stop-and-wait (\<open>Stop_And_Wait_Inv\<close>, \<open>Stop_And_Wait_Transfer\<close>) interpret all three;
    \<open>Served_Strategies\<close> interprets them for whichever of the two the server is in. Go-back-N
    waits for itself after its first timeout and so keeps a weaker contract
    (\<open>Go_Back_N_Transfer\<close>): it is safe, but a loss is final (\<open>Go_Back_N_Properties\<close>).
  \<^item> \<open>Server_Routing\<close>, \<open>Server_Threads\<close>: the tables of the server, in every mode and for every
    behaviour of network and clients. \<open>Loss_Probability\<close>: the one parameter of the link that
    liveness depends on, and the largest window, are not changed by any operation.
  \<^item> \<open>Service_Hosts\<close>: the clients and their requests in the whole service, in every mode.
    \<open>Service_Inv\<close>, \<open>Service_Worker_Inv\<close>, \<open>Service_Server_Inv\<close>: the invariant of the service with
    one of the two modes that keep the contract, by the rules of its step relation;
    \<open>Service_Properties\<close> states what every client gets. \<open>Service_Go_Back_N\<close>: what is left of that
    with go-back-N, where the server believes every acknowledgement, and how the handshake and a
    repeated request, delivered when nothing has been received, end a transfer with an empty file.
    \<open>Service_Refinement\<close> gives the abstract service, in which clients hold growing prefixes of
    their files, and shows that each step of the detailed one is a step of it or of nothing.
  \<^item> \<open>Service_Live\<close>, \<open>Service_Progress\<close>, \<open>Service_Completion\<close>: the progress of the whole service
    over a link that loses nothing. What its threads keep so that none waits for something that
    cannot come (the front of every window is on the network, a waiting worker has a packet that is
    not acknowledged, every worker's client has been sent a handshake, every worker whose creation
    is complete is recorded); what one thread or client does next; and from that, for any
    reachable state, a run that brings any finite set of clients to the end. The code gives no
    fairness between threads, so the theorem says that the end is always within reach.
  \<^item> \<open>Service_Runs\<close> computes runs from lists of events; \<open>Service_Faults\<close>, \<open>Service_Go_Back_N\<close>
    and \<open>Timer_Race\<close> exhibit by such runs, or prove from the code, the ways the service fails.
  \<^item> \<open>Wire_Properties\<close>, \<open>Server_Properties\<close>, \<open>Sender_Properties\<close>, \<open>Client_Properties\<close>,
    \<open>Stop_And_Wait_Properties\<close>, \<open>Arguments_Properties\<close>: the components one by one.

  \<^bold>\<open>The network.\<close> It is the log of everything sent: a datagram can be delivered at any later
  time, any number of times, in any order, or never. Besides, damaged datagrams can arrive: at a
  client any data packet whose checksum does not match (\<open>damaged\<close>; in a session also a
  handshake, \<open>stray\<close>), at a server in the mode \<open>selective_repeat\<close> any acknowledgement
  whose checksum does not match (\<open>damaged_ack\<close>). Stop-and-wait and go-back-N do not look
  at the checksum of an acknowledgement, so their theorems exclude damaged ones, and
  \<open>stop_and_wait_believes_damage\<close> shows what they do. A repeated request, which the server
  reads as an acknowledgement, has the number 0 (\<open>zero_ack\<close>): harmless where packets are numbered
  from 1, and what loses a file in \<open>repeated_request_loses_file\<close> where they are numbered from 0
  (the session of go-back-N, \<open>gbn_transfer_step\<close>, begins after the request and has no repeated
  request, no handshake and no damage in it; the theorems of \<open>Go_Back_N_Properties\<close> are about that
  session, those of \<open>Service_Go_Back_N\<close> about the service, where all three occur). Data whose checksum matches although it is damaged is excluded;
  \<open>byte_damage_detected\<close> says how far that goes.

  \<^bold>\<open>Threads.\<close> A step is what a thread does between two points where another can come in. The
  timer threads are split at every lock they take or release and at the time stamp they read
  between two of them. The operations a worker calls (\<open>start\<close>, \<open>acknowledge_packet\<close>) are one step: the
  timer thread comes in before or after them, not at the locks inside; as they are not modelled
  as interrupted, a mutex found locked is held by the same thread, a deadlock, except
  for go-back-N, where it is held by the timer thread for ever. What can happen at the finer
  points is the subject of \<open>Timer_Race\<close>. The state of the link is static: other workers change
  it between any two steps (\<open>link_used\<close> in a session, \<open>link\<close> in the service).

  \<^bold>\<open>Conditions of the theorems on the service.\<close> The theorems of \<open>Service_Properties\<close>,
  \<open>Service_Refinement\<close> and \<open>Service_Completion\<close> are about the modes \<open>stop_and_wait\<close> and
  \<open>selective_repeat\<close> (\<open>serves\<close> excludes go-back-N), for clients of the server's mode that can create
  and name their file (\<open>fits\<close>), and for a system that never gives a new thread the name of an
  earlier one: \<open>reuse\<close> is \<open>False\<close> in \<open>service_step\<close>. C++ does not promise that: \<open>std::thread::id\<close> of a
  thread that has ended can be given again, and the server indexes its tables, which it never
  clears, by it. \<open>Service_Faults\<close> has a run with \<open>reuse\<close> in which a client closes an empty file,
  so the condition cannot be dropped. The theorems of \<open>Server_Threads\<close>, that on null pointers
  apart, and those of \<open>Service_Go_Back_N\<close> hold with any reuse.

  \<^bold>\<open>Virtual calls.\<close> The object a worker constructs carries its class (\<open>new_strategy\<close>), and the calls
  of \<open>start\<close>, \<open>acknowledge_packet\<close> and \<open>handle_time_out\<close> choose their code by it; that it is the class
  for the mode of the server is a theorem (\<open>worker_well_typed\<close>), not a choice of the model.

  \<^bold>\<open>Bounds.\<close> Sequence numbers are \<open>32 word\<close>, checksums and lengths \<open>16 word\<close>, with the wrap-around
  of the code. The theorems on transfers need a file of fewer than \<open>2 ^ 32 - 1\<close> packets (\<open>usable\<close>,
  \<open>payloads_ok\<close>) and a name that fits a request. The code's \<open>int\<close>s are \<open>int\<close>; those that count
  packets of a window stay below \<open>2 ^ 31\<close> where a theorem asks for it. There is no fuel:
  every loop terminates by a measure (the packets left in the file and in the windows), and the
  loops that run for ever, those of the threads, are step relations.

  \<^bold>\<open>Parameters.\<close> The files the server can read and its working directory; the readings of the
  clock; whether a file can be created; the bytes of the receiving buffer before it is first
  written; the values of members no constructor assigns (the first number of go-back-N is one of
  them: the theorems on its transfers take it to be 0, which the client expects); whether iterators are checked (the loop
  of \<open>go_back_N_strategy.cpp\<close> that runs below \<open>begin()\<close>); whether the system reuses the name of a
  thread that has ended; the results of \<open>select\<close>, \<open>recvfrom\<close>, \<open>socket\<close>, \<open>setsockopt\<close>, \<open>bind\<close> and
  \<open>inet_addr\<close>. Where the code dereferences a deleted packet, takes an element of an empty container,
  indexes out of range or throws, the model returns the fault as an \<open>error\<close>; a set whose comparator
  follows a deleted packet is such a fault.

  \<^bold>\<open>Not modelled.\<close>
  \<^item> The messages on the standard output, which nothing reads.
  \<^item> Rounding of floating-point numbers: the loss probability, the draws compared with it and
    \<open>stof\<close>, which reads decimal fractions here, are rational.
  \<^item> Three places that read the element just popped from a deque (\<open>stop_and_wait_strategy.cpp:99\<close>,
    \<open>go_back_N_strategy.cpp:93\<close>, \<open>selective_repeat_strategy.cpp:172\<close>): the pointer read is taken to
    be the one popped.
  \<^item> \<open>kill\<close> and the destructors of the threads' classes, which nothing calls; the cleanup
    thread, whose body is commented out, and the rest of \<open>dummy_client.cpp\<close>, which is too.
  \<^item> The moment at which a process that has failed stops its other threads: a step that fails is
    not taken, and the theorems on errors say which ones fail.
\<close>

section \<open>The transfer from end to end\<close>

text \<open>
  Whatever the network does, what the client has written is a prefix of the file.
\<close>

theorem client_writes_prefix:
  assumes "transfer_reachable contents lnk n t"
  shows "prefix (cl_output (client t)) contents"
  using selective_repeat.session_prefix [OF reachable_inv [OF assms]] by (simp add: concat_chunks)

theorem client_writes_prefix_witness:
  "\<exists>t. transfer_reachable example_file example_link 4 t \<and> over t \<and>
     prefix (cl_output (client t)) example_file"
  by (rule example_over) (metis client_writes_prefix)

text \<open>
  When the client's strategy is done, what it has written is the file, byte for byte.
\<close>

theorem done_client_has_file:
  assumes "transfer_reachable contents lnk n t" "cl_done (client t)"
  shows "cl_output (client t) = contents"
  using selective_repeat.session_done [OF reachable_inv [OF assms(1)] assms(2)] by (simp add: concat_chunks)

theorem done_client_has_file_witness:
  "\<exists>t. transfer_reachable example_file example_link 4 t \<and> cl_done (client t) \<and>
     cl_output (client t) = [104, 105]"
  by (rule example_done) (metis done_client_has_file example_file_def)

text \<open>
  The server sends the terminal packet only when the client has written the whole file: an
  empty window means that all of it has been received, not only sent.
\<close>

theorem server_ends_after_delivery:
  assumes "transfer_reachable contents lnk n t" "over t"
  shows "cl_output (client t) = contents"
  using selective_repeat.session_over [OF reachable_inv [OF assms(1)] assms(2)] by (simp add: concat_chunks)

theorem server_ends_after_delivery_witness:
  "\<exists>t. transfer_reachable example_file example_link 4 t \<and> over t \<and>
     cl_output (client t) = [104, 105]"
  by (rule example_over) (metis server_ends_after_delivery example_file_def)

text \<open>
  C6: over a link that loses nothing, and with a client window of at least one packet, a
  transfer can be completed from every state it can get into, whatever has been damaged,
  delayed or dropped on the network before.
\<close>

theorem transfer_can_complete:
  assumes "transfer_reachable contents lnk n t" "loss_probability lnk \<le> 0" "1 \<le> n" "n < 2 ^ 31"
  shows "\<exists>t'. transfer_step\<^sup>*\<^sup>* t t' \<and> cl_done (client t') \<and> over t' \<and> cl_output (client t') = contents"
  using selective_repeat_live.can_complete [OF reachable_live [OF assms(2,1)] assms(3,4)]
  by (simp add: concat_chunks)

theorem transfer_can_complete_witness:
  "\<exists>t t'. transfer_reachable example_file example_link 4 t \<and> transfer_step\<^sup>*\<^sup>* t t' \<and>
     cl_done (client t') \<and> cl_output (client t') = [104, 105]"
proof -
  obtain t where t: "transfer_reachable example_file example_link 4 t" by (rule example_start)
  from transfer_can_complete [OF t example_usable(3)] t show ?thesis
    by (auto simp: example_file_def)
qed

text \<open>
  Neither side fails on what the other has sent: the client handles every datagram of the
  server, at any time and in any order, and the server's worker every acknowledgement of the
  client, whatever bytes follow it in the buffer. In particular no handler dereferences a
  deleted packet, takes an element of an empty container or locks a mutex it holds.
\<close>

theorem handlers_never_fail:
  assumes "transfer_reachable contents lnk n t"
  shows "(\<forall>x \<in> set (sent (server t)). succeeds (sr_client_run (Some x) (client t))) \<and>
    (\<not> over t \<longrightarrow> (\<forall>x \<in> set (cl_sent (client t)). \<forall>old. succeeds (handle_ack sr_acknowledge_packet (x @ old) (server t))))"
  using selective_repeat.session_survives [OF reachable_inv [OF assms]] by blast

theorem handlers_never_fail_witness:
  "\<exists>t. transfer_reachable example_file example_link 4 t \<and> \<not> over t \<and>
     (\<forall>x \<in> set (sent (server t)). succeeds (sr_client_run (Some x) (client t)))"
  by (rule example_start) (metis handlers_never_fail)

text \<open>
  C14: every acknowledgement the client has ever sent, but for its answers to the handshake, names
  a packet of the file that it has received, that is, written to its file or buffered in its
  window.
\<close>

theorem acknowledgements_truthful:
  assumes "transfer_reachable contents lnk n t"
  shows "\<forall>x \<in> set (cl_sent (client t)). x = ack_wire 0 \<or>
    (\<exists>i. 1 \<le> i \<and> i \<le> (length contents + 499) div 500 \<and> received (client t) i \<and> x = ack_wire (of_nat i))"
proof
  fix x assume "x \<in> set (cl_sent (client t))"
  then obtain i where i: "i \<le> (length contents + 499) div 500" "received (client t) i" "x = ack_wire (of_nat i)"
    using session_client [OF reachable_inv [OF assms]] by (auto simp: cl_inv_def acks_ok_def length_chunks)
  then show "x = ack_wire 0 \<or> (\<exists>i. 1 \<le> i \<and> i \<le> (length contents + 499) div 500 \<and> received (client t) i \<and>
      x = ack_wire (of_nat i))" by (cases i) auto
qed

theorem acknowledgements_truthful_witness:
  "\<exists>t. transfer_reachable example_file example_link 4 t \<and> over t \<and>
     (\<forall>x \<in> set (cl_sent (client t)). x = ack_wire 0 \<or>
        (\<exists>i. 1 \<le> i \<and> i \<le> (1 :: nat) \<and> received (client t) i \<and> x = ack_wire (of_nat i)))"
proof -
  obtain t where t: "transfer_reachable example_file example_link 4 t" "over t" by (rule example_over)
  from acknowledgements_truthful [OF t(1)] t show ?thesis by (auto simp: example_file_def)
qed

end
